(* ===== verification/Prelude.thy ===== *)
theory Prelude
  imports Main "HOL-Library.Word"
begin

text \<open>
  Shared vocabulary of the development: the C integer types as words, a region of
  memory as a list of bytes, the object representation of an integer on the
  little-endian hosts the Android build targets (\<open>-DBADVPN_LITTLE_ENDIAN\<close> in
  \<open>src/core/src/main/jni/Android.mk\<close>), and the copies the code makes with
  \<open>memcpy\<close> and \<open>memmove\<close>.  The lemmas are collected so that the component proofs are
  carried by \<open>simp\<close>.
\<close>

unbundle bit_operations_syntax

named_theorems mem_simps \<open>reading back what a copy or an integer store wrote\<close>
named_theorems job_simps \<open>effect of the job queue operations on the queue\<close>
named_theorems iface_defs \<open>definitions of the flow interface operations\<close>
named_theorems handler_defs \<open>definitions of component event handlers\<close>

type_synonym byte = "8 word"
type_synonym u16 = "16 word"
type_synonym u32 = "32 word"
type_synonym u64 = "64 word"

abbreviation INT_MAX :: int where "INT_MAX \<equiv> 2147483647"
abbreviation UINT16_MAX :: int where "UINT16_MAX \<equiv> 65535"


section \<open>Memory regions\<close>

text \<open>\<open>slice off n xs\<close> is what a read of \<open>n\<close> bytes at \<open>off\<close> sees.\<close>

definition slice :: "nat \<Rightarrow> nat \<Rightarrow> 'a list \<Rightarrow> 'a list" where
  "slice off n xs = take n (drop off xs)"

text \<open>\<open>splice off ys xs\<close> is \<open>xs\<close> after \<open>memcpy (xs + off, ys, length ys)\<close>.\<close>

definition splice :: "nat \<Rightarrow> 'a list \<Rightarrow> 'a list \<Rightarrow> 'a list" where
  "splice off ys xs = take off xs @ ys @ drop (off + length ys) xs"

lemma length_slice [simp]: "length (slice off n xs) = min n (length xs - off)"
  by (simp add: slice_def)

lemma length_splice [simp]:
  "off + length ys \<le> length xs \<Longrightarrow> length (splice off ys xs) = length xs"
  by (simp add: splice_def)

lemma slice_all [simp]: "slice 0 (length xs) xs = xs"
  by (simp add: slice_def)

lemma slice_0: "slice 0 n xs = take n xs"
  by (simp add: slice_def)

lemma slice_zero_len [simp]: "slice off 0 xs = []"
  by (simp add: slice_def)

lemma nth_slice [simp]:
  "i < n \<Longrightarrow> off + i < length xs \<Longrightarrow> slice off n xs ! i = xs ! (off + i)"
  by (simp add: slice_def)

lemma nth_splice:
  "off + length ys \<le> length xs \<Longrightarrow> i < length xs \<Longrightarrow>
   splice off ys xs ! i =
     (if i < off then xs ! i else if i < off + length ys then ys ! (i - off) else xs ! i)"
  by (auto simp: splice_def nth_append)

lemma slice_append:
  "off + m + n \<le> length xs \<Longrightarrow> slice off (m + n) xs = slice off m xs @ slice (off + m) n xs"
  by (rule nth_equalityI) (auto simp: nth_append add.assoc)

lemma slice_splice_same [mem_simps]:
  "off + length ys \<le> length xs \<Longrightarrow> n = length ys \<Longrightarrow> slice off n (splice off ys xs) = ys"
  by (rule nth_equalityI) (auto simp: nth_splice)

lemma slice_splice_prefix [mem_simps]:
  "off + length ys \<le> length xs \<Longrightarrow> n \<le> length ys \<Longrightarrow> slice off n (splice off ys xs) = take n ys"
  by (rule nth_equalityI) (auto simp: nth_splice)

lemma slice_splice_disjoint [mem_simps]:
  "off + length ys \<le> length xs \<Longrightarrow> a + n \<le> off \<or> off + length ys \<le> a \<Longrightarrow>
   slice a n (splice off ys xs) = slice a n xs"
  by (rule nth_equalityI) (auto simp: nth_splice)

lemma slice_slice:
  "a + m \<le> n \<Longrightarrow> slice a m (slice off n xs) = slice (off + a) m xs"
  by (simp add: slice_def take_drop add.commute min_def)

lemma slice_append_left:
  "off + n \<le> length xs \<Longrightarrow> slice off n (xs @ ys) = slice off n xs"
  by (simp add: slice_def)

lemma slice_append_right:
  "length xs \<le> off \<Longrightarrow> slice off n (xs @ ys) = slice (off - length xs) n ys"
  by (simp add: slice_def)

lemma slice_Cons:
  "slice (Suc n) k (a # xs) = slice n k xs"
  "slice (numeral m) k (a # xs) = slice (pred_numeral m) k xs"
  by (simp_all add: slice_def drop_Cons')

lemma slice_prefix: "k = length xs \<Longrightarrow> slice 0 k (xs @ ys) = xs"
  by (simp add: slice_def)

lemmas slice_layout = slice_Cons slice_prefix slice_append_right

lemma slice_2: "Suc off < length xs \<Longrightarrow> slice off 2 xs = [xs ! off, xs ! Suc off]"
  by (rule nth_equalityI) (auto simp: less_Suc_eq numeral_2_eq_2 nth_Cons')

lemma drop_slice: "drop off xs = slice off (length xs - off) xs"
  by (simp add: slice_def)


section \<open>Integers in memory\<close>

text \<open>\<open>*((uint8_t *)&x + k)\<close> on a little-endian host.\<close>

definition mem_byte :: "'a::len word \<Rightarrow> nat \<Rightarrow> byte" where
  "mem_byte x k = ucast (drop_bit (8 * k) x)"

text \<open>The integer whose object representation is the given byte sequence.\<close>

primrec of_mem :: "byte list \<Rightarrow> 'a::len word" where
  "of_mem [] = 0"
| "of_mem (b # bs) = ucast b OR push_bit 8 (of_mem bs)"

text \<open>The bytes of a 16, 32 or 64 bit object, lowest address first.\<close>

definition mem16 :: "u16 \<Rightarrow> byte list" where
  "mem16 x = [mem_byte x 0, mem_byte x 1]"

definition mem32 :: "u32 \<Rightarrow> byte list" where
  "mem32 x = [mem_byte x 0, mem_byte x 1, mem_byte x 2, mem_byte x 3]"

definition mem64 :: "u64 \<Rightarrow> byte list" where
  "mem64 x = [mem_byte x 0, mem_byte x 1, mem_byte x 2, mem_byte x 3,
              mem_byte x 4, mem_byte x 5, mem_byte x 6, mem_byte x 7]"

lemma bit_mem_byte [simp]: "bit (mem_byte x k) n \<longleftrightarrow> n < 8 \<and> bit x (8 * k + n)"
  by (auto simp: mem_byte_def bit_simps dest: bit_imp_le_length)

lemma bit_of_mem:
  "bit (of_mem bs :: 'a::len word) n \<longleftrightarrow>
   n < LENGTH('a) \<and> n div 8 < length bs \<and> bit (bs ! (n div 8)) (n mod 8)"
proof (induction bs arbitrary: n)
  case Nil
  then show ?case by simp
next
  case (Cons b bs)
  show ?case
  proof (cases "n < 8")
    case True
    then show ?thesis by (auto simp: bit_simps)
  next
    case False
    then have "n div 8 = Suc ((n - 8) div 8)" "(n - 8) mod 8 = n mod 8"
      by (simp_all add: le_div_geq le_mod_geq)
    with False show ?thesis by (auto simp: bit_simps Cons.IH dest: bit_imp_le_length)
  qed
qed

declare of_mem.simps [simp del]

lemma mem_byte_of_mem [mem_simps]:
  "k < length bs \<Longrightarrow> 8 * length bs \<le> LENGTH('a) \<Longrightarrow>
   mem_byte (of_mem bs :: 'a::len word) k = bs ! k"
  by (rule bit_word_eqI) (auto simp: bit_of_mem dest: bit_imp_le_length)

lemma of_mem_mem_bytes:
  "LENGTH('a) = 8 * n \<Longrightarrow> of_mem (map (mem_byte x) [0..<n]) = (x :: 'a::len word)"
  by (rule bit_word_eqI) (auto simp: bit_of_mem less_mult_imp_div_less)

lemma of_mem_mem16 [mem_simps]: "of_mem (mem16 x) = x"
  using of_mem_mem_bytes [of 2 x] by (simp add: mem16_def upt_rec)

lemma of_mem_mem32 [mem_simps]: "of_mem (mem32 x) = x"
  using of_mem_mem_bytes [of 4 x] by (simp add: mem32_def upt_rec numeral_2_eq_2 numeral_3_eq_3)

lemma of_mem_mem64 [mem_simps]: "of_mem (mem64 x) = x"
  using of_mem_mem_bytes [of 8 x] by (simp add: mem64_def upt_rec eval_nat_numeral)

lemma length_mem [simp]:
  "length (mem16 x) = 2" "length (mem32 y) = 4" "length (mem64 z) = 8"
  by (simp_all add: mem16_def mem32_def mem64_def)

lemma mem16_of_mem [mem_simps]: "length bs = 2 \<Longrightarrow> mem16 (of_mem bs) = bs"
  by (rule nth_equalityI) (auto simp: mem16_def mem_simps nth_Cons' less_Suc_eq numeral_2_eq_2)

lemma mem32_of_mem [mem_simps]: "length bs = 4 \<Longrightarrow> mem32 (of_mem bs) = bs"
  by (rule nth_equalityI) (auto simp: mem32_def mem_simps nth_Cons' less_Suc_eq eval_nat_numeral)

lemma mem16_inject [simp]: "mem16 x = mem16 y \<longleftrightarrow> x = y"
  by (metis of_mem_mem16)

lemma mem32_inject [simp]: "mem32 x = mem32 y \<longleftrightarrow> x = y"
  by (metis of_mem_mem32)

end
