(* ===== verification/Bytes.thy ===== *)
theory Bytes
  imports Prelude
begin

text \<open>
  Byte order conversion (\<open>misc/byteorder.h\<close>, the little-endian branch, which is the one
  the Android build selects) and the integer readers and writers of
  \<open>misc/read_write_int.h\<close>.  A pointer argument is the list of bytes it points at; a
  writer returns that list after the stores.
\<close>

section \<open>byteorder.h\<close>

definition badvpn_reverse16 :: "u16 \<Rightarrow> u16" where
  "badvpn_reverse16 x = of_mem [mem_byte x 1, mem_byte x 0]"

definition badvpn_reverse32 :: "u32 \<Rightarrow> u32" where
  "badvpn_reverse32 x = of_mem [mem_byte x 3, mem_byte x 2, mem_byte x 1, mem_byte x 0]"

definition badvpn_reverse64 :: "u64 \<Rightarrow> u64" where
  "badvpn_reverse64 x =
     of_mem [mem_byte x 7, mem_byte x 6, mem_byte x 5, mem_byte x 4,
             mem_byte x 3, mem_byte x 2, mem_byte x 1, mem_byte x 0]"

definition hton8 :: "byte \<Rightarrow> byte" where "hton8 x = x"
definition htol8 :: "byte \<Rightarrow> byte" where "htol8 x = x"

definition hton16 :: "u16 \<Rightarrow> u16" where "hton16 x = badvpn_reverse16 x"
definition hton32 :: "u32 \<Rightarrow> u32" where "hton32 x = badvpn_reverse32 x"
definition hton64 :: "u64 \<Rightarrow> u64" where "hton64 x = badvpn_reverse64 x"
definition htol16 :: "u16 \<Rightarrow> u16" where "htol16 x = x"
definition htol32 :: "u32 \<Rightarrow> u32" where "htol32 x = x"
definition htol64 :: "u64 \<Rightarrow> u64" where "htol64 x = x"

definition ntoh8 :: "byte \<Rightarrow> byte" where "ntoh8 x = hton8 x"
definition ntoh16 :: "u16 \<Rightarrow> u16" where "ntoh16 x = hton16 x"
definition ntoh32 :: "u32 \<Rightarrow> u32" where "ntoh32 x = hton32 x"
definition ntoh64 :: "u64 \<Rightarrow> u64" where "ntoh64 x = hton64 x"
definition ltoh8 :: "byte \<Rightarrow> byte" where "ltoh8 x = htol8 x"
definition ltoh16 :: "u16 \<Rightarrow> u16" where "ltoh16 x = htol16 x"
definition ltoh32 :: "u32 \<Rightarrow> u32" where "ltoh32 x = htol32 x"
definition ltoh64 :: "u64 \<Rightarrow> u64" where "ltoh64 x = htol64 x"


section \<open>read\_write\_int.h\<close>

definition badvpn_read_le8 :: "byte list \<Rightarrow> byte" where
  "badvpn_read_le8 p = push_bit 0 (p ! 0)"

definition badvpn_read_le16 :: "byte list \<Rightarrow> u16" where
  "badvpn_read_le16 p = push_bit 8 (ucast (p ! 1)) OR push_bit 0 (ucast (p ! 0))"

definition badvpn_read_le32 :: "byte list \<Rightarrow> u32" where
  "badvpn_read_le32 p =
     push_bit 24 (ucast (p ! 3)) OR push_bit 16 (ucast (p ! 2)) OR
     push_bit 8 (ucast (p ! 1)) OR push_bit 0 (ucast (p ! 0))"

definition badvpn_read_le64 :: "byte list \<Rightarrow> u64" where
  "badvpn_read_le64 p =
     push_bit 56 (ucast (p ! 7)) OR push_bit 48 (ucast (p ! 6)) OR
     push_bit 40 (ucast (p ! 5)) OR push_bit 32 (ucast (p ! 4)) OR
     push_bit 24 (ucast (p ! 3)) OR push_bit 16 (ucast (p ! 2)) OR
     push_bit 8 (ucast (p ! 1)) OR push_bit 0 (ucast (p ! 0))"

definition badvpn_read_be8 :: "byte list \<Rightarrow> byte" where
  "badvpn_read_be8 p = push_bit 0 (p ! 0)"

definition badvpn_read_be16 :: "byte list \<Rightarrow> u16" where
  "badvpn_read_be16 p = push_bit 8 (ucast (p ! 0)) OR push_bit 0 (ucast (p ! 1))"

definition badvpn_read_be32 :: "byte list \<Rightarrow> u32" where
  "badvpn_read_be32 p =
     push_bit 24 (ucast (p ! 0)) OR push_bit 16 (ucast (p ! 1)) OR
     push_bit 8 (ucast (p ! 2)) OR push_bit 0 (ucast (p ! 3))"

definition badvpn_read_be64 :: "byte list \<Rightarrow> u64" where
  "badvpn_read_be64 p =
     push_bit 56 (ucast (p ! 0)) OR push_bit 48 (ucast (p ! 1)) OR
     push_bit 40 (ucast (p ! 2)) OR push_bit 32 (ucast (p ! 3)) OR
     push_bit 24 (ucast (p ! 4)) OR push_bit 16 (ucast (p ! 5)) OR
     push_bit 8 (ucast (p ! 6)) OR push_bit 0 (ucast (p ! 7))"

definition badvpn_write_le8 :: "byte \<Rightarrow> byte list \<Rightarrow> byte list" where
  "badvpn_write_le8 x p = p[0 := drop_bit 0 x]"

definition badvpn_write_le16 :: "u16 \<Rightarrow> byte list \<Rightarrow> byte list" where
  "badvpn_write_le16 x p = p[1 := ucast (drop_bit 8 x), 0 := ucast (drop_bit 0 x)]"

definition badvpn_write_le32 :: "u32 \<Rightarrow> byte list \<Rightarrow> byte list" where
  "badvpn_write_le32 x p =
     p[3 := ucast (drop_bit 24 x), 2 := ucast (drop_bit 16 x),
       1 := ucast (drop_bit 8 x), 0 := ucast (drop_bit 0 x)]"

definition badvpn_write_le64 :: "u64 \<Rightarrow> byte list \<Rightarrow> byte list" where
  "badvpn_write_le64 x p =
     p[7 := ucast (drop_bit 56 x), 6 := ucast (drop_bit 48 x),
       5 := ucast (drop_bit 40 x), 4 := ucast (drop_bit 32 x),
       3 := ucast (drop_bit 24 x), 2 := ucast (drop_bit 16 x),
       1 := ucast (drop_bit 8 x), 0 := ucast (drop_bit 0 x)]"

definition badvpn_write_be8 :: "byte \<Rightarrow> byte list \<Rightarrow> byte list" where
  "badvpn_write_be8 x p = p[0 := drop_bit 0 x]"

definition badvpn_write_be16 :: "u16 \<Rightarrow> byte list \<Rightarrow> byte list" where
  "badvpn_write_be16 x p = p[0 := ucast (drop_bit 8 x), 1 := ucast (drop_bit 0 x)]"

definition badvpn_write_be32 :: "u32 \<Rightarrow> byte list \<Rightarrow> byte list" where
  "badvpn_write_be32 x p =
     p[0 := ucast (drop_bit 24 x), 1 := ucast (drop_bit 16 x),
       2 := ucast (drop_bit 8 x), 3 := ucast (drop_bit 0 x)]"

definition badvpn_write_be64 :: "u64 \<Rightarrow> byte list \<Rightarrow> byte list" where
  "badvpn_write_be64 x p =
     p[0 := ucast (drop_bit 56 x), 1 := ucast (drop_bit 48 x),
       2 := ucast (drop_bit 40 x), 3 := ucast (drop_bit 32 x),
       4 := ucast (drop_bit 24 x), 5 := ucast (drop_bit 16 x),
       6 := ucast (drop_bit 8 x), 7 := ucast (drop_bit 0 x)]"


section \<open>Readers and writers as the object representation\<close>

lemmas drop_bit_to_mem_byte = mem_byte_def [symmetric]

lemma shift_mem_byte:
  "ucast (drop_bit 0 x) = mem_byte x 0" "ucast (drop_bit 8 x) = mem_byte x (Suc 0)"
  "ucast (drop_bit 16 x) = mem_byte x 2" "ucast (drop_bit 24 x) = mem_byte x 3"
  "ucast (drop_bit 32 x) = mem_byte x 4" "ucast (drop_bit 40 x) = mem_byte x 5"
  "ucast (drop_bit 48 x) = mem_byte x 6" "ucast (drop_bit 56 x) = mem_byte x 7"
  by (simp_all add: mem_byte_def)

lemmas or_ac = or.commute or.left_commute or.assoc

lemma read_le16_of_mem: "badvpn_read_le16 p = of_mem [p ! 0, p ! 1]"
  by (simp add: badvpn_read_le16_def of_mem.simps or_ac)

lemma read_be16_of_mem: "badvpn_read_be16 p = of_mem [p ! 1, p ! 0]"
  by (simp add: badvpn_read_be16_def of_mem.simps or_ac)

lemma read_le32_of_mem: "badvpn_read_le32 p = of_mem [p ! 0, p ! 1, p ! 2, p ! 3]"
  by (simp add: badvpn_read_le32_def of_mem.simps or_ac)

lemma read_be32_of_mem: "badvpn_read_be32 p = of_mem [p ! 3, p ! 2, p ! 1, p ! 0]"
  by (simp add: badvpn_read_be32_def of_mem.simps or_ac)

lemma read_le64_of_mem:
  "badvpn_read_le64 p =
   of_mem [p ! 0, p ! 1, p ! 2, p ! 3, p ! 4, p ! 5, p ! 6, p ! 7]"
  by (simp add: badvpn_read_le64_def of_mem.simps or_ac)

lemma read_be64_of_mem:
  "badvpn_read_be64 p =
   of_mem [p ! 7, p ! 6, p ! 5, p ! 4, p ! 3, p ! 2, p ! 1, p ! 0]"
  by (simp add: badvpn_read_be64_def of_mem.simps or_ac)

lemmas read_of_mem =
  read_le16_of_mem read_be16_of_mem read_le32_of_mem
  read_be32_of_mem read_le64_of_mem read_be64_of_mem

lemmas write_defs =
  badvpn_write_le16_def badvpn_write_le32_def badvpn_write_le64_def
  badvpn_write_be16_def badvpn_write_be32_def badvpn_write_be64_def

lemma of_mem_bytes16: "of_mem [mem_byte x 0, mem_byte x (Suc 0)] = (x :: u16)"
  using of_mem_mem16 [of x] by (simp add: mem16_def)

lemma of_mem_bytes32:
  "of_mem [mem_byte x 0, mem_byte x (Suc 0), mem_byte x 2, mem_byte x 3] = (x :: u32)"
  using of_mem_mem32 [of x] by (simp add: mem32_def)

lemma of_mem_bytes64:
  "of_mem [mem_byte x 0, mem_byte x (Suc 0), mem_byte x 2, mem_byte x 3,
           mem_byte x 4, mem_byte x 5, mem_byte x 6, mem_byte x 7] = (x :: u64)"
  using of_mem_mem64 [of x] by (simp add: mem64_def)

lemmas of_mem_bytes = of_mem_bytes16 of_mem_bytes32 of_mem_bytes64


section \<open>The codec interface\<close>

text \<open>
  What the users of the readers and writers rely on: a store of \<open>width\<close> bytes is read
  back, changes nothing else, and a read looks at \<open>width\<close> bytes only.
\<close>

locale int_codec =
  fixes rd :: "byte list \<Rightarrow> 'a"
    and wr :: "'a \<Rightarrow> byte list \<Rightarrow> byte list"
    and width :: nat
  assumes length_wr: "length (wr x p) = length p"
    and rd_wr: "width \<le> length p \<Longrightarrow> rd (wr x p) = x"
    and wr_frame: "width \<le> i \<Longrightarrow> wr x p ! i = p ! i"
    and rd_local: "(\<And>i. i < width \<Longrightarrow> p ! i = q ! i) \<Longrightarrow> rd p = rd q"
begin

lemma wr_inject: "width \<le> length p \<Longrightarrow> wr x p = wr y p \<Longrightarrow> x = y"
  by (metis rd_wr)

lemma drop_wr: "width \<le> n \<Longrightarrow> drop n (wr x p) = drop n p"
  by (rule nth_equalityI) (auto simp: length_wr wr_frame)

text \<open>Two stores next to each other: the second leaves the first readable.\<close>

lemma rd_wr_adjacent:
  assumes "off + width \<le> length p" and "width \<le> off"
  shows "rd (take off (wr x p) @ wr y (drop off (wr x p))) = x"
proof -
  have "rd (take off (wr x p) @ wr y (drop off (wr x p))) = rd (wr x p)"
    using assms by (intro rd_local) (auto simp: length_wr nth_append)
  also have "\<dots> = x" using assms by (intro rd_wr) simp
  finally show ?thesis .
qed

end

lemma nth_update_0 [simp]: "Suc 0 \<le> length p \<Longrightarrow> p[0 := x] ! 0 = x"
  by (cases p) simp_all

lemma le_length_Suc_0: "2 \<le> length p \<Longrightarrow> Suc 0 \<le> length p"
  "4 \<le> length p \<Longrightarrow> Suc 0 \<le> length p" "8 \<le> length p \<Longrightarrow> Suc 0 \<le> length p"
  by simp_all

lemma mem_byte_0: "mem_byte x 0 = ucast x"
  by (simp add: mem_byte_def)

lemmas codec_simps =
  read_of_mem write_defs shift_mem_byte of_mem_bytes [unfolded mem_byte_0] le_length_Suc_0

interpretation le16: int_codec badvpn_read_le16 badvpn_write_le16 2
  by unfold_locales
    (auto simp: codec_simps)

interpretation be16: int_codec badvpn_read_be16 badvpn_write_be16 2
  by unfold_locales
    (auto simp: codec_simps)

interpretation le32: int_codec badvpn_read_le32 badvpn_write_le32 4
  by unfold_locales
    (auto simp: codec_simps)

interpretation be32: int_codec badvpn_read_be32 badvpn_write_be32 4
  by unfold_locales
    (auto simp: codec_simps)

interpretation le64: int_codec badvpn_read_le64 badvpn_write_le64 8
  by unfold_locales
    (auto simp: codec_simps)

interpretation be64: int_codec badvpn_read_be64 badvpn_write_be64 8
  by unfold_locales
    (auto simp: codec_simps)


section \<open>Byte order\<close>

lemma mem16_reverse: "mem16 (badvpn_reverse16 x) = rev (mem16 x)"
  by (simp add: badvpn_reverse16_def mem16_def mem_simps)

lemma mem32_reverse: "mem32 (badvpn_reverse32 x) = rev (mem32 x)"
  by (simp add: badvpn_reverse32_def mem32_def mem_simps)

lemma badvpn_reverse16_involution [simp]: "badvpn_reverse16 (badvpn_reverse16 x) = x"
  by (metis mem16_inject mem16_reverse rev_rev_ident)

lemma badvpn_reverse32_involution [simp]: "badvpn_reverse32 (badvpn_reverse32 x) = x"
  by (metis mem32_inject mem32_reverse rev_rev_ident)

lemma ntoh16_hton16 [simp]: "ntoh16 (hton16 x) = x" "hton16 (ntoh16 x) = x"
  by (simp_all add: ntoh16_def hton16_def)

lemma ntoh32_hton32 [simp]: "ntoh32 (hton32 x) = x" "hton32 (ntoh32 x) = x"
  by (simp_all add: ntoh32_def hton32_def)

lemma ltoh_htol [simp]: "ltoh16 (htol16 x) = x" "ltoh32 (htol32 y) = y" "ltoh8 (htol8 z) = z"
  by (simp_all add: ltoh16_def htol16_def ltoh32_def htol32_def ltoh8_def htol8_def)

lemma hton8_id [simp]: "hton8 x = x" "ntoh8 x = x" "htol8 x = x" "ltoh8 x = x"
  by (simp_all add: hton8_def ntoh8_def htol8_def ltoh8_def)

text \<open>\<open>hton16\<close> lays the most significant byte at the lowest address.\<close>

lemma read_be16_hton16 [mem_simps]: "badvpn_read_be16 (mem16 (hton16 x)) = x"
  using mem16_reverse [of x] of_mem_bytes16 [of x]
  by (simp add: hton16_def read_of_mem mem16_def)

lemma read_be16_ntoh16 [mem_simps]: "badvpn_read_be16 (mem16 x) = ntoh16 x"
  using read_be16_hton16 [of "ntoh16 x"] by simp

lemma hton16_inject [simp]: "hton16 x = hton16 y \<longleftrightarrow> x = y"
  by (metis ntoh16_hton16(1))

lemma ntoh16_inject [simp]: "ntoh16 x = ntoh16 y \<longleftrightarrow> x = y"
  by (metis ntoh16_hton16(2))

end
