(* ===== verification/IpProto.thy ===== *)
theory IpProto
  imports Bytes
begin

text \<open>
  The IPv4, IPv6 and UDP header code of \<open>misc/ipv4_proto.h\<close>, \<open>misc/ipv6_proto.h\<close> and
  \<open>misc/udp_proto.h\<close>: the packed header structs, the Internet checksum routines and the
  three header checks.  A 16 or 32 bit field holds the value the C object has, so a field
  in network order is turned into a number by \<open>ntoh16\<close>.  A pointer argument is the memory
  from that address on; the length argument says how much of it belongs to the packet.
\<close>

section \<open>ipv4\_proto.h\<close>

definition IPV4_PROTOCOL_UDP :: byte where "IPV4_PROTOCOL_UDP = 17"

record ipv4_header =
  iph_version4_ihl4 :: byte
  iph_ds :: byte
  iph_total_length :: u16
  iph_identification :: u16
  iph_flags3_fragmentoffset13 :: u16
  iph_ttl :: byte
  iph_protocol :: byte
  iph_checksum :: u16
  iph_source_address :: u32
  iph_destination_address :: u32

text \<open>The object representation of the packed struct, and the \<open>memcpy\<close> out of a packet.\<close>

definition ipv4_header_bytes :: "ipv4_header \<Rightarrow> byte list" where
  "ipv4_header_bytes h =
     [iph_version4_ihl4 h, iph_ds h] @ mem16 (iph_total_length h) @
     mem16 (iph_identification h) @ mem16 (iph_flags3_fragmentoffset13 h) @
     [iph_ttl h, iph_protocol h] @ mem16 (iph_checksum h) @
     mem32 (iph_source_address h) @ mem32 (iph_destination_address h)"

definition ipv4_header_load :: "byte list \<Rightarrow> ipv4_header" where
  "ipv4_header_load p =
     \<lparr> iph_version4_ihl4 = p ! 0, iph_ds = p ! 1,
       iph_total_length = of_mem (slice 2 2 p), iph_identification = of_mem (slice 4 2 p),
       iph_flags3_fragmentoffset13 = of_mem (slice 6 2 p),
       iph_ttl = p ! 8, iph_protocol = p ! 9, iph_checksum = of_mem (slice 10 2 p),
       iph_source_address = of_mem (slice 12 4 p),
       iph_destination_address = of_mem (slice 16 4 p) \<rparr>"

definition sizeof_ipv4_header :: int where "sizeof_ipv4_header = 20"

definition IPV4_GET_VERSION :: "ipv4_header \<Rightarrow> byte" where
  "IPV4_GET_VERSION h = drop_bit 4 (iph_version4_ihl4 h AND 0xF0)"

definition IPV4_GET_IHL :: "ipv4_header \<Rightarrow> byte" where
  "IPV4_GET_IHL h = drop_bit 0 (iph_version4_ihl4 h AND 0x0F)"

definition IPV4_MAKE_VERSION_IHL :: "nat \<Rightarrow> byte" where
  "IPV4_MAKE_VERSION_IHL sz = of_nat (sz div 4 + push_bit 4 4)"

text \<open>The summing loop: \<open>for (i = 0; i < n; i++) t += badvpn_read_be16(p + 2 * i)\<close>.\<close>

definition sum_be16 :: "byte list \<Rightarrow> nat \<Rightarrow> u32 \<Rightarrow> u32" where
  "sum_be16 p n t = fold (\<lambda>i t. t + ucast (badvpn_read_be16 (drop (2 * i) p))) [0..<n] t"

text \<open>The carry loop: \<open>while (t >> 16) t = (t & 0xFFFF) + (t >> 16)\<close>.\<close>

function fold_carry :: "u32 \<Rightarrow> u32" where
  "fold_carry t =
     (if drop_bit 16 t \<noteq> 0 then fold_carry ((t AND 0xFFFF) + drop_bit 16 t) else t)"
  by pat_completeness auto

lemma unat_split16:
  "unat (t AND 0xFFFF :: u32) = unat t mod 65536" "unat (drop_bit 16 t :: u32) = unat t div 65536"
proof -
  have "t AND 0xFFFF = take_bit 16 t" by (simp add: take_bit_eq_mask mask_eq_exp_minus_1)
  then show "unat (t AND 0xFFFF) = unat t mod 65536" 
    by (simp only: unsigned_take_bit_eq) (simp add: take_bit_eq_mod)
  show "unat (drop_bit 16 t) = unat t div 65536" 
    by (simp only: unat_drop_bit_eq) (simp add: drop_bit_eq_div)
qed

lemma unat_carry_step:
  "unat ((t AND 0xFFFF) + drop_bit 16 t :: u32) = unat t mod 65536 + unat t div 65536"
proof -
  have "unat t < 2 ^ 32" using unsigned_less [of t, where ?'a = nat] by simp
  then have "unat t mod 65536 + unat t div 65536 < 2 ^ 32" by simp
  then show ?thesis by (simp add: unat_word_ariths unat_split16)
qed

termination fold_carry
proof (relation "measure unat")
  fix t :: u32
  assume "drop_bit 16 t \<noteq> 0"
  then have "0 < unat t div 65536" by (metis unat_split16(2) unat_gt_0)
  then have "unat t mod 65536 + unat t div 65536 < unat t"
    using div_mult_mod_eq [of "unat t" 65536] by linarith
  then show "((t AND 0xFFFF) + drop_bit 16 t, t) \<in> measure unat"
    by (simp add: unat_carry_step)
qed simp

declare fold_carry.simps [simp del]

definition ipv4_checksum :: "ipv4_header \<Rightarrow> byte list \<Rightarrow> u16 \<Rightarrow> u16" where
  "ipv4_checksum header extra extra_len =
     (let t = sum_be16 (ipv4_header_bytes header) (nat sizeof_ipv4_header div 2) 0;
          t = sum_be16 extra (unat extra_len div 2) t;
          t = fold_carry t
      in hton16 (ucast (NOT t)))"

definition ipv4_check ::
  "byte list \<Rightarrow> int \<Rightarrow> (ipv4_header \<times> byte list \<times> int) option" where
  "ipv4_check data data_len =
     (if data_len < sizeof_ipv4_header then None
      else let out_header = ipv4_header_load data in
      if IPV4_GET_VERSION out_header \<noteq> 4 then None
      else let header_len = int (unat (IPV4_GET_IHL out_header)) * 4 in
      if header_len < sizeof_ipv4_header then None
      else if header_len > data_len then None
      else let total_length = int (unat (ntoh16 (iph_total_length out_header))) in
      if total_length < header_len then None
      else if total_length > data_len then None
      else
        let checksum_in_packet = iph_checksum out_header;
            zeroed = out_header\<lparr>iph_checksum := hton16 0\<rparr>;
            checksum_computed =
              ipv4_checksum zeroed (drop (nat sizeof_ipv4_header) data)
                (of_int (header_len - sizeof_ipv4_header));
            out_header = zeroed\<lparr>iph_checksum := checksum_in_packet\<rparr>
        in if checksum_in_packet \<noteq> checksum_computed then None
           else Some (out_header, drop (nat header_len) data, total_length - header_len))"


section \<open>ipv6\_proto.h\<close>

definition IPV6_NEXT_UDP :: byte where "IPV6_NEXT_UDP = 17"

record ipv6_header =
  ip6h_version4_tc4 :: byte
  ip6h_tc4_fl4 :: byte
  ip6h_fl :: u16
  ip6h_payload_length :: u16
  ip6h_next_header :: byte
  ip6h_hop_limit :: byte
  ip6h_source_address :: "byte list"
  ip6h_destination_address :: "byte list"

definition ipv6_header_bytes :: "ipv6_header \<Rightarrow> byte list" where
  "ipv6_header_bytes h =
     [ip6h_version4_tc4 h, ip6h_tc4_fl4 h] @ mem16 (ip6h_fl h) @
     mem16 (ip6h_payload_length h) @ [ip6h_next_header h, ip6h_hop_limit h] @
     ip6h_source_address h @ ip6h_destination_address h"

definition ipv6_header_load :: "byte list \<Rightarrow> ipv6_header" where
  "ipv6_header_load p =
     \<lparr> ip6h_version4_tc4 = p ! 0, ip6h_tc4_fl4 = p ! 1, ip6h_fl = of_mem (slice 2 2 p),
       ip6h_payload_length = of_mem (slice 4 2 p), ip6h_next_header = p ! 6,
       ip6h_hop_limit = p ! 7, ip6h_source_address = slice 8 16 p,
       ip6h_destination_address = slice 24 16 p \<rparr>"

definition sizeof_ipv6_header :: int where "sizeof_ipv6_header = 40"

definition ipv6_check ::
  "byte list \<Rightarrow> int \<Rightarrow> (ipv6_header \<times> byte list \<times> int) option" where
  "ipv6_check data data_len =
     (if data_len < sizeof_ipv6_header then None
      else let out_header = ipv6_header_load data in
      if drop_bit 4 (ntoh8 (ip6h_version4_tc4 out_header)) \<noteq> 6 then None
      else let payload_length = int (unat (ntoh16 (ip6h_payload_length out_header))) in
      if payload_length > data_len - sizeof_ipv6_header then None
      else Some (out_header, drop (nat sizeof_ipv6_header) data, payload_length))"


section \<open>udp\_proto.h\<close>

record udp_header =
  udph_source_port :: u16
  udph_dest_port :: u16
  udph_length :: u16
  udph_checksum :: u16

definition udp_header_bytes :: "udp_header \<Rightarrow> byte list" where
  "udp_header_bytes h =
     mem16 (udph_source_port h) @ mem16 (udph_dest_port h) @
     mem16 (udph_length h) @ mem16 (udph_checksum h)"

definition udp_header_load :: "byte list \<Rightarrow> udp_header" where
  "udp_header_load p =
     \<lparr> udph_source_port = of_mem (slice 0 2 p), udph_dest_port = of_mem (slice 2 2 p),
       udph_length = of_mem (slice 4 2 p), udph_checksum = of_mem (slice 6 2 p) \<rparr>"

definition sizeof_udp_header :: int where "sizeof_udp_header = 8"

definition udp_checksum_summer :: "byte list \<Rightarrow> u16 \<Rightarrow> u32" where
  "udp_checksum_summer data len = sum_be16 data (unat len div 2) 0"

text \<open>\<open>t = ~t; if (t == 0) t = UINT16_MAX; return hton16(t)\<close> on the 32 bit \<open>t\<close>.\<close>

definition udp_checksum_finish :: "u32 \<Rightarrow> u16" where
  "udp_checksum_finish t =
     (let t = NOT t; t = (if t = 0 then 0xFFFF else t) in hton16 (ucast t))"

text \<open>The payload part shared by both checksums: an odd last byte is padded with zero.\<close>

definition udp_payload_sum :: "byte list \<Rightarrow> u16 \<Rightarrow> u32" where
  "udp_payload_sum payload payload_len =
     (if unat payload_len mod 2 = 0 then udp_checksum_summer payload payload_len
      else udp_checksum_summer payload (payload_len - 1) +
           udp_checksum_summer
             (mem16 (hton16 (push_bit 8 (ucast (payload ! (unat payload_len - 1)))))) 2)"

definition udp_checksum :: "udp_header \<Rightarrow> byte list \<Rightarrow> u16 \<Rightarrow> u32 \<Rightarrow> u32 \<Rightarrow> u16" where
  "udp_checksum header payload payload_len source_addr dest_addr =
     (let t = 0;
          t = t + udp_checksum_summer (mem32 source_addr) 4;
          t = t + udp_checksum_summer (mem32 dest_addr) 4;
          x = hton16 (ucast IPV4_PROTOCOL_UDP);
          t = t + udp_checksum_summer (mem16 x) 2;
          x = hton16 (of_int sizeof_udp_header + payload_len);
          t = t + udp_checksum_summer (mem16 x) 2;
          t = t + udp_checksum_summer (udp_header_bytes header) 8;
          t = t + udp_payload_sum payload payload_len;
          t = fold_carry t
      in udp_checksum_finish t)"

definition udp_ip6_checksum ::
  "udp_header \<Rightarrow> byte list \<Rightarrow> u16 \<Rightarrow> byte list \<Rightarrow> byte list \<Rightarrow> u16" where
  "udp_ip6_checksum header payload payload_len source_addr dest_addr =
     (let t = 0;
          t = t + udp_checksum_summer source_addr 16;
          t = t + udp_checksum_summer dest_addr 16;
          x = hton32 (of_int sizeof_udp_header + ucast payload_len);
          t = t + udp_checksum_summer (mem32 x) 4;
          x = hton32 (ucast IPV6_NEXT_UDP);
          t = t + udp_checksum_summer (mem32 x) 4;
          t = t + udp_checksum_summer (udp_header_bytes header) 8;
          t = t + udp_payload_sum payload payload_len;
          t = fold_carry t
      in udp_checksum_finish t)"

definition udp_check :: "byte list \<Rightarrow> int \<Rightarrow> (udp_header \<times> byte list \<times> int) option" where
  "udp_check data data_len =
     (if data_len < sizeof_udp_header then None
      else let out_header = udp_header_load data;
               data = drop (nat sizeof_udp_header) data;
               data_len = data_len - sizeof_udp_header;
               udp_length = int (unat (ntoh16 (udph_length out_header))) in
      if udp_length < sizeof_udp_header then None
      else if udp_length > sizeof_udp_header + data_len then None
      else let data_len = udp_length - sizeof_udp_header in
      Some (out_header, data, data_len))"


section \<open>The checksum routines against RFC 1071\<close>

text \<open>
  The reference: one's complement addition of 16 bit quantities with the carry added back
  at every step.  The code adds in 32 bits and folds the carries once at the end.
\<close>

definition oc_add :: "nat \<Rightarrow> nat \<Rightarrow> nat" where
  "oc_add a b = (a + b) mod 65536 + (a + b) div 65536"

definition oc_sum :: "nat list \<Rightarrow> nat" where
  "oc_sum ws = foldl oc_add 0 ws"

definition words16 :: "byte list \<Rightarrow> nat \<Rightarrow> nat list" where
  "words16 p n = map (\<lambda>i. unat (badvpn_read_be16 (drop (2 * i) p))) [0..<n]"

definition cksum_norm :: "nat \<Rightarrow> nat" where
  "cksum_norm s = (if s = 0 then 0 else Suc ((s - 1) mod 65535))"

lemma cksum_norm_le: "cksum_norm s \<le> 65535"
  by (auto simp: cksum_norm_def Suc_le_eq)

lemma cksum_norm_small [simp]: "s \<le> 65535 \<Longrightarrow> cksum_norm s = s"
  by (cases s) (auto simp: cksum_norm_def)

lemma cksum_norm_0_iff [simp]: "cksum_norm s = 0 \<longleftrightarrow> s = 0"
  by (simp add: cksum_norm_def)

lemma cksum_norm_eqI:
  assumes "a mod 65535 = b mod 65535" and "a = 0 \<longleftrightarrow> b = 0"
  shows "cksum_norm a = cksum_norm b"
proof (cases "b = 0")
  case False
  with assms have pos: "0 < a" "0 < b" by auto
  have "int a mod 65535 = int b mod 65535"
    using arg_cong [OF assms(1), of int] by (simp add: zmod_int)
  then have "(int a - 1) mod 65535 = (int b - 1) mod 65535"
    by (rule mod_diff_cong) (rule refl)
  then have "int ((a - 1) mod 65535) = int ((b - 1) mod 65535)"
    using pos by (simp add: zmod_int)
  then have "(a - 1) mod 65535 = (b - 1) mod 65535" by (simp only: of_nat_eq_iff)
  with pos show ?thesis by (simp add: cksum_norm_def)
qed (use assms in simp)

lemma cksum_norm_mod: "cksum_norm s mod 65535 = s mod 65535"
proof (cases s)
  case (Suc n)
  then show ?thesis by (simp add: cksum_norm_def mod_Suc_eq)
qed (simp add: cksum_norm_def)

lemma carry_mod: "(s mod 65536 + s div 65536) mod 65535 = s mod (65535::nat)"
proof -
  have "s = 65535 * (s div 65536) + (s mod 65536 + s div 65536)"
    using div_mult_mod_eq [of s 65536] by linarith
  then show ?thesis by (metis mod_mult_self4)
qed

lemma carry_0_iff: "s mod 65536 + s div 65536 = 0 \<longleftrightarrow> s = (0::nat)"
  by (metis add_is_0 div_mult_mod_eq div_0 mult_0)

lemma cksum_norm_carry: "cksum_norm (s mod 65536 + s div 65536) = cksum_norm s"
  by (rule cksum_norm_eqI) (simp_all only: carry_mod carry_0_iff)

lemma unat_fold_carry: "unat (fold_carry t) = cksum_norm (unat t)"
proof (induction t rule: fold_carry.induct)
  case (1 t)
  show ?case
  proof (cases "drop_bit 16 t = 0")
    case True
    then have "unat t div 65536 = 0" by (metis unat_split16(2) unat_0)
    then have "unat t \<le> 65535" by simp
    with True show ?thesis by (simp add: fold_carry.simps [of t])
  next
    case False
    then show ?thesis
      using 1 by (simp add: fold_carry.simps [of t] unat_carry_step cksum_norm_carry)
  qed
qed

lemma oc_add_norm: "oc_add a b = cksum_norm (a + b)" if "a \<le> 65535" "b \<le> 65535"
proof -
  have "(a + b) mod 65536 + (a + b) div 65536 \<le> 65535"
  proof (cases "a + b < 65536")
    case False
    then have "(a + b) div 65536 = 1" "(a + b) mod 65536 = a + b - 65536"
      using that by (auto simp: le_div_geq le_mod_geq)
    with that show ?thesis by linarith
  qed simp
  then show ?thesis
    by (metis cksum_norm_carry cksum_norm_small oc_add_def)
qed

lemma cksum_norm_add_norm: "cksum_norm (cksum_norm a + b) = cksum_norm (a + b)"
  by (rule cksum_norm_eqI) (rule mod_add_cong [OF cksum_norm_mod refl], simp)

lemma oc_sum_norm: "\<forall>w\<in>set ws. w \<le> 65535 \<Longrightarrow> oc_sum ws = cksum_norm (sum_list ws)"
proof (induction ws rule: rev_induct)
  case (snoc w ws)
  then show ?case
    by (simp add: oc_sum_def oc_add_norm cksum_norm_le cksum_norm_add_norm)
qed (simp add: oc_sum_def)

lemma u16_le: "unat (x :: u16) \<le> 65535"
  using unsigned_less [of x, where ?'a = nat] by simp

lemma words16_le: "w \<in> set (words16 p n) \<Longrightarrow> w \<le> 65535"
  by (auto simp: words16_def u16_le)

lemma length_words16 [simp]: "length (words16 p n) = n"
  by (simp add: words16_def)

lemma words16_Suc:
  "words16 p (Suc n) = words16 p n @ [unat (badvpn_read_be16 (drop (2 * n) p))]"
  by (simp add: words16_def)

lemma sum_list_words16_le: "sum_list (words16 p n) \<le> n * 65535"
proof (induction n)
  case (Suc n)
  then show ?case using u16_le [of "badvpn_read_be16 (drop (2 * n) p)"] by (simp add: words16_Suc)
qed (simp add: words16_def)

lemma unat_ucast_u16_u32 [simp]: "unat (ucast (x :: u16) :: u32) = unat x"
  using unsigned_less [of x, where ?'a = nat]
  by (simp add: unsigned_ucast_eq take_bit_nat_eq_self)

lemma sum_be16_Suc:
  "sum_be16 p (Suc n) t = sum_be16 p n t + ucast (badvpn_read_be16 (drop (2 * n) p))"
  by (simp add: sum_be16_def)

lemma unat_sum_be16:
  "unat t + sum_list (words16 p n) < 2 ^ 32 \<Longrightarrow>
   unat (sum_be16 p n t) = unat t + sum_list (words16 p n)"
proof (induction n)
  case (Suc n)
  then show ?case
    by (simp add: sum_be16_Suc words16_Suc unat_word_ariths)
qed (simp add: sum_be16_def words16_def)

lemma words16_Cons2: "words16 (a # b # p) (Suc n) = unat (badvpn_read_be16 [a, b]) # words16 p n"
proof -
  have "badvpn_read_be16 (drop (2 * i) (a # b # p)) =
        (if i = 0 then badvpn_read_be16 [a, b] else badvpn_read_be16 (drop (2 * (i - 1)) p))" for i
    by (cases i) (simp_all add: read_of_mem)
  then show ?thesis
    by (simp add: words16_def upt_conv_Cons map_Suc_upt [symmetric] del: upt_Suc)
qed

lemma words16_mem16 [mem_simps]: "words16 (mem16 x @ p) (Suc n) = unat (ntoh16 x) # words16 p n"
  using read_be16_ntoh16 [of x] by (simp add: mem16_def words16_Cons2)

lemma words16_numeral:
  "words16 (a # b # p) (numeral k) = unat (badvpn_read_be16 [a, b]) # words16 p (pred_numeral k)"
  "words16 (mem16 x @ p) (numeral k) = unat (ntoh16 x) # words16 p (pred_numeral k)"
  by (simp_all only: numeral_eq_Suc words16_Cons2 words16_mem16)

lemma words16_mem16_1: "words16 (mem16 x) (Suc 0) = [unat (ntoh16 x)]"
  using words16_mem16 [of x "[]" 0] by (simp add: words16_def)

lemma words16_0 [simp]: "words16 p 0 = []"
  by (simp add: words16_def)

lemma words16_cong:
  "(\<And>i. i < 2 * n \<Longrightarrow> p ! i = q ! i) \<Longrightarrow> 2 * n \<le> length p \<Longrightarrow> 2 * n \<le> length q \<Longrightarrow>
   words16 p n = words16 q n"
  by (auto simp: words16_def read_of_mem)

lemma words16_add: "2 * m \<le> length p \<Longrightarrow> words16 p (m + n) = words16 p m @ words16 (drop (2 * m) p) n"
  by (induction n) (simp_all add: words16_Suc ac_simps)

lemma words16_append_left: "2 * n \<le> length p \<Longrightarrow> words16 (p @ q) n = words16 p n"
  by (rule words16_cong) (auto simp: nth_append)

lemma unat_not_u16: "unat t \<le> 65535 \<Longrightarrow> unat (ucast (NOT t :: u32) :: u16) = 65535 - unat t"
proof -
  assume "unat t \<le> 65535"
  then have u: "unat (ucast t :: u16) = unat t"
    by (simp add: unsigned_ucast_eq take_bit_nat_eq_self)
  have "(ucast (NOT t) :: u16) = NOT (ucast t)"
    by (rule bit_word_eqI) (auto simp: bit_simps)
  also have "\<dots> = - 1 - ucast t" by (simp add: not_eq_complement)
  finally show ?thesis
    using u u16_le [of "ucast t"]
    by (simp add: unat_sub word_le_nat_alt unsigned_minus_1_eq_mask mask_eq_exp_minus_1)
qed

lemma unat_finish: "unat t \<le> 65535 \<Longrightarrow> udp_checksum_finish t = hton16 (ucast (NOT t))"
proof -
  assume "unat t \<le> 65535"
  then have "t \<noteq> - 1" by (auto simp: unsigned_minus_1_eq_mask mask_eq_exp_minus_1)
  then have "NOT t \<noteq> 0" by (metis bit.compl_zero bit.double_compl)
  then show ?thesis by (simp add: udp_checksum_finish_def)
qed

text \<open>The tail shared by the checksum functions, on the 32 bit sum of a list of words.\<close>

lemma unat_not_fold_carry:
  assumes "unat t = sum_list ws" and "\<forall>w\<in>set ws. w \<le> 65535"
  shows "unat (ucast (NOT (fold_carry t)) :: u16) = 65535 - oc_sum ws"
  using assms cksum_norm_le [of "unat t"]
  by (simp add: unat_not_u16 unat_fold_carry oc_sum_norm)

lemma sum_half_words: "sum_list (words16 p (unat (n :: u16) div 2)) \<le> 32767 * 65535"
proof -
  have "unat n div 2 \<le> 32767" using u16_le [of n] by simp
  then have "unat n div 2 * 65535 \<le> 32767 * 65535" by (rule mult_le_mono1)
  then show ?thesis using sum_list_words16_le [of p "unat n div 2"] by linarith
qed

lemma unat_ipv4_checksum:
  "unat (ntoh16 (ipv4_checksum header extra extra_len)) =
   65535 - oc_sum (words16 (ipv4_header_bytes header) 10 @ words16 extra (unat extra_len div 2))"
proof -
  let ?h = "words16 (ipv4_header_bytes header) 10" and ?e = "words16 extra (unat extra_len div 2)"
  let ?t = "sum_be16 extra (unat extra_len div 2) (sum_be16 (ipv4_header_bytes header) 10 0)"
  have h: "sum_list ?h \<le> 10 * 65535" by (rule sum_list_words16_le)
  then have "sum_list ?h + sum_list ?e < 2 ^ 32"
    using sum_half_words [of extra extra_len] by simp
  then have "unat ?t = sum_list (?h @ ?e)" by (simp add: unat_sum_be16)
  then have "unat (ucast (NOT (fold_carry ?t)) :: u16) = 65535 - oc_sum (?h @ ?e)"
    by (rule unat_not_fold_carry) (auto dest: words16_le)
  then show ?thesis by (simp add: ipv4_checksum_def sizeof_ipv4_header_def)
qed

text \<open>C35. The IPv4 header checksum the code computes with a 32 bit accumulator and one final
  carry loop is the RFC 1071 checksum of the header and its options: the complement of the
  one's complement sum, stored in network order.\<close>

theorem ipv4_checksum_rfc1071:
  "unat (ntoh16 (ipv4_checksum header extra extra_len)) =
   65535 - oc_sum (words16 (ipv4_header_bytes header) 10 @ words16 extra (unat extra_len div 2))"
  by (rule unat_ipv4_checksum)

text \<open>The payload as RFC 768 sums it: padded with a zero byte to whole words.\<close>

definition padded_words :: "byte list \<Rightarrow> nat \<Rightarrow> nat list" where
  "padded_words p n = words16 (take n p @ replicate (n mod 2) 0) ((n + 1) div 2)"

lemma padded_words_even: "even n \<Longrightarrow> n \<le> length p \<Longrightarrow> padded_words p n = words16 p (n div 2)"
  unfolding padded_words_def by (simp add: even_iff_mod_2_eq_zero, rule words16_cong) auto

lemma padded_words_odd:
  assumes "odd n" and "n \<le> length p"
  shows "padded_words p n = words16 p (n div 2) @ [unat (badvpn_read_be16 [p ! (n - 1), 0])]"
proof -
  obtain k where k: "n = Suc (2 * k)" using assms(1) by (auto elim: oddE)
  let ?q = "take n p @ [0]"
  have "padded_words p n = words16 ?q (k + 1)" by (simp add: padded_words_def k)
  also have "\<dots> = words16 ?q k @ words16 (drop (2 * k) ?q) 1"
    using assms k by (intro words16_add) simp
  also have "drop (2 * k) ?q = [p ! (n - 1), 0]"
    using assms k by simp (metis Cons_nth_drop_Suc Suc_le_lessD
      drop_take take0 take_Suc_Cons Suc_diff_Suc diff_self_eq_0 lessI)
  also have "words16 ?q k = words16 p k" using assms k by (intro words16_cong) (auto simp: nth_append)
  finally show ?thesis using k by (simp add: words16_def)
qed

lemma unat_summer: "unat (udp_checksum_summer p n) = sum_list (words16 p (unat n div 2))"
  using sum_half_words [of p n] by (simp add: udp_checksum_summer_def unat_sum_be16)

lemma unat_payload_sum:
  assumes "unat n \<le> length p"
  shows "unat (udp_payload_sum p n) = sum_list (padded_words p (unat n))"
proof (cases "even (unat n)")
  case True
  then have "unat n mod 2 = 0" by (rule even_iff_mod_2_eq_zero [THEN iffD1])
  then have "udp_payload_sum p n = udp_checksum_summer p n"
    unfolding udp_payload_sum_def by (rule if_P)
  then show ?thesis by (simp only: unat_summer padded_words_even [OF True assms])
next
  case False
  let ?b = "p ! (unat n - 1)"
  have "n \<noteq> 0" using False by auto
  then have pred: "unat (n - 1) div 2 = unat n div 2"
    using False by (auto simp: unat_minus_one elim!: oddE)
  have pad: "words16 (mem16 (hton16 (push_bit 8 (ucast ?b)))) (Suc 0) = [unat (badvpn_read_be16 [?b, 0])]"
    by (simp add: words16_mem16_1 badvpn_read_be16_def)
  have sum: "udp_payload_sum p n = udp_checksum_summer p (n - 1) +
      udp_checksum_summer (mem16 (hton16 (push_bit 8 (ucast ?b)))) 2"
    unfolding udp_payload_sum_def by (rule if_not_P) (use False in presburger)
  have one: "unat (2 :: u16) div 2 = Suc 0" by simp
  show ?thesis
    unfolding sum padded_words_odd [OF False assms] unat_word_ariths unat_summer pred one pad
    using sum_half_words [of p n] u16_le [of "badvpn_read_be16 [?b, 0]"] by simp
qed

lemma padded_words_le: "w \<in> set (padded_words p n) \<Longrightarrow> w \<le> 65535"
  by (auto simp: padded_words_def dest: words16_le)

lemma sum_padded_words_le: "n \<le> 65535 \<Longrightarrow> sum_list (padded_words p n) \<le> 32768 * 65535"
proof -
  assume "n \<le> 65535"
  then have "(n + 1) div 2 * 65535 \<le> 32768 * 65535" by (intro mult_le_mono1) simp
  then show ?thesis
    unfolding padded_words_def using sum_list_words16_le order_trans by blast
qed

lemma read_be16_mem_bytes:
  "badvpn_read_be16 [mem_byte x (Suc k), mem_byte x k] = ucast (drop_bit (8 * k) x)"
proof (rule bit_word_eqI)
  fix n
  assume "n < LENGTH(16)"
  then have "n < 8 \<or> n = 8 + (n - 8) \<and> n - 8 < 8" by auto
  then consider "n < 8" | m where "n = 8 + m" "m < 8" by blast
  then show "bit (badvpn_read_be16 [mem_byte x (Suc k), mem_byte x k]) n \<longleftrightarrow>
        bit (ucast (drop_bit (8 * k) x) :: u16) n"
    by cases (auto simp: read_of_mem bit_of_mem bit_simps ac_simps)
qed

lemma words16_mem32_hton32:
  "words16 (mem32 (hton32 x)) 2 = [unat x div 65536, unat x mod 65536]"
proof -
  have "mem32 (hton32 x) = [mem_byte x 3, mem_byte x 2, mem_byte x 1, mem_byte x 0]"
    by (simp add: hton32_def mem32_reverse) (simp add: mem32_def)
  then have "words16 (mem32 (hton32 x)) 2 =
    [unat (ucast (drop_bit 16 x) :: u16), unat (ucast x :: u16)]"
    using read_be16_mem_bytes [of x 2] read_be16_mem_bytes [of x 0]
    by (simp add: words16_Cons2 numeral_2_eq_2 numeral_3_eq_3)
  moreover have "unat (ucast x :: u16) = unat x mod 65536"
    by (simp only: unsigned_ucast_eq) (simp add: take_bit_eq_mod)
  moreover have "unat (ucast (drop_bit 16 x) :: u16) = unat x div 65536"
    using unsigned_less [of x, where ?'a = nat]
    by (simp only: unsigned_ucast_eq unat_split16) (simp add: take_bit_eq_mod)
  ultimately show ?thesis by simp
qed

lemmas u32_sum_simps = unat_word_ariths unat_summer unat_payload_sum

text \<open>C17. For a payload that is really there, the UDP checksum over IPv4 is the complement of
  the one's complement sum of the pseudo header, the UDP header and the zero padded payload
  (RFC 768), whatever the checksum field of the header holds.  No value is exempt: a sum of
  all ones gives the checksum zero, because the 32 bit complement the code compares with zero
  is never zero.\<close>

theorem udp_checksum_rfc768:
  assumes "unat payload_len \<le> length payload"
  shows "unat (ntoh16 (udp_checksum header payload payload_len source_addr dest_addr)) =
    65535 - oc_sum (words16 (mem32 source_addr) 2 @ words16 (mem32 dest_addr) 2 @
      [17, (8 + unat payload_len) mod 65536] @ words16 (udp_header_bytes header) 4 @
      padded_words payload (unat payload_len))"
proof -
  let ?ws = "words16 (mem32 source_addr) 2 @ words16 (mem32 dest_addr) 2 @
      [17, (8 + unat payload_len) mod 65536] @ words16 (udp_header_bytes header) 4 @
      padded_words payload (unat payload_len)"
  define t where "t = udp_checksum_summer (mem32 source_addr) 4 +
    udp_checksum_summer (mem32 dest_addr) 4 +
    udp_checksum_summer (mem16 (hton16 (ucast IPV4_PROTOCOL_UDP))) 2 +
    udp_checksum_summer (mem16 (hton16 (of_int sizeof_udp_header + payload_len))) 2 +
    udp_checksum_summer (udp_header_bytes header) 8 + udp_payload_sum payload payload_len"
  have "unat t = sum_list ?ws"
    using sum_list_words16_le [of "mem32 source_addr" 2] sum_list_words16_le [of "mem32 dest_addr" 2]
      sum_list_words16_le [of "udp_header_bytes header" 4]
      sum_padded_words_le [OF u16_le [of payload_len], of payload] assms
    unfolding t_def
    by (simp add: u32_sum_simps words16_mem16_1 IPV4_PROTOCOL_UDP_def sizeof_udp_header_def)
  then have "unat (ucast (NOT (fold_carry t)) :: u16) = 65535 - oc_sum ?ws"
    by (rule unat_not_fold_carry) (auto dest: words16_le padded_words_le simp: less_imp_le)
  moreover have "udp_checksum header payload payload_len source_addr dest_addr =
      hton16 (ucast (NOT (fold_carry t)))"
    by (simp add: udp_checksum_def t_def unat_finish unat_fold_carry cksum_norm_le)
  ultimately show ?thesis by simp
qed

text \<open>A datagram with the one byte payload \<open>0xAB\<close> from 10.0.0.1 to 10.0.0.2.\<close>

theorem udp_checksum_rfc768_witness:
  "unat (ntoh16 (udp_checksum
      \<lparr>udph_source_port = hton16 1000, udph_dest_port = hton16 53, udph_length = hton16 9,
       udph_checksum = hton16 0\<rparr> [0xAB] 1 (hton32 0x0A000001) (hton32 0x0A000002))) = 15548"
  using udp_checksum_rfc768 [where payload_len = 1 and payload = "[0xAB]" and
    header = "\<lparr>udph_source_port = hton16 1000, udph_dest_port = hton16 53,
      udph_length = hton16 9, udph_checksum = hton16 0\<rparr>" and
    source_addr = "hton32 0x0A000001" and dest_addr = "hton32 0x0A000002"]
  by (simp add: words16_mem32_hton32 words16_numeral words16_Cons2 words16_mem16_1
      udp_header_bytes_def padded_words_def badvpn_read_be16_def oc_sum_def oc_add_def)

text \<open>C34. The UDP checksum over IPv6 is the complement of the one's complement sum of the IPv6
  pseudo header of RFC 8200 (addresses, 32 bit length, next header), the UDP header and the zero
  padded payload.\<close>

theorem udp_ip6_checksum_rfc8200:
  assumes "unat payload_len \<le> length payload"
  shows "unat (ntoh16 (udp_ip6_checksum header payload payload_len source_addr dest_addr)) =
    65535 - oc_sum (words16 source_addr 8 @ words16 dest_addr 8 @
      [(8 + unat payload_len) div 65536, (8 + unat payload_len) mod 65536] @ [0, 17] @
      words16 (udp_header_bytes header) 4 @ padded_words payload (unat payload_len))"
proof -
  let ?ws = "words16 source_addr 8 @ words16 dest_addr 8 @
      [(8 + unat payload_len) div 65536, (8 + unat payload_len) mod 65536] @ [0, 17] @
      words16 (udp_header_bytes header) 4 @ padded_words payload (unat payload_len)"
  define t where "t = udp_checksum_summer source_addr 16 + udp_checksum_summer dest_addr 16 +
    udp_checksum_summer (mem32 (hton32 (of_int sizeof_udp_header + ucast payload_len))) 4 +
    udp_checksum_summer (mem32 (hton32 (ucast IPV6_NEXT_UDP))) 4 +
    udp_checksum_summer (udp_header_bytes header) 8 + udp_payload_sum payload payload_len"
  have len: "unat (8 + ucast payload_len :: u32) = 8 + unat payload_len"
    using u16_le [of payload_len] by (simp add: unat_word_ariths)
  have "unat t = sum_list ?ws"
    using sum_list_words16_le [of source_addr 8] sum_list_words16_le [of dest_addr 8]
      sum_list_words16_le [of "udp_header_bytes header" 4]
      sum_padded_words_le [OF u16_le [of payload_len], of payload] assms u16_le [of payload_len]
    unfolding t_def
    by (simp add: u32_sum_simps words16_mem32_hton32 IPV6_NEXT_UDP_def sizeof_udp_header_def)
  then have "unat (ucast (NOT (fold_carry t)) :: u16) = 65535 - oc_sum ?ws"
    using u16_le [of payload_len]
    by (elim unat_not_fold_carry) (auto dest: words16_le padded_words_le simp: less_imp_le)
  moreover have "udp_ip6_checksum header payload payload_len source_addr dest_addr =
      hton16 (ucast (NOT (fold_carry t)))"
    by (simp add: udp_ip6_checksum_def t_def unat_finish unat_fold_carry cksum_norm_le)
  ultimately show ?thesis by simp
qed

theorem udp_ip6_checksum_rfc8200_witness:
  "unat (ntoh16 (udp_ip6_checksum
      \<lparr>udph_source_port = hton16 1000, udph_dest_port = hton16 53, udph_length = hton16 9,
       udph_checksum = hton16 0\<rparr> [0xAB] 1
      [0xFE,0x80,0,0,0,0,0,0,0,0,0,0,0,0,0,1] [0xFE,0x80,0,0,0,0,0,0,0,0,0,0,0,0,0,2])) = 21434"
  using udp_ip6_checksum_rfc8200 [where payload_len = 1 and payload = "[0xAB]" and
    header = "\<lparr>udph_source_port = hton16 1000, udph_dest_port = hton16 53,
      udph_length = hton16 9, udph_checksum = hton16 0\<rparr>" and
    source_addr = "[0xFE,0x80,0,0,0,0,0,0,0,0,0,0,0,0,0,1]" and
    dest_addr = "[0xFE,0x80,0,0,0,0,0,0,0,0,0,0,0,0,0,2]"]
  by (simp add: words16_numeral words16_Cons2 words16_mem16_1
      udp_header_bytes_def padded_words_def badvpn_read_be16_def oc_sum_def oc_add_def)


section \<open>Headers as laid out in memory\<close>

lemma length_ipv4_header_bytes [simp]: "length (ipv4_header_bytes h) = 20"
  by (simp add: ipv4_header_bytes_def)

lemma length_udp_header_bytes [simp]: "length (udp_header_bytes h) = 8"
  by (simp add: udp_header_bytes_def)

lemma ipv4_header_load_bytes [mem_simps]: "ipv4_header_load (ipv4_header_bytes h @ p) = h"
  by (simp add: ipv4_header_load_def ipv4_header_bytes_def slice_layout nth_append
      of_mem_mem16 of_mem_mem32)

lemma udp_header_load_bytes [mem_simps]: "udp_header_load (udp_header_bytes h @ p) = h"
  by (simp add: udp_header_load_def udp_header_bytes_def slice_layout of_mem_mem16)

lemma ipv6_header_load_bytes [mem_simps]:
  "length (ip6h_source_address h) = 16 \<Longrightarrow> length (ip6h_destination_address h) = 16 \<Longrightarrow>
   ipv6_header_load (ipv6_header_bytes h @ p) = h"
  by (simp add: ipv6_header_load_def ipv6_header_bytes_def slice_layout nth_append of_mem_mem16)

lemma ipv4_header_bytes_load:
  assumes "20 \<le> length p"
  shows "ipv4_header_bytes (ipv4_header_load p) = take 20 p"
proof -
  have "take 20 p = slice 0 2 p @ slice 2 2 p @ slice 4 2 p @ slice 6 2 p @ slice 8 2 p @
      slice 10 2 p @ slice 12 4 p @ slice 16 4 p"
    using assms slice_append [of 0 2 18 p] slice_append [of 2 2 16 p] slice_append [of 4 2 14 p]
      slice_append [of 6 2 12 p] slice_append [of 8 2 10 p] slice_append [of 10 2 8 p]
      slice_append [of 12 4 4 p] by (simp add: slice_0 [symmetric] numeral_2_eq_2 [symmetric])
  with assms show ?thesis
    by (simp add: ipv4_header_bytes_def ipv4_header_load_def slice_2 mem16_of_mem mem32_of_mem)
qed

lemma words16_ipv4_header:
  "words16 (ipv4_header_bytes h) 10 =
   [unat (badvpn_read_be16 [iph_version4_ihl4 h, iph_ds h]), unat (ntoh16 (iph_total_length h)),
    unat (ntoh16 (iph_identification h)), unat (ntoh16 (iph_flags3_fragmentoffset13 h)),
    unat (badvpn_read_be16 [iph_ttl h, iph_protocol h]), unat (ntoh16 (iph_checksum h))] @
   words16 (mem32 (iph_source_address h) @ mem32 (iph_destination_address h)) 4"
  by (simp add: ipv4_header_bytes_def words16_numeral)

text \<open>Adding the checksum to the sum it was computed from gives all ones.\<close>

lemma cksum_norm_complement: "cksum_norm (s + (65535 - cksum_norm s)) = 65535"
proof -
  have "(cksum_norm s + (65535 - cksum_norm s)) mod 65535 = (s + (65535 - cksum_norm s)) mod 65535"
    by (rule mod_add_cong) (simp_all add: cksum_norm_mod)
  then have "cksum_norm (s + (65535 - cksum_norm s)) = cksum_norm 65535"
    using cksum_norm_le [of s] by (intro cksum_norm_eqI) (auto simp: cksum_norm_def)
  then show ?thesis by simp
qed

lemma oc_sum_verify:
  assumes "k = 65535 - oc_sum ws" and "\<forall>w\<in>set ws. w \<le> 65535"
    and "sum_list vs = sum_list ws + k" and "\<forall>v\<in>set vs. v \<le> 65535"
  shows "oc_sum vs = 65535"
  using assms by (simp add: oc_sum_norm cksum_norm_complement)

lemma IHL_le: "unat (IPV4_GET_IHL h) \<le> 15"
proof -
  have "IPV4_GET_IHL h = take_bit 4 (iph_version4_ihl4 h)"
    by (simp add: IPV4_GET_IHL_def take_bit_eq_mask mask_eq_exp_minus_1)
  then have "unat (IPV4_GET_IHL h) < 2 ^ 4" 
    by (simp only: unsigned_take_bit_eq take_bit_nat_less_exp)
  then show ?thesis by simp
qed

lemma ipv4_check_eq:
  fixes data
  defines "h \<equiv> ipv4_header_load data"
  defines "hl \<equiv> 4 * unat (IPV4_GET_IHL h)" and "tot \<equiv> unat (ntoh16 (iph_total_length h))"
  shows "ipv4_check data data_len =
    (if data_len < 20 \<or> IPV4_GET_VERSION h \<noteq> 4 \<or> hl < 20 \<or> data_len < int hl \<or> tot < hl \<or>
        data_len < int tot \<or> iph_checksum h \<noteq>
          ipv4_checksum (h\<lparr>iph_checksum := hton16 0\<rparr>) (drop 20 data) (of_nat (hl - 20))
     then None else Some (h, drop hl data, int tot - int hl))"
proof -
  have hl: "int (unat (IPV4_GET_IHL h)) * 4 = int hl" by (simp add: hl_def)
  have same: "h\<lparr>iph_checksum := hton16 0\<rparr>\<lparr>iph_checksum := iph_checksum h\<rparr> = h" by simp
  have len: "hl < 20 \<or> (of_int (int hl - 20) :: u16) = of_nat (hl - 20)"
    by (cases "hl < 20") auto
  have twenty: "nat 20 = 20" by simp
  show ?thesis
    unfolding ipv4_check_def Let_def h_def [symmetric] hl tot_def [symmetric] same
      sizeof_ipv4_header_def twenty nat_int
    using len by auto
qed

lemma ipv4_check_SomeD:
  assumes "ipv4_check data data_len = Some (h, payload, payload_len)"
  defines "hl \<equiv> 4 * unat (IPV4_GET_IHL h)"
  shows "h = ipv4_header_load data" "IPV4_GET_VERSION h = 4" "20 \<le> hl" "0 \<le> payload_len"
    "int hl + payload_len = int (unat (ntoh16 (iph_total_length h)))"
    "int hl + payload_len \<le> data_len" "payload = drop hl data"
    "iph_checksum h = ipv4_checksum (h\<lparr>iph_checksum := hton16 0\<rparr>) (drop 20 data) (of_nat (hl - 20))"
proof -
  show h: "h = ipv4_header_load data"
    using assms(1) unfolding ipv4_check_eq by (auto split: if_splits)
  note D = assms(1) [unfolded ipv4_check_eq, folded h, folded hl_def]
  show "IPV4_GET_VERSION h = 4" "20 \<le> hl" "0 \<le> payload_len"
    "int hl + payload_len = int (unat (ntoh16 (iph_total_length h)))"
    "int hl + payload_len \<le> data_len" "payload = drop hl data"
    "iph_checksum h = ipv4_checksum (h\<lparr>iph_checksum := hton16 0\<rparr>) (drop 20 data) (of_nat (hl - 20))"
    using D by (auto simp del: of_nat_unat split: if_splits)
qed

text \<open>C16. \<open>ipv4_check\<close> accepts only well formed packets: version 4, a header of at least 20
  bytes, a total length between the header length and the data, and a header, options and
  checksum included, whose one's complement sum is all ones (RFC 1071 verification).  It hands
  out exactly the bytes between the header and the total length.\<close>

theorem ipv4_check_sound:
  assumes "ipv4_check data data_len = Some (h, payload, payload_len)"
    and "data_len \<le> int (length data)"
  defines "hl \<equiv> 4 * unat (IPV4_GET_IHL h)"
  shows "h = ipv4_header_load data \<and> IPV4_GET_VERSION h = 4 \<and> 20 \<le> hl \<and>
    0 \<le> payload_len \<and> int hl + payload_len = int (unat (ntoh16 (iph_total_length h))) \<and>
    int hl + payload_len \<le> data_len \<and> payload = drop hl data \<and>
    oc_sum (words16 data (hl div 2)) = 65535"
proof -
  note D = ipv4_check_SomeD [OF assms(1), folded hl_def]
  let ?z = "h\<lparr>iph_checksum := hton16 0\<rparr>"
  let ?m = "(hl - 20) div 2"
  let ?ws = "words16 (ipv4_header_bytes ?z) 10 @ words16 (drop 20 data) ?m"
  have len: "hl \<le> length data" using D(4,6) assms(2) by linarith
  have small: "hl \<le> 60" using IHL_le [of h] by (simp add: hl_def)
  then have extra: "unat (of_nat (hl - 20) :: u16) div 2 = ?m"
    by (simp add: unsigned_of_nat take_bit_nat_eq_self)
  have k: "unat (ntoh16 (iph_checksum h)) = 65535 - oc_sum ?ws"
    by (simp only: D(8) unat_ipv4_checksum extra)
  have "words16 data 10 = words16 (ipv4_header_bytes h) 10"
    using len D(1,3) by (auto simp: ipv4_header_bytes_load intro!: words16_cong)
  moreover have "words16 data (10 + ?m) = words16 data 10 @ words16 (drop (2 * 10) data) ?m"
    using len D(3) by (intro words16_add) simp
  moreover have "hl div 2 = 10 + ?m" using D(3) by (simp add: hl_def) 
  ultimately have "sum_list (words16 data (hl div 2)) = sum_list ?ws + unat (ntoh16 (iph_checksum h))"
    by (simp add: words16_ipv4_header)
  then have "oc_sum (words16 data (hl div 2)) = 65535"
    by (rule oc_sum_verify [OF k, rotated]) (auto dest: words16_le)
  then show ?thesis using D by simp
qed

text \<open>A header without options carrying the checksum of itself is accepted.\<close>

lemma ipv4_checksum_no_options: "ipv4_checksum h extra 0 = ipv4_checksum h [] 0"
  by (simp add: ipv4_checksum_def sum_be16_def)

lemma ipv4_check_built:
  assumes "iph_version4_ihl4 h = IPV4_MAKE_VERSION_IHL 20"
    and "unat (ntoh16 (iph_total_length h)) = 20 + n" and "n \<le> length p"
    and "iph_checksum h = ipv4_checksum (h\<lparr>iph_checksum := hton16 0\<rparr>) [] 0"
  shows "ipv4_check (ipv4_header_bytes h @ p) (20 + int (length p)) = Some (h, p, int n)"
proof -
  have "IPV4_GET_VERSION h = 4" "unat (IPV4_GET_IHL h) = 5"
    using assms(1) by (simp_all add: IPV4_MAKE_VERSION_IHL_def IPV4_GET_VERSION_def IPV4_GET_IHL_def)
  then show ?thesis
    unfolding ipv4_check_eq ipv4_header_load_bytes
    using assms by (simp add: ipv4_checksum_no_options [where extra = p] del: of_nat_unat)
qed

text \<open>20 bytes of header, 3 bytes of payload and one trailing byte.\<close>

theorem ipv4_check_sound_witness:
  "oc_sum (words16 [0x45,0,0,23, 0,0,0,0, 64,17,0x66,0xD4, 10,0,0,1, 10,0,0,2, 1,2,3,4] 10) = 65535"
proof -
  let ?d = "[0x45,0,0,23, 0,0,0,0, 64,17,0x66,0xD4, 10,0,0,1, 10,0,0,2, 1,2,3,4] :: byte list"
  have "ipv4_check ?d 24 = Some (ipv4_header_load ?d, [1,2,3,4], 3)"
    unfolding ipv4_check_eq
    by (simp add: ipv4_header_load_def slice_def IPV4_GET_VERSION_def IPV4_GET_IHL_def
        of_mem.simps ntoh16_def hton16_def badvpn_reverse16_def mem_byte_def ipv4_checksum_def
        sum_be16_def ipv4_header_bytes_def sizeof_ipv4_header_def mem16_def mem32_def
        badvpn_read_be16_def fold_carry.simps upt_rec)
  from ipv4_check_sound [OF this] show ?thesis
    by (simp add: ipv4_header_load_def IPV4_GET_IHL_def)
qed

lemma ipv6_check_built:
  assumes "length (ip6h_source_address h) = 16" and "length (ip6h_destination_address h) = 16"
    and "drop_bit 4 (ip6h_version4_tc4 h) = 6"
    and "unat (ntoh16 (ip6h_payload_length h)) = n" and "n \<le> length p"
  shows "ipv6_check (ipv6_header_bytes h @ p) (40 + int (length p)) = Some (h, p, int n)"
proof -
  have "length (ipv6_header_bytes h) = 40" using assms by (simp add: ipv6_header_bytes_def)
  then show ?thesis using assms
    by (simp add: ipv6_check_def ipv6_header_load_bytes sizeof_ipv6_header_def del: of_nat_unat)
qed

lemma udp_check_built:
  assumes "unat (ntoh16 (udph_length h)) = 8 + n" and "n \<le> length p"
  shows "udp_check (udp_header_bytes h @ p) (8 + int (length p)) = Some (h, p, int n)"
  using assms
  by (simp add: udp_check_def udp_header_load_bytes sizeof_udp_header_def Let_def del: of_nat_unat)

lemma udp_check_SomeD:
  assumes "udp_check data data_len = Some (h, payload, payload_len)"
  shows "h = udp_header_load data" "payload = drop 8 data" "0 \<le> payload_len"
    "8 + payload_len = int (unat (ntoh16 (udph_length h)))" "8 + payload_len \<le> data_len"
  using assms
  by (auto simp: udp_check_def sizeof_udp_header_def Let_def simp del: of_nat_unat split: if_splits)

lemma ipv6_check_SomeD:
  assumes "ipv6_check data data_len = Some (h, payload, payload_len)"
  shows "h = ipv6_header_load data" "payload = drop 40 data" "0 \<le> payload_len"
    "drop_bit 4 (ip6h_version4_tc4 h) = 6"
    "payload_len = int (unat (ntoh16 (ip6h_payload_length h)))" "40 + payload_len \<le> data_len"
  using assms
  by (auto simp: ipv6_check_def sizeof_ipv6_header_def Let_def simp del: of_nat_unat split: if_splits)

end
