(* ===== verification/BSize.thy ===== *)
theory BSize
  imports Prelude
begin

text \<open>
  Sizes and alignment: \<open>misc/balign.h\<close>, \<open>misc/bsize.h\<close>, \<open>misc/overflow.h\<close> and the size
  computations of \<open>misc/balloc.h\<close>.  \<open>size_t\<close> is a machine word of any width, so the results hold
  for the 32 and the 64 bit targets.  \<open>malloc\<close> and \<open>realloc\<close> are outside the model: an
  allocation function returns the number of bytes it asks them for, or nothing when it returns
  \<open>NULL\<close> without asking.
\<close>

abbreviation SIZE_MAX :: "'w::len word" where "SIZE_MAX \<equiv> - 1"

section \<open>balign.h\<close>

definition balign_up_overflows :: "'w::len word \<Rightarrow> 'w word \<Rightarrow> bool" where
  "balign_up_overflows x n = (let r = x mod n in r \<noteq> 0 \<and> x > SIZE_MAX - (n - r))"

definition balign_up :: "'w::len word \<Rightarrow> 'w word \<Rightarrow> 'w word" where
  "balign_up x n = (let r = x mod n in if r \<noteq> 0 then x + (n - r) else x)"

definition balign_down :: "'w::len word \<Rightarrow> 'w word \<Rightarrow> 'w word" where
  "balign_down x n = x - x mod n"

definition bdivide_up :: "'w::len word \<Rightarrow> 'w word \<Rightarrow> 'w word" where
  "bdivide_up a b = (let r = a mod b in if r > 0 then a div b + 1 else a div b)"


section \<open>overflow.h\<close>

definition add_unsigned_overflows :: "'w::len word \<Rightarrow> 'w word \<Rightarrow> bool" where
  "add_unsigned_overflows a b \<longleftrightarrow> b > - 1 - a"

text \<open>The result is 0, 1 for an overflow and -1 for an underflow.\<close>

definition add_signed_overflows :: "int \<Rightarrow> int \<Rightarrow> int \<Rightarrow> int \<Rightarrow> int" where
  "add_signed_overflows lo hi a b =
     (if (a < 0) \<noteq> (b < 0) then 0
      else if a < 0 then (if a < lo - b then - 1 else 0)
      else if a > hi - b then 1 else 0)"


section \<open>bsize.h\<close>

record 'v bsize_t =
  is_overflow :: bool
  bs_value :: 'v

type_synonym 'w bsize = "'w word bsize_t"

definition bsize_fromsize :: "'w::len word \<Rightarrow> 'w bsize" where
  "bsize_fromsize v = \<lparr>is_overflow = False, bs_value = v\<rparr>"

definition bsize_fromint :: "int \<Rightarrow> 'w::len bsize" where
  "bsize_fromint v =
     \<lparr>is_overflow = (v < 0 \<or> (of_int v :: 'w word) > SIZE_MAX), bs_value = of_int v\<rparr>"

definition bsize_overflow :: "'w::len bsize" where
  "bsize_overflow = \<lparr>is_overflow = True, bs_value = 0\<rparr>"

definition bsize_tosize :: "'w::len bsize \<Rightarrow> 'w word option" where
  "bsize_tosize s = (if is_overflow s then None else Some (bs_value s))"

definition bsize_toint :: "'w::len bsize \<Rightarrow> int option" where
  "bsize_toint s =
     (if is_overflow s \<or> uint (bs_value s) > INT_MAX then None else Some (uint (bs_value s)))"

definition bsize_add :: "'w::len bsize \<Rightarrow> 'w bsize \<Rightarrow> 'w bsize" where
  "bsize_add s1 s2 =
     \<lparr>is_overflow = (is_overflow s1 \<or> is_overflow s2 \<or> bs_value s2 > SIZE_MAX - bs_value s1),
      bs_value = bs_value s1 + bs_value s2\<rparr>"

definition bsize_max :: "'w::len bsize \<Rightarrow> 'w bsize \<Rightarrow> 'w bsize" where
  "bsize_max s1 s2 =
     \<lparr>is_overflow = (is_overflow s1 \<or> is_overflow s2),
      bs_value = of_bool (bs_value s1 > bs_value s2) * bs_value s1 +
                 of_bool (bs_value s1 \<le> bs_value s2) * bs_value s2\<rparr>"

definition bsize_mul :: "'w::len bsize \<Rightarrow> 'w bsize \<Rightarrow> 'w bsize" where
  "bsize_mul s1 s2 =
     \<lparr>is_overflow = (is_overflow s1 \<or> is_overflow s2 \<or>
        bs_value s1 \<noteq> 0 \<and> bs_value s2 > SIZE_MAX div bs_value s1),
      bs_value = bs_value s1 * bs_value s2\<rparr>"


section \<open>balloc.h\<close>

definition BAlloc :: "'w::len word \<Rightarrow> 'w word option" where
  "BAlloc bytes = (if bytes = 0 then Some 1 else Some bytes)"

definition BRealloc :: "'w::len word \<Rightarrow> 'w word option" where
  "BRealloc bytes = (if bytes = 0 then Some 1 else Some bytes)"

definition BAllocSize :: "'w::len bsize \<Rightarrow> 'w word option" where
  "BAllocSize bytes = (if is_overflow bytes then None else BAlloc (bs_value bytes))"

definition BAllocArray :: "'w::len word \<Rightarrow> 'w word \<Rightarrow> 'w word option" where
  "BAllocArray count bytes =
     (if count = 0 \<or> bytes = 0 then Some 1
      else if count > SIZE_MAX div bytes then None
      else BAlloc (count * bytes))"

definition BReallocArray :: "'w::len word \<Rightarrow> 'w word \<Rightarrow> 'w word option" where
  "BReallocArray count bytes =
     (if count = 0 \<or> bytes = 0 then Some 1
      else if count > SIZE_MAX div bytes then None
      else Some (count * bytes))"

definition BAllocArray2 :: "'w::len word \<Rightarrow> 'w word \<Rightarrow> 'w word \<Rightarrow> 'w word option" where
  "BAllocArray2 count2 count1 bytes =
     (if count2 = 0 \<or> count1 = 0 \<or> bytes = 0 then Some 1
      else if count1 > SIZE_MAX div bytes then None
      else if count2 > SIZE_MAX div (count1 * bytes) then None
      else BAlloc (count2 * (count1 * bytes)))"

definition BSizeAdd :: "'w::len word \<Rightarrow> 'w word \<Rightarrow> 'w word option" where
  "BSizeAdd s add = (if add > SIZE_MAX - s then None else Some (s + add))"

definition BSizeAlign :: "'w::len word \<Rightarrow> 'w word \<Rightarrow> 'w word option" where
  "BSizeAlign s align =
     (let m = s mod align in
      if m > 0 then if align - m > SIZE_MAX - s then None else Some (s + (align - m))
      else Some s)"


section \<open>Exactness\<close>

lemma unat_SIZE_MAX: "unat (SIZE_MAX :: 'w::len word) = 2 ^ LENGTH('w) - 1"
  by (simp add: unsigned_minus_1_eq_mask mask_eq_exp_minus_1)

lemma u_less: "unat (x :: 'w::len word) < 2 ^ LENGTH('w)"
  by (rule unsigned_less)

lemma unat_max_minus: "unat (SIZE_MAX - a) = 2 ^ LENGTH('w) - 1 - unat (a :: 'w::len word)"
proof -
  have "a \<le> SIZE_MAX" by simp
  then show ?thesis by (simp only: unat_sub unat_SIZE_MAX)
qed

lemma gt_max_minus: "b > SIZE_MAX - a \<longleftrightarrow> 2 ^ LENGTH('w) \<le> unat a + unat (b :: 'w::len word)"
  unfolding word_less_nat_alt unat_max_minus using u_less [of a] u_less [of b] by linarith

lemma gt_max_div:
  "a \<noteq> 0 \<Longrightarrow> b > SIZE_MAX div a \<longleftrightarrow> 2 ^ LENGTH('w) \<le> unat a * unat (b :: 'w::len word)"
proof -
  assume "a \<noteq> 0"
  then have pos: "0 < unat a" by (simp add: unat_gt_0)
  have "b > SIZE_MAX div a \<longleftrightarrow> (2 ^ LENGTH('w) - 1) div unat a < unat b"
    by (simp add: word_less_nat_alt unat_div unat_SIZE_MAX)
  also have "\<dots> \<longleftrightarrow> 2 ^ LENGTH('w) - 1 < unat a * unat b"
    using pos by (simp add: div_less_iff_less_mult mult.commute)
  also have "\<dots> \<longleftrightarrow> 2 ^ LENGTH('w) \<le> unat a * unat b"
    using zero_less_power [of "2 :: nat" "LENGTH('w)"] by linarith
  finally show ?thesis .
qed

text \<open>The number a size stands for, if it has not overflowed.\<close>

definition bsize_abs :: "'w::len bsize \<Rightarrow> nat option" where
  "bsize_abs s = (if is_overflow s then None else Some (unat (bs_value s)))"

text \<open>Natural number arithmetic that fails when the result does not fit the word.\<close>

definition checked :: "'w::len itself \<Rightarrow> (nat \<Rightarrow> nat \<Rightarrow> nat) \<Rightarrow> nat option \<Rightarrow> nat option \<Rightarrow> nat option" where
  "checked w f a b =
     (case (a, b) of
        (Some x, Some y) \<Rightarrow> if f x y < 2 ^ LENGTH('w) then Some (f x y) else None
      | _ \<Rightarrow> None)"

lemma bsize_abs_add:
  "bsize_abs (bsize_add s1 s2) = checked TYPE('w) (+) (bsize_abs s1) (bsize_abs (s2 :: 'w::len bsize))"
  by (auto simp: bsize_abs_def bsize_add_def gt_max_minus checked_def unat_word_ariths)

lemma bsize_abs_mul:
  "bsize_abs (bsize_mul s1 s2) = checked TYPE('w) (*) (bsize_abs s1) (bsize_abs (s2 :: 'w::len bsize))"
  by (cases "bs_value s1 = 0")
    (auto simp: bsize_abs_def bsize_mul_def gt_max_div checked_def unat_word_ariths)

lemma bsize_abs_max:
  "bsize_abs (bsize_max s1 s2) = checked TYPE('w) max (bsize_abs s1) (bsize_abs (s2 :: 'w::len bsize))"
  using u_less [of "bs_value s1"] u_less [of "bs_value s2"]
  by (auto simp: bsize_abs_def bsize_max_def checked_def word_less_nat_alt word_le_nat_alt max_def)

text \<open>The contract the size expressions of the program rely on, and what it gives them.\<close>

locale checked_arith =
  fixes abs :: "'s \<Rightarrow> nat option"
    and op :: "'s \<Rightarrow> 's \<Rightarrow> 's"
    and f :: "nat \<Rightarrow> nat \<Rightarrow> nat"
    and w :: "'w::len itself"
  assumes abs_op: "abs (op s1 s2) = checked w f (abs s1) (abs s2)"
begin

lemma op_exact: "abs (op s1 s2) = Some n \<Longrightarrow> \<exists>a b. abs s1 = Some a \<and> abs s2 = Some b \<and> n = f a b"
  by (auto simp: abs_op checked_def split: option.splits if_splits)

lemma fold_exact:
  "abs (foldl op s ss) = Some n \<Longrightarrow>
   \<exists>a as. abs s = Some a \<and> map abs ss = map Some as \<and> n = foldl f a as"
proof (induction ss arbitrary: s)
  case (Cons t ss)
  then obtain a as where "abs (op s t) = Some a" "map abs ss = map Some as" "n = foldl f a as"
    by fastforce
  moreover from this(1) obtain x y where "abs s = Some x" "abs t = Some y" "a = f x y"
    using op_exact by blast
  ultimately show ?case by (intro exI [of _ x] exI [of _ "y # as"]) auto
qed auto

end

interpretation badd: checked_arith "bsize_abs :: 'w::len bsize \<Rightarrow> nat option" bsize_add "(+)" "TYPE('w::len)"
  by unfold_locales (rule bsize_abs_add)

interpretation bmul: checked_arith "bsize_abs :: 'w::len bsize \<Rightarrow> nat option" bsize_mul "(*)" "TYPE('w::len)"
  by unfold_locales (rule bsize_abs_mul)

interpretation bmax: checked_arith "bsize_abs :: 'w::len bsize \<Rightarrow> nat option" bsize_max max "TYPE('w::len)"
  by unfold_locales (rule bsize_abs_max)

text \<open>C36. Size arithmetic with overflow detection is exact: on every word width the sum, product
  and maximum of two sizes is the number over the naturals when it fits, and is marked as
  overflowed, for good, when an operand is or the result does not fit.\<close>

theorem bsize_exact:
  fixes s1 s2 :: "'w::len bsize"
  shows "bsize_abs (bsize_add s1 s2) = checked TYPE('w) (+) (bsize_abs s1) (bsize_abs s2) \<and>
    bsize_abs (bsize_mul s1 s2) = checked TYPE('w) (*) (bsize_abs s1) (bsize_abs s2) \<and>
    bsize_abs (bsize_max s1 s2) = checked TYPE('w) max (bsize_abs s1) (bsize_abs s2)"
  using badd.abs_op bmul.abs_op bmax.abs_op by blast

lemma mul_exact: "a \<noteq> 0 \<Longrightarrow> \<not> b > SIZE_MAX div a \<Longrightarrow> unat (b * a) = unat b * unat (a :: 'w::len word)"
  by (simp add: gt_max_div unat_word_ariths not_le mult.commute)

lemma unat_pos: "a \<noteq> 0 \<Longrightarrow> 0 < unat (a :: 'w::len word)"
  by (simp add: unat_gt_0)

lemma BAlloc_exact: "BAlloc a = Some n \<Longrightarrow> unat n = max 1 (unat a)"
  by (auto simp: BAlloc_def max_def split: if_splits dest: unat_pos)

lemma BAllocArray_exact:
  "BAllocArray count bytes = Some n \<Longrightarrow> unat n = max 1 (unat count * unat (bytes :: 'w::len word))"
  using BAlloc_exact [of "count * bytes" n]
  by (auto simp: BAllocArray_def mul_exact split: if_splits)

text \<open>C37. An array allocation never asks for fewer bytes than the array has: if \<open>BAllocArray\<close> or
  \<open>BAllocArray2\<close> passes a size on to the allocator, that size is the exact product, or one byte
  for an empty array.\<close>

theorem balloc_array_exact:
  fixes count bytes :: "'w::len word"
  assumes "BAllocArray count bytes = Some n" and "BAllocArray2 count2 count1 bytes = Some m"
  shows "unat n = max 1 (unat count * unat bytes) \<and>
    unat m = max 1 (unat count2 * (unat count1 * unat bytes))"
proof
  show "unat n = max 1 (unat count * unat bytes)"
    using assms(1) by (rule BAllocArray_exact)
  show "unat m = max 1 (unat count2 * (unat count1 * unat bytes))"
  proof (cases "count2 = 0 \<or> count1 = 0 \<or> bytes = 0")
    case False
    then have c1: "\<not> count1 > SIZE_MAX div bytes" "\<not> count2 > SIZE_MAX div (count1 * bytes)"
      and m: "BAlloc (count2 * (count1 * bytes)) = Some m"
      using assms(2) by (auto simp: BAllocArray2_def split: if_splits)
    have inner: "unat (count1 * bytes) = unat count1 * unat bytes"
      using False c1(1) by (simp add: mul_exact)
    then have "count1 * bytes \<noteq> 0" using False by (metis mult_eq_0_iff unat_0 unat_gt_0)
    then have "unat (count2 * (count1 * bytes)) = unat count2 * (unat count1 * unat bytes)"
      using c1(2) inner mul_exact by metis
    then show ?thesis using BAlloc_exact [OF m] by simp
  qed (use assms(2) in \<open>auto simp: BAllocArray2_def\<close>)
qed

theorem balloc_array_exact_witness:
  "BAllocArray (1000 :: 32 word) 12 = Some 12000 \<and>
   unat (12000 :: 32 word) = max 1 (unat (1000 :: 32 word) * unat (12 :: 32 word))"
proof -
  have a: "BAllocArray (1000 :: 32 word) 12 = Some 12000"
    by (simp add: BAllocArray_def BAlloc_def word_less_nat_alt unat_div unat_SIZE_MAX)
  have b: "BAllocArray2 (2 :: 32 word) 10 12 = Some 240"
    by (simp add: BAllocArray2_def BAlloc_def word_less_nat_alt unat_div unat_SIZE_MAX)
  show ?thesis using a balloc_array_exact [OF a b] by blast
qed

lemma div_round_up: "0 < b \<Longrightarrow> (a + b - 1) div b = a div b + of_bool (0 < a mod (b :: nat))"
proof -
  assume b: "0 < b"
  have "(a + b - 1) div b = (a div b * b + (a mod b + b - 1)) div b"
    using b by (simp add: add_ac)
  also have "\<dots> = a div b + (a mod b + b - 1) div b" using b by (simp only: div_mult_self3)
  also have "(a mod b + b - 1) div b = of_bool (0 < a mod b)"
    using b mod_less_divisor [OF b, of a] by (auto simp: div_nat_eqI)
  finally show ?thesis .
qed

lemma bdivide_up_exact:
  assumes "0 < unat b"
  shows "unat (bdivide_up a b) = (unat a + unat b - 1) div unat b"
proof (cases "a mod b = 0")
  case True
  then have "unat a mod unat b = 0" by (metis unat_0 unat_mod)
  then show ?thesis using True div_round_up [OF assms, of "unat a"]
    by (simp add: bdivide_up_def unat_div)
next
  case False
  then have r: "0 < unat a mod unat b" by (metis unat_gt_0 unat_mod)
  then have "unat a div unat b < unat a" using assms
    by (metis div_less_dividend gr0I less_one mod_by_1 mod_0 nat_neq_iff)
  then have "unat a div unat b + 1 < 2 ^ LENGTH('a)" using u_less [of a] by linarith
  then have "unat (a div b + 1) = unat a div unat b + 1" by (simp add: unat_word_ariths unat_div)
  then show ?thesis using False r div_round_up [OF assms, of "unat a"]
    by (simp add: bdivide_up_def word_gt_0)
qed

lemma BSizeAdd_exact:
  "BSizeAdd s add = Some n \<longleftrightarrow>
   unat s + unat add < 2 ^ LENGTH('w) \<and> unat n = unat s + unat (add :: 'w::len word)"
  unfolding BSizeAdd_def gt_max_minus
  by (auto simp: unat_word_ariths word_unat_eq_iff)

end
