(* ===== verification/ChunkBuffer.thy ===== *)
theory ChunkBuffer
  imports BSize
begin

text \<open>
  The circular packet buffer of \<open>structure/ChunkBuffer2.h\<close>.  The array of blocks is the memory
  it occupies, four bytes per block; a pointer into it is the byte offset from its start, and a
  \<open>NULL\<close> pointer is \<open>None\<close>.  The two assertion functions of the code are the executable
  invariant; on top of it, \<open>cb_rep\<close> says which packets the buffer holds, and every operation is
  shown to act on them as a first-in first-out queue.
\<close>

section \<open>ChunkBuffer2.h\<close>

definition sizeof_block :: int where "sizeof_block = 4"

record ChunkBuffer2 =
  cb_buffer :: "byte list"
  cb_size :: int
  cb_wrap :: int
  cb_start :: int
  cb_used :: int
  cb_mtu :: int
  cb_input_dest :: "int option"
  cb_input_avail :: int
  cb_output_dest :: "int option"
  cb_output_avail :: int

text \<open>The conversion of a \<open>size_t\<close> value to \<open>int\<close>.\<close>

definition to_int32 :: "int \<Rightarrow> int" where
  "to_int32 x = (x + 2 ^ 31) mod 2 ^ 32 - 2 ^ 31"

text \<open>\<open>bdivide_up(len, sizeof(struct ChunkBuffer2_block))\<close> for an \<open>int\<close> length.\<close>

definition bdivide_up_block :: "int \<Rightarrow> int" where
  "bdivide_up_block len = to_int32 (uint (bdivide_up (of_int len :: u64) (of_int sizeof_block)))"

text \<open>\<open>buffer[i].len\<close>, read and written.\<close>

definition block_len :: "byte list \<Rightarrow> int \<Rightarrow> int" where
  "block_len m i = sint (of_mem (slice (nat (4 * i)) 4 m) :: u32)"

definition set_block_len :: "int \<Rightarrow> int \<Rightarrow> byte list \<Rightarrow> byte list" where
  "set_block_len i len m = splice (nat (4 * i)) (mem32 (of_int len)) m"

definition ChunkBuffer2_end :: "ChunkBuffer2 \<Rightarrow> int" where
  "ChunkBuffer2_end b =
     (if cb_used b \<ge> cb_wrap b - cb_start b then cb_used b - (cb_wrap b - cb_start b)
      else cb_start b + cb_used b)"

definition ChunkBuffer2_assert_buffer :: "ChunkBuffer2 \<Rightarrow> bool" where
  "ChunkBuffer2_assert_buffer b \<longleftrightarrow>
     cb_size b > 0 \<and> cb_wrap b > 0 \<and> cb_wrap b \<le> cb_size b \<and> cb_start b \<ge> 0 \<and>
     cb_start b < cb_wrap b \<and> cb_used b \<ge> 0 \<and> cb_used b \<le> cb_wrap b \<and>
     (cb_wrap b = cb_size b \<or> cb_used b \<ge> cb_wrap b - cb_start b) \<and> cb_mtu b \<ge> 0"

definition ChunkBuffer2_assert_io :: "ChunkBuffer2 \<Rightarrow> bool" where
  "ChunkBuffer2_assert_io b \<longleftrightarrow>
     (let e = ChunkBuffer2_end b in
      (if cb_size b - e - 1 < cb_mtu b then cb_input_dest b = None \<and> cb_input_avail b = - 1
       else let free = (if cb_used b \<ge> cb_wrap b - cb_start b then cb_start b - e else cb_size b - e)
         in if free > 0
            then cb_input_dest b = Some (4 * (e + 1)) \<and>
                 cb_input_avail b = to_int32 ((free - 1) * sizeof_block)
            else cb_input_dest b = None \<and> cb_input_avail b = - 1) \<and>
      (if cb_used b > 0
       then let datalen = block_len (cb_buffer b) (cb_start b);
                blocklen = bdivide_up_block datalen
            in datalen \<ge> 0 \<and> blocklen \<le> cb_used b - 1 \<and>
               blocklen \<le> cb_wrap b - cb_start b - 1 \<and>
               cb_output_dest b = Some (4 * (cb_start b + 1)) \<and> cb_output_avail b = datalen
       else cb_output_dest b = None \<and> cb_output_avail b = - 1))"

definition ChunkBuffer2_update_input :: "ChunkBuffer2 \<Rightarrow> ChunkBuffer2" where
  "ChunkBuffer2_update_input b =
     (let e = ChunkBuffer2_end b in
      if cb_size b - e - 1 < cb_mtu b then b\<lparr>cb_input_dest := None, cb_input_avail := - 1\<rparr>
      else let free = (if cb_used b \<ge> cb_wrap b - cb_start b then cb_start b - e else cb_size b - e)
        in if free > 0
           then b\<lparr>cb_input_dest := Some (4 * (e + 1)),
                  cb_input_avail := to_int32 ((free - 1) * sizeof_block)\<rparr>
           else b\<lparr>cb_input_dest := None, cb_input_avail := - 1\<rparr>)"

definition ChunkBuffer2_update_output :: "ChunkBuffer2 \<Rightarrow> ChunkBuffer2" where
  "ChunkBuffer2_update_output b =
     (if cb_used b > 0
      then let datalen = block_len (cb_buffer b) (cb_start b)
           in b\<lparr>cb_output_dest := Some (4 * (cb_start b + 1)), cb_output_avail := datalen\<rparr>
      else b\<lparr>cb_output_dest := None, cb_output_avail := - 1\<rparr>)"

definition ChunkBuffer2_calc_blocks :: "int \<Rightarrow> int \<Rightarrow> int" where
  "ChunkBuffer2_calc_blocks chunk_len num =
     (let chunk_data_blocks = bdivide_up_block chunk_len in
      if chunk_data_blocks > INT_MAX - 1 then - 1
      else let chunk_blocks = 1 + chunk_data_blocks in
      if num > INT_MAX - 1 then - 1
      else let num_chunks = num + 1 in
      if chunk_blocks > INT_MAX div num_chunks then - 1
      else let blocks = chunk_blocks * num_chunks in blocks)"

definition ChunkBuffer2_Init :: "byte list \<Rightarrow> int \<Rightarrow> int \<Rightarrow> ChunkBuffer2 \<Rightarrow> ChunkBuffer2" where
  "ChunkBuffer2_Init buffer blocks mtu b =
     (let b = b\<lparr>cb_buffer := buffer, cb_size := blocks, cb_wrap := blocks, cb_start := 0,
               cb_used := 0, cb_mtu := bdivide_up_block mtu\<rparr>;
          b = ChunkBuffer2_update_input b
      in ChunkBuffer2_update_output b)"

definition ChunkBuffer2_SubmitPacket :: "int \<Rightarrow> ChunkBuffer2 \<Rightarrow> ChunkBuffer2" where
  "ChunkBuffer2_SubmitPacket len b =
     (let e = ChunkBuffer2_end b;
          blocklen = bdivide_up_block len;
          b = b\<lparr>cb_buffer := set_block_len e len (cb_buffer b)\<rparr>;
          b = b\<lparr>cb_used := cb_used b + (1 + blocklen)\<rparr>;
          b = (if cb_used b \<le> cb_wrap b - cb_start b \<and> cb_mtu b > cb_size b - (e + 1 + blocklen) - 1
               then b\<lparr>cb_wrap := e + 1 + blocklen\<rparr> else b);
          b = ChunkBuffer2_update_input b
      in if cb_used b = 1 + blocklen then ChunkBuffer2_update_output b else b)"

definition ChunkBuffer2_ConsumePacket :: "ChunkBuffer2 \<Rightarrow> ChunkBuffer2" where
  "ChunkBuffer2_ConsumePacket b =
     (let blocklen = bdivide_up_block (block_len (cb_buffer b) (cb_start b));
          data_wrapped = (cb_used b \<ge> cb_wrap b - cb_start b);
          b = b\<lparr>cb_start := cb_start b + (1 + blocklen)\<rparr>;
          b = b\<lparr>cb_used := cb_used b - (1 + blocklen)\<rparr>;
          b = (if cb_start b = cb_wrap b then b\<lparr>cb_start := 0, cb_wrap := cb_size b\<rparr> else b);
          b = (if data_wrapped then ChunkBuffer2_update_input b else b)
      in ChunkBuffer2_update_output b)"

text \<open>What a producer does with the memory it is offered: it stores some bytes there.\<close>

definition cb_write_input :: "byte list \<Rightarrow> ChunkBuffer2 \<Rightarrow> ChunkBuffer2" where
  "cb_write_input d b =
     (case cb_input_dest b of
        Some p \<Rightarrow> b\<lparr>cb_buffer := splice (nat p) d (cb_buffer b)\<rparr>
      | None \<Rightarrow> b)"

text \<open>What a consumer reads.\<close>

definition cb_read_output :: "ChunkBuffer2 \<Rightarrow> byte list option" where
  "cb_read_output b =
     (case cb_output_dest b of
        Some p \<Rightarrow> Some (slice (nat p) (nat (cb_output_avail b)) (cb_buffer b))
      | None \<Rightarrow> None)"


section \<open>Arithmetic of blocks\<close>

lemma to_int32_id: "- (2 ^ 31) \<le> x \<Longrightarrow> x < 2 ^ 31 \<Longrightarrow> to_int32 x = x"
  by (simp add: to_int32_def)

lemma bdivide_up_block_eq:
  assumes "0 \<le> len" and "len \<le> INT_MAX"
  shows "bdivide_up_block len = (len + 3) div 4"
proof -
  have u: "unat (of_int len :: u64) = nat len"
    using assms by (simp add: unsigned_of_int take_bit_int_eq_self)
  have "unat (bdivide_up (of_int len :: u64) 4) = (nat len + 3) div 4"
    using bdivide_up_exact [of "4 :: u64" "of_int len"] u by simp
  then have "uint (bdivide_up (of_int len :: u64) 4) = int ((nat len + 3) div 4)"
    by (metis uint_nat)
  then show ?thesis
    using assms by (simp add: bdivide_up_block_def sizeof_block_def zdiv_int to_int32_id)
qed

lemma block_len_set:
  assumes "0 \<le> i" and "nat (4 * i) + 4 \<le> length m" and "0 \<le> len" and "len \<le> INT_MAX"
  shows "block_len (set_block_len i len m) i = len"
proof -
  have "slice (nat (4 * i)) 4 (set_block_len i len m) = mem32 (of_int len)"
    unfolding set_block_len_def using assms by (intro slice_splice_same) auto
  then have "block_len (set_block_len i len m) i = sint (of_int len :: u32)"
    by (simp add: block_len_def of_mem_mem32)
  also have "\<dots> = len" using assms
    by (simp add: signed_of_int signed_take_bit_int_eq_self)
  finally show ?thesis .
qed


section \<open>The packets in the buffer\<close>

definition blks :: "byte list \<Rightarrow> int" where
  "blks p = 1 + (int (length p) + 3) div 4"

text \<open>
  \<open>layout lim m s ps e\<close>: from block \<open>s\<close> up to block \<open>e\<close> the memory holds the packets \<open>ps\<close>, each
  with its length in the block before it, and none starts after block \<open>lim\<close>.
\<close>

fun layout :: "int \<Rightarrow> byte list \<Rightarrow> int \<Rightarrow> byte list list \<Rightarrow> int \<Rightarrow> bool" where
  "layout lim m s [] e \<longleftrightarrow> s = e"
| "layout lim m s (p # ps) e \<longleftrightarrow>
     s \<le> lim \<and> block_len m s = int (length p) \<and> int (length p) \<le> INT_MAX \<and>
     slice (nat (4 * (s + 1))) (length p) m = p \<and> layout lim m (s + blks p) ps e"

lemma blks_pos: "1 \<le> blks p"
  by (simp add: blks_def)

lemma blks_bytes: "4 + int (length p) \<le> 4 * blks p" "4 * blks p \<le> 7 + int (length p)"
  by (simp_all add: blks_def)

lemma blks_eq: "int (length p) \<le> INT_MAX \<Longrightarrow> 1 + bdivide_up_block (int (length p)) = blks p"
  by (simp add: bdivide_up_block_eq blks_def)

lemma layout_append:
  "layout lim m s (ps @ qs) e \<longleftrightarrow> (\<exists>x. layout lim m s ps x \<and> layout lim m x qs e)"
  by (induction ps arbitrary: s) auto

lemma layout_le: "layout lim m s ps e \<Longrightarrow> s \<le> e"
proof (induction ps arbitrary: s)
  case (Cons p ps)
  then have "s + blks p \<le> e" by simp
  then show ?case using blks_pos [of p] by linarith
qed simp

lemma layout_less: "layout lim m s ps e \<Longrightarrow> ps \<noteq> [] \<Longrightarrow> s < e \<and> s \<le> lim"
proof (cases ps)
  case (Cons p qs)
  assume "layout lim m s ps e"
  then show ?thesis using Cons layout_le [of lim m "s + blks p" qs e] blks_pos [of p] by simp
qed simp

lemma layout_size: "layout lim m s ps e \<Longrightarrow> e - s = sum_list (map blks ps)"
  by (induction ps arbitrary: s) force+

text \<open>Stores outside the occupied blocks leave the packets alone.\<close>

lemma layout_frame:
  assumes "layout lim m s ps e" and "0 \<le> s" and "4 * e \<le> int (length m)"
    and "off + length d \<le> length m" and "int off + int (length d) \<le> 4 * s \<or> 4 * e \<le> int off"
  shows "layout lim (splice off d m) s ps e"
  using assms
proof (induction ps arbitrary: s)
  case (Cons p ps)
  then have rest: "layout lim m (s + blks p) ps e" by simp
  note bytes = blks_bytes [of p] layout_le [OF rest] blks_pos [of p]
  have "slice (nat (4 * s)) 4 (splice off d m) = slice (nat (4 * s)) 4 m"
    using Cons.prems(2,4,5) bytes by (intro slice_splice_disjoint) auto
  moreover have "slice (nat (4 * (s + 1))) (length p) (splice off d m) =
      slice (nat (4 * (s + 1))) (length p) m"
    using Cons.prems(2,4,5) bytes by (intro slice_splice_disjoint) auto
  moreover have "layout lim (splice off d m) (s + blks p) ps e"
    using Cons.prems bytes rest by (intro Cons.IH) auto
  ultimately show ?case using Cons.prems(1) by (simp add: block_len_def)
qed simp

text \<open>The blocks a new packet may start in.\<close>

abbreviation cb_lim :: "ChunkBuffer2 \<Rightarrow> int" where
  "cb_lim b \<equiv> cb_size b - 1 - cb_mtu b"

abbreviation wrapped :: "ChunkBuffer2 \<Rightarrow> bool" where
  "wrapped b \<equiv> cb_used b \<ge> cb_wrap b - cb_start b"

definition cb_wf :: "ChunkBuffer2 \<Rightarrow> bool" where
  "cb_wf b \<longleftrightarrow>
     int (length (cb_buffer b)) = 4 * cb_size b \<and> 4 * cb_size b \<le> INT_MAX \<and> 0 \<le> cb_lim b \<and>
     ChunkBuffer2_assert_buffer b \<and> ChunkBuffer2_assert_io b"

definition cb_packets :: "ChunkBuffer2 \<Rightarrow> byte list list \<Rightarrow> bool" where
  "cb_packets b ps \<longleftrightarrow>
     (if wrapped b
      then \<exists>ps1 ps2. ps = ps1 @ ps2 \<and> layout (cb_lim b) (cb_buffer b) (cb_start b) ps1 (cb_wrap b) \<and>
             layout (cb_lim b) (cb_buffer b) 0 ps2 (ChunkBuffer2_end b) \<and>
             ChunkBuffer2_end b \<le> cb_start b \<and> cb_size b - cb_wrap b \<le> cb_mtu b
      else cb_wrap b = cb_size b \<and> ChunkBuffer2_end b \<le> cb_lim b \<and>
           layout (cb_lim b) (cb_buffer b) (cb_start b) ps (ChunkBuffer2_end b))"

definition cb_rep :: "ChunkBuffer2 \<Rightarrow> byte list list \<Rightarrow> bool" where
  "cb_rep b ps \<longleftrightarrow> cb_wf b \<and> cb_packets b ps"

lemma cb_packets_wrappedI:
  "wrapped b \<Longrightarrow> layout (cb_lim b) (cb_buffer b) (cb_start b) psa (cb_wrap b) \<Longrightarrow>
   layout (cb_lim b) (cb_buffer b) 0 psb (ChunkBuffer2_end b) \<Longrightarrow>
   ChunkBuffer2_end b \<le> cb_start b \<Longrightarrow> cb_size b - cb_wrap b \<le> cb_mtu b \<Longrightarrow>
   ps = psa @ psb \<Longrightarrow> cb_packets b ps"
  by (auto simp: cb_packets_def)

lemma cb_packets_wrappedE:
  assumes "cb_packets b ps" and "wrapped b"
  obtains psa psb where "ps = psa @ psb"
    "layout (cb_lim b) (cb_buffer b) (cb_start b) psa (cb_wrap b)"
    "layout (cb_lim b) (cb_buffer b) 0 psb (ChunkBuffer2_end b)"
    "ChunkBuffer2_end b \<le> cb_start b" "cb_size b - cb_wrap b \<le> cb_mtu b"
  using assms by (auto simp: cb_packets_def)

lemma cb_packets_plain:
  "\<not> wrapped b \<Longrightarrow> cb_packets b ps \<longleftrightarrow>
   cb_wrap b = cb_size b \<and> ChunkBuffer2_end b \<le> cb_lim b \<and>
   layout (cb_lim b) (cb_buffer b) (cb_start b) ps (ChunkBuffer2_end b)"
  by (simp add: cb_packets_def)

text \<open>The updates touch only the fields they are for, and repeating them changes nothing.\<close>

lemma update_input_fields [simp]:
  "cb_buffer (ChunkBuffer2_update_input b) = cb_buffer b"
  "cb_size (ChunkBuffer2_update_input b) = cb_size b"
  "cb_wrap (ChunkBuffer2_update_input b) = cb_wrap b"
  "cb_start (ChunkBuffer2_update_input b) = cb_start b"
  "cb_used (ChunkBuffer2_update_input b) = cb_used b"
  "cb_mtu (ChunkBuffer2_update_input b) = cb_mtu b"
  "cb_output_dest (ChunkBuffer2_update_input b) = cb_output_dest b"
  "cb_output_avail (ChunkBuffer2_update_input b) = cb_output_avail b"
  by (simp_all add: ChunkBuffer2_update_input_def Let_def)

lemma update_output_fields [simp]:
  "cb_buffer (ChunkBuffer2_update_output b) = cb_buffer b"
  "cb_size (ChunkBuffer2_update_output b) = cb_size b"
  "cb_wrap (ChunkBuffer2_update_output b) = cb_wrap b"
  "cb_start (ChunkBuffer2_update_output b) = cb_start b"
  "cb_used (ChunkBuffer2_update_output b) = cb_used b"
  "cb_mtu (ChunkBuffer2_update_output b) = cb_mtu b"
  "cb_input_dest (ChunkBuffer2_update_output b) = cb_input_dest b"
  "cb_input_avail (ChunkBuffer2_update_output b) = cb_input_avail b"
  by (simp_all add: ChunkBuffer2_update_output_def Let_def)

lemma end_update [simp]:
  "ChunkBuffer2_end (ChunkBuffer2_update_input b) = ChunkBuffer2_end b"
  "ChunkBuffer2_end (ChunkBuffer2_update_output b) = ChunkBuffer2_end b"
  by (simp_all add: ChunkBuffer2_end_def)

text \<open>The two halves of the second assertion function.\<close>

definition cb_free :: "ChunkBuffer2 \<Rightarrow> int" where
  "cb_free b = (if wrapped b then cb_start b - ChunkBuffer2_end b else cb_size b - ChunkBuffer2_end b)"

definition io_in :: "ChunkBuffer2 \<Rightarrow> bool" where
  "io_in b \<longleftrightarrow>
     (if ChunkBuffer2_end b \<le> cb_lim b \<and> 0 < cb_free b
      then cb_input_dest b = Some (4 * (ChunkBuffer2_end b + 1)) \<and>
           cb_input_avail b = to_int32 ((cb_free b - 1) * sizeof_block)
      else cb_input_dest b = None \<and> cb_input_avail b = - 1)"

definition io_out :: "ChunkBuffer2 \<Rightarrow> bool" where
  "io_out b \<longleftrightarrow>
     (if cb_used b > 0
      then 0 \<le> block_len (cb_buffer b) (cb_start b) \<and>
           bdivide_up_block (block_len (cb_buffer b) (cb_start b)) \<le> cb_used b - 1 \<and>
           bdivide_up_block (block_len (cb_buffer b) (cb_start b)) \<le> cb_wrap b - cb_start b - 1 \<and>
           cb_output_dest b = Some (4 * (cb_start b + 1)) \<and>
           cb_output_avail b = block_len (cb_buffer b) (cb_start b)
      else cb_output_dest b = None \<and> cb_output_avail b = - 1)"

lemma cb_free_update [simp]:
  "cb_free (ChunkBuffer2_update_input b) = cb_free b"
  "cb_free (ChunkBuffer2_update_output b) = cb_free b"
  by (simp_all only: cb_free_def update_input_fields update_output_fields end_update)

lemma assert_io_split: "ChunkBuffer2_assert_io b \<longleftrightarrow> io_in b \<and> io_out b"
  by (auto simp: ChunkBuffer2_assert_io_def io_in_def io_out_def cb_free_def Let_def)

lemma io_in_update_input [simp]: "io_in (ChunkBuffer2_update_input b)"
  by (auto simp: io_in_def cb_free_def) (auto simp: ChunkBuffer2_update_input_def Let_def)

lemma io_in_update_output [simp]: "io_in (ChunkBuffer2_update_output b) = io_in b"
  by (simp only: io_in_def cb_free_def update_output_fields end_update)

lemma io_out_update_input [simp]: "io_out (ChunkBuffer2_update_input b) = io_out b"
  by (simp add: io_out_def)

lemma io_out_update_output:
  assumes "0 < cb_used b \<Longrightarrow> 0 \<le> block_len (cb_buffer b) (cb_start b) \<and>
      bdivide_up_block (block_len (cb_buffer b) (cb_start b)) \<le> cb_used b - 1 \<and>
      bdivide_up_block (block_len (cb_buffer b) (cb_start b)) \<le> cb_wrap b - cb_start b - 1"
  shows "io_out (ChunkBuffer2_update_output b)"
  using assms by (simp add: io_out_def) (simp add: ChunkBuffer2_update_output_def)

lemma assert_buffer_update [simp]:
  "ChunkBuffer2_assert_buffer (ChunkBuffer2_update_input b) = ChunkBuffer2_assert_buffer b"
  "ChunkBuffer2_assert_buffer (ChunkBuffer2_update_output b) = ChunkBuffer2_assert_buffer b"
  by (simp_all add: ChunkBuffer2_assert_buffer_def)

lemma cb_packets_update [simp]:
  "cb_packets (ChunkBuffer2_update_input b) ps = cb_packets b ps"
  "cb_packets (ChunkBuffer2_update_output b) ps = cb_packets b ps"
  by (simp_all only: cb_packets_def update_input_fields update_output_fields end_update)

text \<open>What holds of a buffer that represents some packets.\<close>

lemma cb_packets_facts:
  assumes "cb_packets b ps" and "ChunkBuffer2_assert_buffer b" and "0 \<le> cb_lim b"
  shows "0 \<le> ChunkBuffer2_end b" "ChunkBuffer2_end b \<le> cb_lim b" "cb_used b = 0 \<longleftrightarrow> ps = []"
    "wrapped b \<Longrightarrow> cb_start b \<le> cb_lim b"
proof -
  have buf: "0 \<le> cb_start b" "cb_start b < cb_wrap b" "0 \<le> cb_used b" "cb_wrap b \<le> cb_size b"
    using assms(2) by (simp_all add: ChunkBuffer2_assert_buffer_def)
  show "0 \<le> ChunkBuffer2_end b" using buf by (simp add: ChunkBuffer2_end_def)
  show "ChunkBuffer2_end b \<le> cb_lim b" "wrapped b \<Longrightarrow> cb_start b \<le> cb_lim b"
    "cb_used b = 0 \<longleftrightarrow> ps = []"
  proof -
    show start: "wrapped b \<Longrightarrow> cb_start b \<le> cb_lim b"
    proof -
      assume "wrapped b"
      then obtain ps1 where "layout (cb_lim b) (cb_buffer b) (cb_start b) ps1 (cb_wrap b)"
        using assms(1) by (auto simp: cb_packets_def)
      then show ?thesis using buf(2) layout_less by (cases ps1) auto
    qed
    show "ChunkBuffer2_end b \<le> cb_lim b"
      using assms(1) start by (fastforce simp: cb_packets_def split: if_splits)
    show "cb_used b = 0 \<longleftrightarrow> ps = []"
    proof (cases "wrapped b")
      case True
      then obtain ps1 ps2 where "ps = ps1 @ ps2"
          "layout (cb_lim b) (cb_buffer b) (cb_start b) ps1 (cb_wrap b)"
        using assms(1) by (auto simp: cb_packets_def)
      then show ?thesis using buf True by (cases ps1) auto
    next
      case False
      then have "layout (cb_lim b) (cb_buffer b) (cb_start b) ps (cb_start b + cb_used b)"
        using assms(1) by (simp add: cb_packets_def ChunkBuffer2_end_def)
      then show ?thesis using layout_less [of _ _ "cb_start b" ps] by (cases ps) fastforce+
    qed
  qed
qed

lemma cb_rep_facts:
  assumes "cb_rep b ps"
  shows "int (length (cb_buffer b)) = 4 * cb_size b" "4 * cb_size b \<le> INT_MAX" "0 \<le> cb_lim b"
    "ChunkBuffer2_assert_buffer b" "io_in b" "io_out b" "cb_packets b ps"
    "0 \<le> ChunkBuffer2_end b" "ChunkBuffer2_end b \<le> cb_lim b" "cb_used b = 0 \<longleftrightarrow> ps = []"
  using assms cb_packets_facts [of b ps] by (simp_all add: cb_rep_def cb_wf_def assert_io_split)

text \<open>How much the producer is offered.\<close>

lemma cb_input:
  assumes "cb_rep b ps"
  shows "cb_input_dest b = (if 0 < cb_free b then Some (4 * (ChunkBuffer2_end b + 1)) else None)"
    "cb_input_avail b = (if 0 < cb_free b then 4 * (cb_free b - 1) else - 1)"
proof -
  note R = cb_rep_facts [OF assms]
  have "cb_free b \<le> cb_size b"
    using R(4,8) by (auto simp: cb_free_def ChunkBuffer2_assert_buffer_def)
  then have "to_int32 ((cb_free b - 1) * sizeof_block) = 4 * (cb_free b - 1)" if "0 < cb_free b"
    using that R(2) by (simp add: sizeof_block_def to_int32_id)
  then show "cb_input_dest b = (if 0 < cb_free b then Some (4 * (ChunkBuffer2_end b + 1)) else None)"
    "cb_input_avail b = (if 0 < cb_free b then 4 * (cb_free b - 1) else - 1)"
    using R(5,9) by (auto simp: io_in_def)
qed

text \<open>The free blocks lie between the end of the data and the next occupied block.\<close>

lemma free_bounds:
  assumes "cb_rep b ps" and "0 < cb_free b"
  shows "ChunkBuffer2_end b + cb_free b \<le> cb_size b"
  using cb_rep_facts(4) [OF assms(1)] assms(2)
  by (auto simp: cb_free_def ChunkBuffer2_assert_buffer_def)

lemma packets_store_free:
  assumes rep: "cb_rep b ps" and free: "0 < cb_free b"
    and lo: "4 * ChunkBuffer2_end b \<le> int off"
    and hi: "int off + int (length d) \<le> 4 * (ChunkBuffer2_end b + cb_free b)"
  shows "off + length d \<le> length (cb_buffer b)"
    and "cb_packets (b\<lparr>cb_buffer := splice off d (cb_buffer b)\<rparr>) ps"
    and "ps \<noteq> [] \<Longrightarrow> block_len (splice off d (cb_buffer b)) (cb_start b) =
           block_len (cb_buffer b) (cb_start b)"
proof -
  note R = cb_rep_facts [OF rep]
  let ?m = "splice off d (cb_buffer b)"
  have "int off + int (length d) \<le> int (length (cb_buffer b))"
    using free_bounds [OF rep free] R(1) hi by simp
  then show len: "off + length d \<le> length (cb_buffer b)" by simp
  have buf: "0 \<le> cb_start b" "cb_start b < cb_wrap b" "cb_wrap b \<le> cb_size b"
    using R(4) by (simp_all add: ChunkBuffer2_assert_buffer_def)
  have end': "ChunkBuffer2_end (b\<lparr>cb_buffer := ?m\<rparr>) = ChunkBuffer2_end b"
    by (simp add: ChunkBuffer2_end_def)
  show "cb_packets (b\<lparr>cb_buffer := ?m\<rparr>) ps"
  proof (cases "wrapped b")
    case True
    then obtain ps1 ps2 where ps: "ps = ps1 @ ps2"
        "layout (cb_lim b) (cb_buffer b) (cb_start b) ps1 (cb_wrap b)"
        "layout (cb_lim b) (cb_buffer b) 0 ps2 (ChunkBuffer2_end b)"
        "ChunkBuffer2_end b \<le> cb_start b" "cb_size b - cb_wrap b \<le> cb_mtu b"
      using R(7) by (auto simp: cb_packets_def)
    have "layout (cb_lim b) ?m (cb_start b) ps1 (cb_wrap b)"
      using True buf R(1) hi len by (intro layout_frame [OF ps(2)]) (auto simp: cb_free_def)
    moreover have "layout (cb_lim b) ?m 0 ps2 (ChunkBuffer2_end b)"
      using buf R(1) lo len ps(4) by (intro layout_frame [OF ps(3)]) auto
    ultimately show ?thesis using True ps(1,4,5) by (auto simp: cb_packets_def end')
  next
    case False
    then have "layout (cb_lim b) ?m (cb_start b) ps (ChunkBuffer2_end b)"
      using R buf lo len
      by (intro layout_frame [of _ "cb_buffer b"]) (auto simp: cb_packets_def)
    then show ?thesis using False R(7) by (simp add: cb_packets_def end')
  qed
  show "ps \<noteq> [] \<Longrightarrow> block_len ?m (cb_start b) = block_len (cb_buffer b) (cb_start b)"
  proof -
    assume "ps \<noteq> []"
    then have "wrapped b \<or> cb_start b < ChunkBuffer2_end b"
      using R(7) layout_less [of "cb_lim b" "cb_buffer b" "cb_start b" ps "ChunkBuffer2_end b"]
      by (cases "wrapped b") (simp_all add: cb_packets_plain)
    then have "slice (nat (4 * cb_start b)) 4 ?m = slice (nat (4 * cb_start b)) 4 (cb_buffer b)"
      using buf lo hi len by (intro slice_splice_disjoint) (auto simp: cb_free_def split: if_splits)
    then show ?thesis by (simp add: block_len_def)
  qed
qed

text \<open>The state of the buffer once a packet is in the memory and accounted for.\<close>

lemma cb_packets_extend:
  assumes rep: "cb_rep b ps" and free: "blks p \<le> cb_free b" and p: "int (length p) \<le> INT_MAX"
    and m: "cb_packets (b\<lparr>cb_buffer := m\<rparr>) ps"
    and new: "block_len m (ChunkBuffer2_end b) = int (length p)"
      "slice (nat (4 * (ChunkBuffer2_end b + 1))) (length p) m = p"
  defines "e' \<equiv> ChunkBuffer2_end b + blks p"
  defines "b' \<equiv> b\<lparr>cb_buffer := m, cb_used := cb_used b + blks p\<rparr>"
  shows "cb_packets (if cb_used b' \<le> cb_wrap b' - cb_start b' \<and> cb_mtu b' > cb_size b' - e' - 1
      then b'\<lparr>cb_wrap := e'\<rparr> else b') (ps @ [p])"
proof -
  note R = cb_rep_facts [OF rep]
  have buf: "0 \<le> cb_start b" "cb_start b < cb_wrap b" "cb_wrap b \<le> cb_size b" "0 \<le> cb_used b"
    "0 \<le> cb_mtu b"
    using R(4) by (simp_all add: ChunkBuffer2_assert_buffer_def)
  have one: "layout (cb_lim b) m (ChunkBuffer2_end b) [p] e'"
    using R(9) new p by (simp add: e'_def)
  have end_m: "ChunkBuffer2_end (b\<lparr>cb_buffer := m\<rparr>) = ChunkBuffer2_end b"
    by (simp add: ChunkBuffer2_end_def)
  show ?thesis
  proof (cases "wrapped b")
    case True
    then obtain ps1 ps2 where ps: "ps = ps1 @ ps2" "layout (cb_lim b) m (cb_start b) ps1 (cb_wrap b)"
        "layout (cb_lim b) m 0 ps2 (ChunkBuffer2_end b)" "cb_size b - cb_wrap b \<le> cb_mtu b"
      using m by (auto simp: cb_packets_def end_m)
    have e': "ChunkBuffer2_end b' = e'" "e' \<le> cb_start b"
      using True free blks_pos [of p] by (simp_all add: ChunkBuffer2_end_def b'_def e'_def cb_free_def)
    have "layout (cb_lim b) m 0 (ps2 @ [p]) e'" using ps(3) one by (auto simp: layout_append)
    then have "cb_packets b' (ps @ [p])"
      using True ps e' blks_pos [of p] by (auto simp: cb_packets_def b'_def)
    moreover have "\<not> cb_used b' \<le> cb_wrap b' - cb_start b'"
      using True blks_pos [of p] by (simp add: b'_def)
    ultimately show ?thesis by simp
  next
    case False
    then have lay: "layout (cb_lim b) m (cb_start b) (ps @ [p]) e'" and w: "cb_wrap b = cb_size b"
      using m one by (auto simp: cb_packets_def end_m layout_append)
    have e': "e' = cb_start b + cb_used b'" "e' \<le> cb_size b" "cb_used b' = e' - cb_start b"
      using False free by (simp_all add: ChunkBuffer2_end_def b'_def e'_def cb_free_def)
    show ?thesis
    proof (cases "cb_mtu b > cb_size b - e' - 1")
      case True
      have "ChunkBuffer2_end (b'\<lparr>cb_wrap := e'\<rparr>) = 0"
        using e' by (simp add: ChunkBuffer2_end_def b'_def)
      then have "cb_packets (b'\<lparr>cb_wrap := e'\<rparr>) (ps @ [p])"
        using True lay e' buf
        by (intro cb_packets_wrappedI [where psa = "ps @ [p]" and psb = "[]"]) (auto simp: b'_def)
      then show ?thesis using True e' w by (simp add: b'_def)
    next
      case F: False
      then have "\<not> wrapped b'" "ChunkBuffer2_end b' = e'"
        using e' w R(3) buf by (auto simp: ChunkBuffer2_end_def b'_def)
      then have "cb_packets b' (ps @ [p])" using F lay w by (simp add: cb_packets_def b'_def)
      then show ?thesis using F by (simp add: b'_def)
    qed
  qed
qed

lemma assert_buffer_extend:
  fixes m
  assumes rep: "cb_rep b ps" and free: "blks p \<le> cb_free b"
  defines "e' \<equiv> ChunkBuffer2_end b + blks p"
  defines "b' \<equiv> b\<lparr>cb_buffer := m, cb_used := cb_used b + blks p\<rparr>"
  shows "ChunkBuffer2_assert_buffer (if cb_used b' \<le> cb_wrap b' - cb_start b' \<and> cb_mtu b' > cb_size b' - e' - 1
      then b'\<lparr>cb_wrap := e'\<rparr> else b')"
proof -
  note R = cb_rep_facts [OF rep]
  have "blks p \<ge> 1" by (rule blks_pos)
  then show ?thesis
  proof (cases "wrapped b")
    case True
    then have "\<not> cb_used b' \<le> cb_wrap b' - cb_start b'" "cb_used b' \<le> cb_wrap b'"
      using free \<open>blks p \<ge> 1\<close> by (auto simp: b'_def cb_free_def ChunkBuffer2_end_def)
    then show ?thesis using True R(4) \<open>blks p \<ge> 1\<close>
      by (auto simp: ChunkBuffer2_assert_buffer_def b'_def)
  next
    case False
    then have "cb_wrap b = cb_size b" "e' = cb_start b + cb_used b'" "e' \<le> cb_size b"
      using R(7) free by (auto simp: cb_packets_plain e'_def b'_def cb_free_def ChunkBuffer2_end_def)
    then show ?thesis using R(4) \<open>blks p \<ge> 1\<close>
      by (auto simp: ChunkBuffer2_assert_buffer_def b'_def)
  qed
qed

lemma cb_same_control [simp]:
  "ChunkBuffer2_end (b\<lparr>cb_buffer := m\<rparr>) = ChunkBuffer2_end b"
  "cb_free (b\<lparr>cb_buffer := m\<rparr>) = cb_free b" "io_in (b\<lparr>cb_buffer := m\<rparr>) = io_in b"
  "ChunkBuffer2_assert_buffer (b\<lparr>cb_buffer := m\<rparr>) = ChunkBuffer2_assert_buffer b"
proof -
  show e: "ChunkBuffer2_end (b\<lparr>cb_buffer := m\<rparr>) = ChunkBuffer2_end b"
    by (simp add: ChunkBuffer2_end_def)
  then show f: "cb_free (b\<lparr>cb_buffer := m\<rparr>) = cb_free b" by (simp add: cb_free_def)
  show "io_in (b\<lparr>cb_buffer := m\<rparr>) = io_in b" unfolding io_in_def e f by simp
qed (simp add: ChunkBuffer2_assert_buffer_def)

text \<open>Storing into the free blocks changes nothing the buffer promises.\<close>

lemma cb_rep_store_free:
  assumes "cb_rep b ps" and "0 < cb_free b" and "4 * ChunkBuffer2_end b \<le> int off"
    and "int off + int (length d) \<le> 4 * (ChunkBuffer2_end b + cb_free b)"
  shows "cb_rep (b\<lparr>cb_buffer := splice off d (cb_buffer b)\<rparr>) ps"
proof -
  note R = cb_rep_facts [OF assms(1)] and S = packets_store_free [OF assms]
  have "io_out (b\<lparr>cb_buffer := splice off d (cb_buffer b)\<rparr>)"
    using R(4,6,10) S(3) by (cases "ps = []") (auto simp: io_out_def)
  then show ?thesis using R S by (simp add: cb_rep_def cb_wf_def assert_io_split)
qed

lemma input_dest_free:
  assumes "cb_rep b ps" and "cb_input_dest b = Some q"
  shows "0 < cb_free b" "q = 4 * (ChunkBuffer2_end b + 1)" "cb_input_avail b = 4 * (cb_free b - 1)"
    "0 \<le> ChunkBuffer2_end b"
  using cb_input [OF assms(1)] assms(2) cb_rep_facts(8) [OF assms(1)] by (auto split: if_splits)

lemma cb_rep_write_input:
  assumes "cb_rep b ps" and "cb_input_dest b = Some q" and "int (length d) \<le> cb_input_avail b"
  shows "cb_rep (b\<lparr>cb_buffer := splice (nat q) d (cb_buffer b)\<rparr>) ps"
  using input_dest_free [OF assms(1,2)] assms by (intro cb_rep_store_free) auto

text \<open>The memory after a producer stored its bytes and the header was written.\<close>

lemma submit_memory:
  assumes rep: "cb_rep b ps" and dest: "cb_input_dest b = Some q"
    and len: "0 \<le> len" "len \<le> int (length d)" "int (length d) \<le> cb_input_avail b"
  defines "e \<equiv> ChunkBuffer2_end b" and "p \<equiv> take (nat len) d"
  defines "m \<equiv> set_block_len e len (splice (nat q) d (cb_buffer b))"
  shows "blks p \<le> cb_free b" "int (length p) = len" "len \<le> INT_MAX"
    "length m = length (cb_buffer b)" "cb_packets (b\<lparr>cb_buffer := m\<rparr>) ps"
    "block_len m e = len" "slice (nat (4 * (e + 1))) (length p) m = p"
    "ps \<noteq> [] \<Longrightarrow> block_len m (cb_start b) = block_len (cb_buffer b) (cb_start b)"
proof -
  note I = input_dest_free [OF rep dest, folded e_def] and R = cb_rep_facts [OF rep]
  let ?m1 = "splice (nat q) d (cb_buffer b)"
  let ?b1 = "b\<lparr>cb_buffer := ?m1\<rparr>"
  have rep1: "cb_rep ?b1 ps" by (rule cb_rep_write_input [OF rep dest len(3)])
  have mem1: "nat q + length d \<le> length (cb_buffer b)"
    using packets_store_free(1) [OF rep I(1), of "nat q" d] I len(3) by (simp add: e_def)
  show plen: "int (length p) = len" using len by (simp add: p_def)
  show "blks p \<le> cb_free b" using plen len I by (simp add: blks_def)
  show small: "len \<le> INT_MAX" using len I R(2) free_bounds [OF rep I(1)] by (simp add: e_def)
  have off: "nat (4 * e) + length (mem32 (of_int len)) \<le> length ?m1"
    using I mem1 by simp
  note S = packets_store_free [OF rep1, where off = "nat (4 * e)" and d = "mem32 (of_int len)", simplified]
  show "length m = length (cb_buffer b)" using off mem1 by (simp add: m_def set_block_len_def)
  show "cb_packets (b\<lparr>cb_buffer := m\<rparr>) ps"
    using S(2) I by (simp add: m_def set_block_len_def e_def)
  show "block_len m e = len" unfolding m_def using I off len small by (intro block_len_set) auto
  have "slice (nat q) (length p) ?m1 = p"
    using mem1 len by (subst slice_splice_prefix) (auto simp: p_def)
  then show "slice (nat (4 * (e + 1))) (length p) m = p"
    unfolding m_def set_block_len_def using I off by (subst slice_splice_disjoint) auto
  show "ps \<noteq> [] \<Longrightarrow> block_len m (cb_start b) = block_len (cb_buffer b) (cb_start b)"
    using S(3) packets_store_free(3) [OF rep I(1), of "nat q" d] I len(3)
    by (simp add: m_def set_block_len_def e_def)
qed

text \<open>The first packet, as the consumer sees it.\<close>

lemma packets_head:
  assumes "cb_packets b (p # ps)" and "ChunkBuffer2_assert_buffer b"
  shows "block_len (cb_buffer b) (cb_start b) = int (length p)" "int (length p) \<le> INT_MAX"
    "slice (nat (4 * (cb_start b + 1))) (length p) (cb_buffer b) = p"
    "blks p \<le> cb_used b" "blks p \<le> cb_wrap b - cb_start b"
proof -
  have buf: "0 \<le> cb_start b" "cb_start b < cb_wrap b" "cb_wrap b \<le> cb_size b"
    using assms(2) by (simp_all add: ChunkBuffer2_assert_buffer_def)
  obtain qs e where lay: "layout (cb_lim b) (cb_buffer b) (cb_start b) (p # qs) e"
    "e \<le> cb_wrap b" "e \<le> cb_start b + cb_used b"
  proof (cases "wrapped b")
    case True
    with assms(1) show ?thesis
    proof (rule cb_packets_wrappedE)
      fix psa psb
      assume "p # ps = psa @ psb" "layout (cb_lim b) (cb_buffer b) (cb_start b) psa (cb_wrap b)"
      with that [of "tl psa" "cb_wrap b"] True buf show ?thesis by (cases psa) auto
    qed
  next
    case False
    with assms(1) that [of ps "ChunkBuffer2_end b"] buf show ?thesis
      by (auto simp: cb_packets_plain ChunkBuffer2_end_def)
  qed
  then show "block_len (cb_buffer b) (cb_start b) = int (length p)" "int (length p) \<le> INT_MAX"
    "slice (nat (4 * (cb_start b + 1))) (length p) (cb_buffer b) = p" by simp_all
  show "blks p \<le> cb_used b" "blks p \<le> cb_wrap b - cb_start b"
    using lay layout_le [of "cb_lim b" "cb_buffer b" "cb_start b + blks p" qs e] by auto
qed

lemma io_outI:
  assumes "cb_packets b ps" and "ChunkBuffer2_assert_buffer b" and "0 \<le> cb_lim b" and "ps \<noteq> []"
    and "cb_output_dest b = Some (4 * (cb_start b + 1))"
    and "cb_output_avail b = block_len (cb_buffer b) (cb_start b)"
  shows "io_out b"
proof -
  obtain p qs where ps: "ps = p # qs" using assms(4) by (cases ps) auto
  note H = packets_head [OF assms(1)[unfolded ps] assms(2)]
  then have "1 + bdivide_up_block (block_len (cb_buffer b) (cb_start b)) = blks p"
    by (simp add: blks_eq)
  then show ?thesis using H assms(5,6) blks_pos [of p] by (simp add: io_out_def)
qed

lemma io_out_update:
  assumes "cb_packets b ps" and "ChunkBuffer2_assert_buffer b" and "0 \<le> cb_lim b"
  shows "io_out (ChunkBuffer2_update_output b)"
proof (cases "ps = []")
  case True
  then show ?thesis using cb_packets_facts(3) [OF assms]
    by (simp add: io_out_def ChunkBuffer2_update_output_def)
next
  case False
  then have "0 < cb_used b"
    using cb_packets_facts(3) [OF assms] assms(2) by (auto simp: ChunkBuffer2_assert_buffer_def)
  then have "cb_output_dest (ChunkBuffer2_update_output b) = Some (4 * (cb_start b + 1))"
    "cb_output_avail (ChunkBuffer2_update_output b) = block_len (cb_buffer b) (cb_start b)"
    by (simp_all add: ChunkBuffer2_update_output_def)
  then show ?thesis by (intro io_outI [where ps = ps]) (use assms False in simp_all)
qed

text \<open>Submitting appends the packet that the producer stored.\<close>

lemma cb_rep_submit:
  assumes "cb_rep b ps" and "cb_input_dest b = Some q"
    and "0 \<le> len" and "len \<le> int (length d)" and "int (length d) \<le> cb_input_avail b"
  shows "cb_rep (ChunkBuffer2_SubmitPacket len (cb_write_input d b)) (ps @ [take (nat len) d])"
proof -
  note R = cb_rep_facts [OF assms(1)] and M = submit_memory [OF assms]
  define p where "p = take (nat len) d"
  define e where "e = ChunkBuffer2_end b"
  define m where "m = set_block_len e len (splice (nat q) d (cb_buffer b))"
  note M = M [folded p_def e_def, folded m_def]
  define b0 where "b0 = b\<lparr>cb_buffer := m, cb_used := cb_used b + blks p\<rparr>"
  define b1 where "b1 = (if cb_used b0 \<le> cb_wrap b0 - cb_start b0 \<and> cb_mtu b0 > cb_size b0 - (e + blks p) - 1
      then b0\<lparr>cb_wrap := e + blks p\<rparr> else b0)"
  have bl: "1 + bdivide_up_block len = blks p" using M(2,3) blks_eq [of p] by simp
  have sub: "ChunkBuffer2_SubmitPacket len (cb_write_input d b) =
      (if cb_used b1 = blks p then ChunkBuffer2_update_output (ChunkBuffer2_update_input b1)
       else ChunkBuffer2_update_input b1)"
    unfolding ChunkBuffer2_SubmitPacket_def Let_def cb_write_input_def assms(2) b1_def b0_def m_def e_def
    using bl by (simp add: add.assoc)
  have pk: "cb_packets b1 (ps @ [p])"
    unfolding b1_def b0_def e_def
    by (rule cb_packets_extend [OF assms(1) M(1) _ M(5)]) (use M in \<open>simp_all add: e_def\<close>)
  have ab: "ChunkBuffer2_assert_buffer b1"
    unfolding b1_def b0_def e_def by (rule assert_buffer_extend [OF assms(1) M(1)])
  have same: "cb_size b1 = cb_size b" "cb_mtu b1 = cb_mtu b" "cb_buffer b1 = m" "cb_start b1 = cb_start b"
    "cb_used b1 = cb_used b + blks p" "cb_output_dest b1 = cb_output_dest b" "cb_output_avail b1 = cb_output_avail b"
    by (simp_all add: b1_def b0_def)
  have "io_out b1" if "ps \<noteq> []"
    using that R(4,6,10) M(8) pk ab R(3) same
    by (intro io_outI [where ps = "ps @ [p]"])
      (auto simp: io_out_def ChunkBuffer2_assert_buffer_def split: if_splits)
  moreover have "io_out (ChunkBuffer2_update_output (ChunkBuffer2_update_input b1))"
    using pk ab R(3) same by (intro io_out_update [where ps = "ps @ [p]"]) simp_all
  moreover have "cb_used b1 = blks p \<longleftrightarrow> ps = []" using R(10) same by simp
  ultimately show ?thesis
    using pk ab R(1-3) M(4) same sub by (auto simp: cb_rep_def cb_wf_def assert_io_split p_def)
qed

text \<open>Consuming removes the first packet.\<close>

lemma cb_packets_consume:
  assumes rep: "cb_rep b (p # ps)"
  defines "s \<equiv> cb_start b + blks p"
  defines "b1 \<equiv> b\<lparr>cb_start := s, cb_used := cb_used b - blks p\<rparr>"
  defines "b2 \<equiv> if s = cb_wrap b then b1\<lparr>cb_start := 0, cb_wrap := cb_size b\<rparr> else b1"
  shows "cb_packets b2 ps" "ChunkBuffer2_assert_buffer b2" "ChunkBuffer2_end b2 = ChunkBuffer2_end b"
    "\<not> wrapped b \<Longrightarrow> \<not> wrapped b2"
proof -
  note R = cb_rep_facts [OF rep] and H = packets_head [OF cb_rep_facts(7,4) [OF rep]]
  have buf: "0 \<le> cb_start b" "cb_start b < cb_wrap b" "cb_wrap b \<le> cb_size b" "0 \<le> cb_used b"
    "cb_used b \<le> cb_wrap b" "0 \<le> cb_mtu b"
    using R(4) by (simp_all add: ChunkBuffer2_assert_buffer_def)
  have pos: "1 \<le> blks p" by (rule blks_pos)
  have "cb_packets b2 ps \<and> ChunkBuffer2_assert_buffer b2 \<and>
      ChunkBuffer2_end b2 = ChunkBuffer2_end b \<and> (\<not> wrapped b \<longrightarrow> \<not> wrapped b2)"
  proof (cases "wrapped b")
    case True
    obtain psa psb where ps: "p # ps = psa @ psb"
        "layout (cb_lim b) (cb_buffer b) (cb_start b) psa (cb_wrap b)"
        "layout (cb_lim b) (cb_buffer b) 0 psb (ChunkBuffer2_end b)"
        "ChunkBuffer2_end b \<le> cb_start b" "cb_size b - cb_wrap b \<le> cb_mtu b"
      using R(7) True by (rule cb_packets_wrappedE)
    then obtain qs where qs: "psa = p # qs" "ps = qs @ psb" using buf(2) by (cases psa) auto
    have lay: "layout (cb_lim b) (cb_buffer b) s qs (cb_wrap b)" using ps(2) qs by (simp add: s_def)
    have lim: "cb_start b \<le> cb_lim b" using ps(2) qs by simp
    show ?thesis
    proof (cases "s = cb_wrap b")
      case w: True
      then have qs0: "qs = []" using lay layout_less by (cases qs) fastforce+
      have used: "cb_used b - blks p = ChunkBuffer2_end b"
        using True w by (simp add: ChunkBuffer2_end_def s_def)
      define E where "E = ChunkBuffer2_end b"
      have "ChunkBuffer2_end b2 = E" "\<not> wrapped b2"
        using w used [folded E_def] ps(4) [folded E_def] lim buf R(8,9) [folded E_def]
        by (auto simp: ChunkBuffer2_end_def b2_def b1_def)
      then have e: "ChunkBuffer2_end b2 = ChunkBuffer2_end b" "\<not> wrapped b2" by (simp_all add: E_def)
      then have "cb_packets b2 ps"
        using w ps(3) qs qs0 R(9) by (subst cb_packets_plain) (auto simp: b2_def b1_def)
      then show ?thesis using w e used R(4,8,9) buf by (auto simp: ChunkBuffer2_assert_buffer_def b2_def b1_def)
    next
      case nw: False
      have sw: "s < cb_wrap b" using layout_le [OF lay] nw by simp
      have e: "ChunkBuffer2_end b2 = ChunkBuffer2_end b" "wrapped b2"
        using True nw pos by (auto simp: ChunkBuffer2_end_def b2_def b1_def s_def)
      have "cb_packets b2 ps"
        using e ps lay qs nw pos
        by (intro cb_packets_wrappedI [where psa = qs and psb = psb]) (auto simp: b2_def b1_def s_def)
      then show ?thesis using nw e sw True R(4) pos H(4)
        by (auto simp: ChunkBuffer2_assert_buffer_def b2_def b1_def s_def)
    qed
  next
    case False
    then have w: "cb_wrap b = cb_size b" "ChunkBuffer2_end b = cb_start b + cb_used b"
      and lay: "layout (cb_lim b) (cb_buffer b) s ps (ChunkBuffer2_end b)"
      using R(7) by (auto simp: cb_packets_plain ChunkBuffer2_end_def s_def)
    have s: "s \<noteq> cb_wrap b" "s < cb_wrap b" using layout_le [OF lay] R(9) w(1) buf(6) by auto
    then have e: "ChunkBuffer2_end b2 = ChunkBuffer2_end b" "\<not> wrapped b2"
      using False by (auto simp: ChunkBuffer2_end_def b2_def b1_def s_def)
    then have "cb_packets b2 ps"
      using lay w(1) R(9) s by (subst cb_packets_plain) (auto simp: b2_def b1_def)
    then show ?thesis using e s R(4) pos H(4)
      by (auto simp: ChunkBuffer2_assert_buffer_def b2_def b1_def s_def)
  qed
  then show "cb_packets b2 ps" "ChunkBuffer2_assert_buffer b2"
    "ChunkBuffer2_end b2 = ChunkBuffer2_end b" "\<not> wrapped b \<Longrightarrow> \<not> wrapped b2" by auto
qed

lemma cb_rep_consume:
  assumes rep: "cb_rep b (p # ps)"
  shows "cb_rep (ChunkBuffer2_ConsumePacket b) ps"
    and "cb_read_output b = Some p"
    and "ChunkBuffer2_end (ChunkBuffer2_ConsumePacket b) = ChunkBuffer2_end b"
    and "cb_free b \<le> cb_free (ChunkBuffer2_ConsumePacket b)"
proof -
  note R = cb_rep_facts [OF rep] and H = packets_head [OF cb_rep_facts(7,4) [OF rep]]
  define s where "s = cb_start b + blks p"
  define b1 where "b1 = b\<lparr>cb_start := s, cb_used := cb_used b - blks p\<rparr>"
  define b2 where "b2 = (if s = cb_wrap b then b1\<lparr>cb_start := 0, cb_wrap := cb_size b\<rparr> else b1)"
  note C = cb_packets_consume [OF rep, folded s_def, folded b1_def, folded b2_def]
  have bl: "1 + bdivide_up_block (block_len (cb_buffer b) (cb_start b)) = blks p"
    using H(1,2) by (simp add: blks_eq)
  have con: "ChunkBuffer2_ConsumePacket b =
      ChunkBuffer2_update_output (if wrapped b then ChunkBuffer2_update_input b2 else b2)"
    unfolding ChunkBuffer2_ConsumePacket_def Let_def bl b2_def b1_def s_def by simp
  have same: "cb_buffer b2 = cb_buffer b" "cb_size b2 = cb_size b" "cb_mtu b2 = cb_mtu b"
    "cb_input_dest b2 = cb_input_dest b" "cb_input_avail b2 = cb_input_avail b"
    by (simp_all add: b2_def b1_def)
  have free: "\<not> wrapped b \<Longrightarrow> cb_free b2 = cb_free b"
    using C(3,4) same by (simp add: cb_free_def)
  then have "\<not> wrapped b \<Longrightarrow> io_in b2"
    using R(5) C(3) same by (simp add: io_in_def)
  then have io: "io_in (if wrapped b then ChunkBuffer2_update_input b2 else b2)" by simp
  have "io_out (ChunkBuffer2_update_output (if wrapped b then ChunkBuffer2_update_input b2 else b2))"
    using C(1,2) R(3) same by (intro io_out_update [where ps = ps]) simp_all
  then show "cb_rep (ChunkBuffer2_ConsumePacket b) ps"
    using C(1,2) R(1-3) same io con by (simp add: cb_rep_def cb_wf_def assert_io_split)
  show "ChunkBuffer2_end (ChunkBuffer2_ConsumePacket b) = ChunkBuffer2_end b" using con C(3) by simp
  have "cb_free b \<le> cb_free b2"
  proof (cases "wrapped b")
    case True
    then show ?thesis
      using C(3) R(4) blks_pos [of p] same
      by (auto simp: cb_free_def ChunkBuffer2_assert_buffer_def b2_def b1_def s_def)
  qed (use free in simp)
  then show "cb_free b \<le> cb_free (ChunkBuffer2_ConsumePacket b)" 
    using con by (cases "wrapped b") simp_all
  show "cb_read_output b = Some p"
    using R(4,6,10) H(1,3) by (auto simp: io_out_def cb_read_output_def ChunkBuffer2_assert_buffer_def split: if_splits)
qed

lemma cb_read_output_empty: "cb_rep b [] \<Longrightarrow> cb_read_output b = None"
  using cb_rep_facts(6,10) by (fastforce simp: io_out_def cb_read_output_def)

lemma cb_rep_init:
  assumes "int (length buffer) = 4 * blocks" and "4 * blocks \<le> INT_MAX"
    and "0 \<le> mtu" and "mtu \<le> INT_MAX" and "(mtu + 3) div 4 < blocks"
  shows "cb_rep (ChunkBuffer2_Init buffer blocks mtu b) []"
proof -
  define b0 where "b0 = b\<lparr>cb_buffer := buffer, cb_size := blocks, cb_wrap := blocks, cb_start := 0,
    cb_used := 0, cb_mtu := bdivide_up_block mtu\<rparr>"
  have mtu: "bdivide_up_block mtu = (mtu + 3) div 4" using assms by (simp add: bdivide_up_block_eq)
  then have m0: "0 \<le> bdivide_up_block mtu" "0 < blocks" using assms by simp_all
  have "cb_packets b0 []" "ChunkBuffer2_assert_buffer b0" "0 \<le> cb_lim b0"
    using assms mtu m0
    by (simp_all add: cb_packets_def b0_def ChunkBuffer2_assert_buffer_def ChunkBuffer2_end_def)
  moreover have "ChunkBuffer2_Init buffer blocks mtu b =
      ChunkBuffer2_update_output (ChunkBuffer2_update_input b0)"
    by (simp add: ChunkBuffer2_Init_def b0_def)
  moreover have "io_out (ChunkBuffer2_update_output (ChunkBuffer2_update_input b0))"
    using calculation by (intro io_out_update [where ps = "[]"]) simp_all
  ultimately show ?thesis using assms
    by (simp add: cb_rep_def cb_wf_def assert_io_split) (simp add: b0_def)
qed

lemma calc_blocks:
  assumes "0 \<le> chunk_len" and "chunk_len \<le> INT_MAX" and "0 < num" and "num \<le> INT_MAX"
    and "ChunkBuffer2_calc_blocks chunk_len num \<noteq> - 1"
  shows "ChunkBuffer2_calc_blocks chunk_len num = (1 + (chunk_len + 3) div 4) * (num + 1)"
    "ChunkBuffer2_calc_blocks chunk_len num \<le> INT_MAX"
proof -
  let ?c = "1 + (chunk_len + 3) div 4"
  have conds: "num \<le> INT_MAX - 1" "?c \<le> INT_MAX div (num + 1)"
    and eq: "ChunkBuffer2_calc_blocks chunk_len num = ?c * (num + 1)"
    using assms by (auto simp: ChunkBuffer2_calc_blocks_def Let_def bdivide_up_block_eq split: if_splits)
  have "?c * (num + 1) \<le> INT_MAX div (num + 1) * (num + 1)"
    using conds(2) assms(3) by (intro mult_right_mono) auto
  also have "\<dots> \<le> INT_MAX" 
    using div_mult_mod_eq [of INT_MAX "num + 1"] pos_mod_sign [of "num + 1" INT_MAX] assms(3) by linarith
  finally show "ChunkBuffer2_calc_blocks chunk_len num \<le> INT_MAX" by (simp add: eq)
  show "ChunkBuffer2_calc_blocks chunk_len num = ?c * (num + 1)" by (rule eq)
qed

lemma layout_blocks_le:
  "layout lim m s ps e \<Longrightarrow> \<forall>p\<in>set ps. int (length p) \<le> n \<Longrightarrow> 0 \<le> n \<Longrightarrow>
   e - s \<le> int (length ps) * (1 + (n + 3) div 4)"
proof (induction ps arbitrary: s)
  case (Cons p ps)
  then have "e - (s + blks p) \<le> int (length ps) * (1 + (n + 3) div 4)" by simp
  moreover have "blks p \<le> 1 + (n + 3) div 4"
    using Cons.prems(2) by (simp add: blks_def zdiv_mono1)
  ultimately show ?case by (simp add: algebra_simps)
qed simp

lemma cb_used_le:
  assumes "cb_rep b ps" and "\<forall>p\<in>set ps. int (length p) \<le> n" and "0 \<le> n"
  shows "cb_used b \<le> int (length ps) * (1 + (n + 3) div 4)"
proof (cases "wrapped b")
  case True
  obtain psa psb where ps: "ps = psa @ psb"
      "layout (cb_lim b) (cb_buffer b) (cb_start b) psa (cb_wrap b)"
      "layout (cb_lim b) (cb_buffer b) 0 psb (ChunkBuffer2_end b)"
    using cb_rep_facts(7) [OF assms(1)] True by (rule cb_packets_wrappedE)
  have "cb_used b = (cb_wrap b - cb_start b) + ChunkBuffer2_end b"
    using True by (simp add: ChunkBuffer2_end_def)
  then show ?thesis
    using layout_blocks_le [OF ps(2)] layout_blocks_le [OF ps(3)] assms(2,3) ps(1)
    by (simp add: algebra_simps) fastforce
next
  case False
  then have "layout (cb_lim b) (cb_buffer b) (cb_start b) ps (cb_start b + cb_used b)"
    using cb_rep_facts(7) [OF assms(1)] by (simp add: cb_packets_plain ChunkBuffer2_end_def)
  then show ?thesis using layout_blocks_le assms(2,3) by fastforce
qed

text \<open>A buffer of \<open>num + 1\<close> chunks has room for a packet while it holds fewer than \<open>num\<close>.\<close>

lemma cb_room:
  assumes rep: "cb_rep b ps" and "\<forall>p\<in>set ps. int (length p) \<le> mtu" and "0 \<le> mtu" and "mtu \<le> INT_MAX"
    and "cb_mtu b = bdivide_up_block mtu"
    and "(1 + (mtu + 3) div 4) * (num + 1) \<le> cb_size b" and "int (length ps) < num"
  shows "mtu \<le> cb_input_avail b"
proof -
  let ?c = "1 + (mtu + 3) div 4"
  note R = cb_rep_facts [OF rep]
  have m: "cb_mtu b = ?c - 1" using assms(3-5) by (simp add: bdivide_up_block_eq)
  have "?c \<le> cb_free b"
  proof (cases "wrapped b")
    case True
    then have "cb_size b - cb_wrap b \<le> cb_mtu b" using R(7) by (auto simp: cb_packets_def)
    moreover have "cb_free b = cb_wrap b - cb_used b"
      using True by (simp add: cb_free_def ChunkBuffer2_end_def)
    moreover have "int (length ps) * ?c \<le> (num - 1) * ?c"
      using assms(3,7) by (intro mult_right_mono) auto
    ultimately show ?thesis
      using cb_used_le [OF assms(1-3)] assms(6) m by (simp add: algebra_simps)
  next
    case False
    then show ?thesis using R(9) m by (simp add: cb_free_def)
  qed
  then show ?thesis using cb_input(2) [OF rep] assms(3) by (auto split: if_splits)
qed


section \<open>The packet queue interface\<close>

datatype fifo_op = Put "byte list" int | Get

text \<open>
  A sequence of uses of a packet queue: store bytes and submit the first \<open>len\<close> of them, or take the
  first packet.  It fails if the producer exceeds what it is offered or the consumer finds nothing.
\<close>

fun fifo_run ::
  "('b \<Rightarrow> int) \<Rightarrow> (byte list \<Rightarrow> int \<Rightarrow> 'b \<Rightarrow> 'b) \<Rightarrow> ('b \<Rightarrow> byte list option) \<Rightarrow> ('b \<Rightarrow> 'b) \<Rightarrow>
   fifo_op list \<Rightarrow> 'b \<Rightarrow> (byte list list \<times> 'b) option" where
  "fifo_run room put peek rem [] b = Some ([], b)"
| "fifo_run room put peek rem (Put d len # ops) b =
     (if 0 \<le> len \<and> len \<le> int (length d) \<and> int (length d) \<le> room b
      then fifo_run room put peek rem ops (put d len b) else None)"
| "fifo_run room put peek rem (Get # ops) b =
     (case peek b of
        None \<Rightarrow> None
      | Some p \<Rightarrow> map_option (\<lambda>(ps, b). (p # ps, b)) (fifo_run room put peek rem ops (rem b)))"

fun submitted :: "fifo_op list \<Rightarrow> byte list list" where
  "submitted [] = []"
| "submitted (Put d len # ops) = take (nat len) d # submitted ops"
| "submitted (Get # ops) = submitted ops"

locale packet_fifo =
  fixes rep :: "'b \<Rightarrow> byte list list \<Rightarrow> bool"
    and room :: "'b \<Rightarrow> int"
    and put :: "byte list \<Rightarrow> int \<Rightarrow> 'b \<Rightarrow> 'b"
    and peek :: "'b \<Rightarrow> byte list option"
    and rem :: "'b \<Rightarrow> 'b"
  assumes rep_put: "rep b ps \<Longrightarrow> 0 \<le> len \<Longrightarrow> len \<le> int (length d) \<Longrightarrow> int (length d) \<le> room b \<Longrightarrow>
      rep (put d len b) (ps @ [take (nat len) d])"
    and peek_empty: "rep b [] \<Longrightarrow> peek b = None"
    and peek_first: "rep b (p # ps) \<Longrightarrow> peek b = Some p"
    and rep_rem: "rep b (p # ps) \<Longrightarrow> rep (rem b) ps"
begin

lemma run_fifo:
  "rep b ps \<Longrightarrow> fifo_run room put peek rem ops b = Some (outs, b') \<Longrightarrow>
   \<exists>rest. rep b' rest \<and> ps @ submitted ops = outs @ rest"
proof (induction ops arbitrary: b ps outs)
  case (Cons op ops)
  show ?case
  proof (cases op)
    case (Put d len)
    then have "rep (put d len b) (ps @ [take (nat len) d])"
      using Cons.prems by (intro rep_put) (auto split: if_splits)
    then show ?thesis using Cons Put by (fastforce split: if_splits)
  next
    case Get
    then obtain p outs' where run: "peek b = Some p" "outs = p # outs'"
        "fifo_run room put peek rem ops (rem b) = Some (outs', b')"
      using Cons.prems(2) by (auto split: option.splits)
    then obtain qs where ps: "ps = p # qs" using Cons.prems(1) peek_empty peek_first
      by (cases ps) fastforce+
    then show ?thesis
      using Cons.IH [OF rep_rem run(3)] Cons.prems(1) run(2) Get by auto
  qed
qed auto

end

abbreviation cb_put :: "byte list \<Rightarrow> int \<Rightarrow> ChunkBuffer2 \<Rightarrow> ChunkBuffer2" where
  "cb_put d len b \<equiv> ChunkBuffer2_SubmitPacket len (cb_write_input d b)"

abbreviation cb_run :: "fifo_op list \<Rightarrow> ChunkBuffer2 \<Rightarrow> (byte list list \<times> ChunkBuffer2) option" where
  "cb_run \<equiv> fifo_run cb_input_avail cb_put cb_read_output ChunkBuffer2_ConsumePacket"

lemma cb_write_input_const [simp]:
  "cb_size (cb_write_input d b) = cb_size b" "cb_mtu (cb_write_input d b) = cb_mtu b"
  by (simp_all add: cb_write_input_def split: option.splits)

lemma cb_submit_const [simp]:
  "cb_size (ChunkBuffer2_SubmitPacket len b) = cb_size b"
  "cb_mtu (ChunkBuffer2_SubmitPacket len b) = cb_mtu b"
  by (simp_all add: ChunkBuffer2_SubmitPacket_def Let_def)

lemma cb_consume_const [simp]:
  "cb_size (ChunkBuffer2_ConsumePacket b) = cb_size b"
  "cb_mtu (ChunkBuffer2_ConsumePacket b) = cb_mtu b"
  by (simp_all add: ChunkBuffer2_ConsumePacket_def Let_def)

lemma cb_room_dest: "cb_rep b ps \<Longrightarrow> 0 \<le> cb_input_avail b \<Longrightarrow> \<exists>q. cb_input_dest b = Some q"
  using cb_input [of b ps] by (auto split: if_splits)

interpretation cb: packet_fifo "\<lambda>b ps. cb_rep b ps \<and> cb_size b = S \<and> cb_mtu b = M"
    cb_input_avail cb_put cb_read_output ChunkBuffer2_ConsumePacket
  for S M
proof
  fix b ps len and d :: "byte list"
  assume "cb_rep b ps \<and> cb_size b = S \<and> cb_mtu b = M" "0 \<le> len" "len \<le> int (length d)"
    "int (length d) \<le> cb_input_avail b"
  moreover from this obtain q where "cb_input_dest b = Some q" using cb_room_dest by fastforce
  ultimately show "cb_rep (cb_put d len b) (ps @ [take (nat len) d]) \<and>
      cb_size (cb_put d len b) = S \<and> cb_mtu (cb_put d len b) = M"
    using cb_rep_submit by simp
qed (use cb_rep_consume cb_read_output_empty in auto)

text \<open>The buffer that \<open>ChunkBuffer2_calc_blocks\<close> sizes for \<open>num\<close> packets.\<close>

definition sized_for :: "int \<Rightarrow> int \<Rightarrow> byte list \<Rightarrow> bool" where
  "sized_for mtu num buffer \<longleftrightarrow>
     0 \<le> mtu \<and> mtu \<le> INT_MAX \<and> 0 < num \<and> num \<le> INT_MAX \<and>
     ChunkBuffer2_calc_blocks mtu num \<noteq> - 1 \<and> 4 * ChunkBuffer2_calc_blocks mtu num \<le> INT_MAX \<and>
     int (length buffer) = 4 * ChunkBuffer2_calc_blocks mtu num"

lemma sized_for_init:
  assumes "sized_for mtu num buffer"
  shows "cb_rep (ChunkBuffer2_Init buffer (ChunkBuffer2_calc_blocks mtu num) mtu b) []"
    "cb_size (ChunkBuffer2_Init buffer (ChunkBuffer2_calc_blocks mtu num) mtu b) =
       (1 + (mtu + 3) div 4) * (num + 1)"
    "cb_mtu (ChunkBuffer2_Init buffer (ChunkBuffer2_calc_blocks mtu num) mtu b) = bdivide_up_block mtu"
proof -
  have eq: "ChunkBuffer2_calc_blocks mtu num = (1 + (mtu + 3) div 4) * (num + 1)"
    using assms by (intro calc_blocks) (auto simp: sized_for_def)
  have "(mtu + 3) div 4 < (1 + (mtu + 3) div 4) * (num + 1)"
  proof -
    have "0 \<le> (mtu + 3) div 4" "1 \<le> num + 1" using assms by (auto simp: sized_for_def)
    then have "(1 + (mtu + 3) div 4) * 1 \<le> (1 + (mtu + 3) div 4) * (num + 1)"
      by (intro mult_left_mono) auto
    then show ?thesis by (rule order_less_le_trans [rotated]) simp
  qed
  then show "cb_rep (ChunkBuffer2_Init buffer (ChunkBuffer2_calc_blocks mtu num) mtu b) []"
    using assms eq by (intro cb_rep_init) (auto simp: sized_for_def)
qed (use assms calc_blocks in \<open>auto simp: sized_for_def ChunkBuffer2_Init_def\<close>)

text \<open>C7. The circular buffer is a first-in first-out queue of packets.  Start from an initialised
  buffer and let producer and consumer use it in any order, the producer storing at most what it is
  offered; then the packets taken out followed by those still in the buffer are the packets
  submitted, byte for byte and in order, and the buffer satisfies the code's own assertions.\<close>

theorem chunk_buffer_fifo:
  assumes "sized_for mtu num buffer"
    and "cb_run ops (ChunkBuffer2_Init buffer (ChunkBuffer2_calc_blocks mtu num) mtu b0) = Some (outs, b)"
  shows "\<exists>rest. cb_rep b rest \<and> submitted ops = outs @ rest \<and>
    ChunkBuffer2_assert_buffer b \<and> ChunkBuffer2_assert_io b"
  using cb.run_fifo [OF _ assms(2)] sized_for_init [OF assms(1), of b0]
  by (fastforce simp: cb_rep_def cb_wf_def)

text \<open>C21. The buffer has the capacity its size was computed for: while fewer than \<open>num\<close> packets
  are stored, none longer than the MTU, the producer is offered at least MTU bytes, wherever in
  the memory the data currently lies.\<close>

theorem chunk_buffer_capacity:
  assumes "sized_for mtu num buffer"
    and "cb_run ops (ChunkBuffer2_Init buffer (ChunkBuffer2_calc_blocks mtu num) mtu b0) = Some (outs, b)"
    and "\<forall>p\<in>set (submitted ops). int (length p) \<le> mtu"
    and "int (length (submitted ops)) - int (length outs) < num"
  shows "mtu \<le> cb_input_avail b"
proof -
  obtain rest where "cb_rep b rest" "cb_size b = (1 + (mtu + 3) div 4) * (num + 1)"
      "cb_mtu b = bdivide_up_block mtu" "submitted ops = outs @ rest"
    using cb.run_fifo [OF _ assms(2)] sized_for_init [OF assms(1), of b0] by fastforce
  then show ?thesis
    using assms(1,3,4) by (intro cb_room [where ps = rest and num = num]) (auto simp: sized_for_def)
qed

text \<open>C22. Taking a packet out never withdraws or moves memory already offered to the producer: a
  receive operation in progress may go on storing at the same address.\<close>

theorem chunk_buffer_input_stable:
  assumes "cb_rep b (p # ps)" and "cb_input_dest b = Some q"
  shows "cb_input_dest (ChunkBuffer2_ConsumePacket b) = Some q \<and>
    cb_input_avail b \<le> cb_input_avail (ChunkBuffer2_ConsumePacket b)"
  using cb_input [OF assms(1)] cb_input [OF cb_rep_consume(1) [OF assms(1)]]
    cb_rep_consume(3,4) [OF assms(1)] assms(2)
  by (auto split: if_splits)

text \<open>A buffer for one packet of up to five bytes: six blocks.\<close>

definition example_cb :: ChunkBuffer2 where
  "example_cb = ChunkBuffer2_Init (replicate 24 0) (ChunkBuffer2_calc_blocks 5 1) 5
     \<lparr>cb_buffer = [], cb_size = 0, cb_wrap = 0, cb_start = 0, cb_used = 0, cb_mtu = 0,
      cb_input_dest = None, cb_input_avail = 0, cb_output_dest = None, cb_output_avail = 0\<rparr>"

lemma example_sized: "sized_for 5 1 (replicate 24 0)"
  by (simp add: sized_for_def ChunkBuffer2_calc_blocks_def bdivide_up_block_eq)

lemma example_run:
  "\<exists>b. cb_run [Put [7, 8, 9] 2, Get] example_cb = Some ([[7, 8]], b)"
  "cb_rep (cb_put [7, 8, 9] 2 example_cb) [[7, 8]]"
proof -
  have avail: "cb_input_avail example_cb = 20" "cb_input_dest example_cb = Some 4"
    by (simp_all add: example_cb_def ChunkBuffer2_calc_blocks_def bdivide_up_block_eq
        ChunkBuffer2_Init_def ChunkBuffer2_update_input_def ChunkBuffer2_update_output_def
        ChunkBuffer2_end_def to_int32_def sizeof_block_def)
  have "cb_rep example_cb []" unfolding example_cb_def by (rule sized_for_init(1) [OF example_sized])
  then show rep: "cb_rep (cb_put [7, 8, 9] 2 example_cb) [[7, 8]]"
    using cb_rep_submit [of example_cb "[]" 4 2 "[7, 8, 9]"] avail by simp
  show "\<exists>b. cb_run [Put [7, 8, 9] 2, Get] example_cb = Some ([[7, 8]], b)"
    using avail cb_rep_consume(2) [OF rep] by simp
qed

theorem chunk_buffer_fifo_witness:
  "\<exists>b. cb_run [Put [7, 8, 9] 2, Get] example_cb = Some ([[7, 8]], b) \<and> ChunkBuffer2_assert_io b"
proof -
  obtain b where run: "cb_run [Put [7, 8, 9] 2, Get] example_cb = Some ([[7, 8]], b)"
    using example_run(1) by blast
  show ?thesis
    using run chunk_buffer_fifo [OF example_sized run [unfolded example_cb_def]] by blast
qed

theorem chunk_buffer_capacity_witness:
  "\<exists>b. cb_run [Put [7, 8, 9] 2, Get] example_cb = Some ([[7, 8]], b) \<and> 5 \<le> cb_input_avail b"
proof -
  obtain b where run: "cb_run [Put [7, 8, 9] 2, Get] example_cb = Some ([[7, 8]], b)"
    using example_run(1) by blast
  show ?thesis
    using run chunk_buffer_capacity [OF example_sized run [unfolded example_cb_def]] by simp
qed

theorem chunk_buffer_input_stable_witness:
  "\<exists>q. cb_input_dest (cb_put [7, 8, 9] 2 example_cb) = Some q \<and>
     cb_input_dest (ChunkBuffer2_ConsumePacket (cb_put [7, 8, 9] 2 example_cb)) = Some q"
proof -
  have "cb_input_dest (cb_put [7, 8, 9] 2 example_cb) \<noteq> None"
    by (simp add: example_cb_def ChunkBuffer2_calc_blocks_def bdivide_up_block_eq
        ChunkBuffer2_SubmitPacket_def cb_write_input_def ChunkBuffer2_Init_def
        ChunkBuffer2_update_input_def ChunkBuffer2_update_output_def
        ChunkBuffer2_end_def to_int32_def sizeof_block_def)
  then obtain q where "cb_input_dest (cb_put [7, 8, 9] 2 example_cb) = Some q" by blast
  with chunk_buffer_input_stable [OF example_run(2) this] show ?thesis by blast
qed

end
