(* ===== verification/Lists.thy ===== *)
theory Lists
  imports Prelude
begin

text \<open>
  The intrusive doubly linked lists: \<open>structure/SLinkedList_impl.h\<close> with
  \<open>SLINKEDLIST_PARAM_FEATURE_LAST\<close> off, as \<open>base/BPending_list.h\<close> instantiates it, and
  \<open>structure/LinkedList1.h\<close>.  Nodes are named by a type of entries, a node pointer that may
  be \<open>NULL\<close> is an option, and the \<open>prev\<close>/\<open>next\<close> fields of all nodes form two stores.  Every
  operation is shown to implement the operation on lists its comment promises.
\<close>

section \<open>SLinkedList\<close>

type_synonym 'e ptr = "'e option"

record 'e SLinkedList =
  sl_first :: "'e ptr"
  sl_prev :: "'e \<Rightarrow> 'e ptr"
  sl_next :: "'e \<Rightarrow> 'e ptr"

definition SLinkedListMarkRemoved :: "'e \<Rightarrow> 'e SLinkedList \<Rightarrow> 'e SLinkedList" where
  "SLinkedListMarkRemoved entry l = l\<lparr>sl_next := (sl_next l)(entry := Some entry)\<rparr>"

definition SLinkedListIsRemoved :: "'e \<Rightarrow> 'e SLinkedList \<Rightarrow> bool" where
  "SLinkedListIsRemoved entry l \<longleftrightarrow> Some entry = sl_next l entry"

definition SLinkedList_Init :: "'e SLinkedList \<Rightarrow> 'e SLinkedList" where
  "SLinkedList_Init l = l\<lparr>sl_first := None\<rparr>"

definition SLinkedList_Next :: "'e SLinkedList \<Rightarrow> 'e \<Rightarrow> 'e ptr" where
  "SLinkedList_Next l entry = sl_next l entry"

definition SLinkedList_Prev :: "'e SLinkedList \<Rightarrow> 'e \<Rightarrow> 'e ptr" where
  "SLinkedList_Prev l entry = (if Some entry = sl_first l then None else sl_prev l entry)"

definition SLinkedList_Prepend :: "'e \<Rightarrow> 'e SLinkedList \<Rightarrow> 'e SLinkedList" where
  "SLinkedList_Prepend entry l =
     (let l = l\<lparr>sl_next := (sl_next l)(entry := sl_first l)\<rparr>;
          l = (case sl_first l of
                 Some f \<Rightarrow> l\<lparr>sl_prev := (sl_prev l)(f := Some entry)\<rparr>
               | None \<Rightarrow> l)
      in l\<lparr>sl_first := Some entry\<rparr>)"

text \<open>Stores through a pointer that the caller guarantees not to be \<open>NULL\<close>.\<close>

definition store :: "'e ptr \<Rightarrow> 'v \<Rightarrow> ('e \<Rightarrow> 'v) \<Rightarrow> 'e \<Rightarrow> 'v" where
  "store p v m = (case p of Some e \<Rightarrow> m(e := v) | None \<Rightarrow> m)"

definition SLinkedList_InsertBefore :: "'e \<Rightarrow> 'e \<Rightarrow> 'e SLinkedList \<Rightarrow> 'e SLinkedList" where
  "SLinkedList_InsertBefore entry before_entry l =
     (let l = l\<lparr>sl_next := (sl_next l)(entry := Some before_entry)\<rparr>;
          l = (if Some before_entry \<noteq> sl_first l then
                 let l = l\<lparr>sl_prev := (sl_prev l)(entry := sl_prev l before_entry)\<rparr>
                 in l\<lparr>sl_next := store (sl_prev l before_entry) (Some entry) (sl_next l)\<rparr>
               else l\<lparr>sl_first := Some entry\<rparr>)
      in l\<lparr>sl_prev := (sl_prev l)(before_entry := Some entry)\<rparr>)"

definition SLinkedList_InsertAfter :: "'e \<Rightarrow> 'e \<Rightarrow> 'e SLinkedList \<Rightarrow> 'e SLinkedList" where
  "SLinkedList_InsertAfter entry after_entry l =
     (let l = l\<lparr>sl_next := (sl_next l)(entry := sl_next l after_entry)\<rparr>;
          l = l\<lparr>sl_prev := (sl_prev l)(entry := Some after_entry)\<rparr>;
          l = (case sl_next l after_entry of
                 Some n \<Rightarrow> l\<lparr>sl_prev := (sl_prev l)(n := Some entry)\<rparr>
               | None \<Rightarrow> l)
      in l\<lparr>sl_next := (sl_next l)(after_entry := Some entry)\<rparr>)"

definition SLinkedList_Remove :: "'e \<Rightarrow> 'e SLinkedList \<Rightarrow> 'e SLinkedList" where
  "SLinkedList_Remove entry l =
     (if Some entry \<noteq> sl_first l then
        let l = l\<lparr>sl_next := store (sl_prev l entry) (sl_next l entry) (sl_next l)\<rparr>
        in (case sl_next l entry of
              Some n \<Rightarrow> l\<lparr>sl_prev := (sl_prev l)(n := sl_prev l entry)\<rparr>
            | None \<Rightarrow> l)
      else l\<lparr>sl_first := sl_next l entry\<rparr>)"

definition SLinkedList_RemoveFirst :: "'e SLinkedList \<Rightarrow> 'e SLinkedList" where
  "SLinkedList_RemoveFirst l =
     (case sl_first l of Some f \<Rightarrow> l\<lparr>sl_first := sl_next l f\<rparr> | None \<Rightarrow> l)"

definition SLinkedList_First :: "'e SLinkedList \<Rightarrow> 'e ptr" where
  "SLinkedList_First l = sl_first l"

definition SLinkedList_IsEmpty :: "'e SLinkedList \<Rightarrow> bool" where
  "SLinkedList_IsEmpty l \<longleftrightarrow> sl_first l = None"


section \<open>LinkedList1\<close>

record 'e LinkedList1 =
  ll_first :: "'e ptr"
  ll_last :: "'e ptr"
  ll_p :: "'e \<Rightarrow> 'e ptr"
  ll_n :: "'e \<Rightarrow> 'e ptr"

definition LinkedList1_Init :: "'e LinkedList1 \<Rightarrow> 'e LinkedList1" where
  "LinkedList1_Init l = l\<lparr>ll_first := None, ll_last := None\<rparr>"

definition LinkedList1_IsEmpty :: "'e LinkedList1 \<Rightarrow> bool" where
  "LinkedList1_IsEmpty l \<longleftrightarrow> ll_first l = None"

definition LinkedList1_GetFirst :: "'e LinkedList1 \<Rightarrow> 'e ptr" where
  "LinkedList1_GetFirst l = ll_first l"

definition LinkedList1_GetLast :: "'e LinkedList1 \<Rightarrow> 'e ptr" where
  "LinkedList1_GetLast l = ll_last l"

definition LinkedList1_Prepend :: "'e \<Rightarrow> 'e LinkedList1 \<Rightarrow> 'e LinkedList1" where
  "LinkedList1_Prepend node l =
     (let l = l\<lparr>ll_p := (ll_p l)(node := None), ll_n := (ll_n l)(node := ll_first l)\<rparr>;
          l = (case ll_first l of
                 Some f \<Rightarrow> l\<lparr>ll_p := (ll_p l)(f := Some node)\<rparr>
               | None \<Rightarrow> l\<lparr>ll_last := Some node\<rparr>)
      in l\<lparr>ll_first := Some node\<rparr>)"

definition LinkedList1_Append :: "'e \<Rightarrow> 'e LinkedList1 \<Rightarrow> 'e LinkedList1" where
  "LinkedList1_Append node l =
     (let l = l\<lparr>ll_p := (ll_p l)(node := ll_last l), ll_n := (ll_n l)(node := None)\<rparr>;
          l = (case ll_last l of
                 Some e \<Rightarrow> l\<lparr>ll_n := (ll_n l)(e := Some node)\<rparr>
               | None \<Rightarrow> l\<lparr>ll_first := Some node\<rparr>)
      in l\<lparr>ll_last := Some node\<rparr>)"

definition LinkedList1_InsertBefore :: "'e \<Rightarrow> 'e \<Rightarrow> 'e LinkedList1 \<Rightarrow> 'e LinkedList1" where
  "LinkedList1_InsertBefore node target l =
     (let l = l\<lparr>ll_p := (ll_p l)(node := ll_p l target), ll_n := (ll_n l)(node := Some target)\<rparr>;
          l = (case ll_p l target of
                 Some e \<Rightarrow> l\<lparr>ll_n := (ll_n l)(e := Some node)\<rparr>
               | None \<Rightarrow> l\<lparr>ll_first := Some node\<rparr>)
      in l\<lparr>ll_p := (ll_p l)(target := Some node)\<rparr>)"

definition LinkedList1_InsertAfter :: "'e \<Rightarrow> 'e \<Rightarrow> 'e LinkedList1 \<Rightarrow> 'e LinkedList1" where
  "LinkedList1_InsertAfter node target l =
     (let l = l\<lparr>ll_p := (ll_p l)(node := Some target), ll_n := (ll_n l)(node := ll_n l target)\<rparr>;
          l = (case ll_n l target of
                 Some e \<Rightarrow> l\<lparr>ll_p := (ll_p l)(e := Some node)\<rparr>
               | None \<Rightarrow> l\<lparr>ll_last := Some node\<rparr>)
      in l\<lparr>ll_n := (ll_n l)(target := Some node)\<rparr>)"

definition LinkedList1_Remove :: "'e \<Rightarrow> 'e LinkedList1 \<Rightarrow> 'e LinkedList1" where
  "LinkedList1_Remove node l =
     (let l = (case ll_p l node of
                 Some e \<Rightarrow> l\<lparr>ll_n := (ll_n l)(e := ll_n l node)\<rparr>
               | None \<Rightarrow> l\<lparr>ll_first := ll_n l node\<rparr>)
      in (case ll_n l node of
            Some e \<Rightarrow> l\<lparr>ll_p := (ll_p l)(e := ll_p l node)\<rparr>
          | None \<Rightarrow> l\<lparr>ll_last := ll_p l node\<rparr>))"

text \<open>\<open>LinkedList1_InsertListAfter\<close>; the list to insert shares the node stores.\<close>

definition LinkedList1_InsertListAfter ::
  "'e ptr \<Rightarrow> 'e ptr \<Rightarrow> 'e ptr \<Rightarrow> 'e LinkedList1 \<Rightarrow> 'e LinkedList1" where
  "LinkedList1_InsertListAfter ins_first ins_last target l =
     (if ins_first = None then l
      else let t_next = (case target of Some t \<Rightarrow> ll_n l t | None \<Rightarrow> ll_first l);
               l = l\<lparr>ll_p := store ins_first target (ll_p l)\<rparr>;
               l = l\<lparr>ll_n := store ins_last t_next (ll_n l)\<rparr>;
               l = (case target of
                      Some t \<Rightarrow> l\<lparr>ll_n := (ll_n l)(t := ins_first)\<rparr>
                    | None \<Rightarrow> l\<lparr>ll_first := ins_first\<rparr>)
           in (case t_next of
                 Some n \<Rightarrow> l\<lparr>ll_p := (ll_p l)(n := ins_last)\<rparr>
               | None \<Rightarrow> l\<lparr>ll_last := ins_last\<rparr>))"

definition LinkedList1Node_Next :: "'e LinkedList1 \<Rightarrow> 'e \<Rightarrow> 'e ptr" where
  "LinkedList1Node_Next l node = ll_n l node"

definition LinkedList1Node_Prev :: "'e LinkedList1 \<Rightarrow> 'e \<Rightarrow> 'e ptr" where
  "LinkedList1Node_Prev l node = ll_p l node"


section \<open>Chains of nodes\<close>

definition first_ptr :: "'e list \<Rightarrow> 'e ptr \<Rightarrow> 'e ptr" where
  "first_ptr xs e = (case xs of [] \<Rightarrow> e | x # _ \<Rightarrow> Some x)"

text \<open>
  \<open>links nx pv b xs e\<close>: the nodes \<open>xs\<close> are chained, the first one points back to \<open>b\<close> (nothing is
  required of it when \<open>b\<close> is unknown) and the last one points forward to \<open>e\<close>.
\<close>

fun links :: "('e \<Rightarrow> 'e ptr) \<Rightarrow> ('e \<Rightarrow> 'e ptr) \<Rightarrow> 'e ptr option \<Rightarrow> 'e list \<Rightarrow> 'e ptr \<Rightarrow> bool" where
  "links nx pv b [] e \<longleftrightarrow> True"
| "links nx pv b (x # xs) e \<longleftrightarrow>
     (b = None \<or> Some (pv x) = b) \<and> nx x = first_ptr xs e \<and> links nx pv (Some (Some x)) xs e"

definition last_ptr :: "'e ptr option \<Rightarrow> 'e list \<Rightarrow> 'e ptr option" where
  "last_ptr b xs = (if xs = [] then b else Some (Some (last xs)))"

lemma first_ptr_simps [simp]:
  "first_ptr [] e = e" "first_ptr (x # xs) e = Some x"
  "first_ptr (xs @ ys) e = first_ptr xs (first_ptr ys e)"
  by (simp_all add: first_ptr_def split: list.splits)

lemma last_ptr_simps [simp]:
  "last_ptr b [] = b" "last_ptr b (x # xs) = last_ptr (Some (Some x)) xs"
  "last_ptr b (xs @ ys) = last_ptr (last_ptr b xs) ys"
  by (simp_all add: last_ptr_def)

lemma links_append [simp]:
  "links nx pv b (xs @ ys) e \<longleftrightarrow>
   links nx pv b xs (first_ptr ys e) \<and> links nx pv (last_ptr b xs) ys e"
  by (induction xs arbitrary: b) auto

lemma links_frame_next: "x \<notin> set xs \<Longrightarrow> links (nx(x := v)) pv b xs e = links nx pv b xs e"
  by (induction xs arbitrary: b) auto

lemma links_frame_prev: "x \<notin> set xs \<Longrightarrow> links nx (pv(x := v)) b xs e = links nx pv b xs e"
  by (induction xs arbitrary: b) auto

lemmas links_frame [simp] = links_frame_next links_frame_prev


section \<open>The lists the structures stand for\<close>

definition sl_rep :: "'e SLinkedList \<Rightarrow> 'e list \<Rightarrow> bool" where
  "sl_rep l xs \<longleftrightarrow>
     distinct xs \<and> sl_first l = first_ptr xs None \<and> links (sl_next l) (sl_prev l) None xs None"

definition ll_rep :: "'e LinkedList1 \<Rightarrow> 'e list \<Rightarrow> bool" where
  "ll_rep l xs \<longleftrightarrow>
     distinct xs \<and> ll_first l = first_ptr xs None \<and> Some (ll_last l) = last_ptr (Some None) xs \<and>
     links (ll_n l) (ll_p l) (Some None) xs None"

lemma list_snoc_cases: obtains "xs = []" | ys y where "xs = ys @ [y]"
  by (cases xs rule: rev_cases) auto

lemma remove1_middle: "distinct (us @ x # vs) \<Longrightarrow> remove1 x (us @ x # vs) = us @ vs"
  by (simp add: remove1_append)

lemma sl_rep_Init: "sl_rep (SLinkedList_Init l) []"
  by (simp add: sl_rep_def SLinkedList_Init_def)

lemma sl_rep_Prepend: "sl_rep l xs \<Longrightarrow> e \<notin> set xs \<Longrightarrow> sl_rep (SLinkedList_Prepend e l) (e # xs)"
  by (cases xs) (auto simp: sl_rep_def SLinkedList_Prepend_def)

lemma sl_rep_First: "sl_rep l xs \<Longrightarrow> SLinkedList_First l = first_ptr xs None"
  by (simp add: sl_rep_def SLinkedList_First_def)

lemma sl_rep_Remove:
  assumes "sl_rep l (us @ x # vs)"
  shows "sl_rep (SLinkedList_Remove x l) (us @ vs)"
proof (cases us rule: list_snoc_cases)
  case 1
  with assms show ?thesis
    by (cases vs) (auto simp: sl_rep_def SLinkedList_Remove_def)
next
  case (2 us' u)
  with assms show ?thesis
    by (cases us'; cases vs) (auto simp: sl_rep_def SLinkedList_Remove_def store_def)
qed

lemma sl_rep_InsertBefore:
  assumes "sl_rep l (us @ t # vs)" and "x \<notin> set (us @ t # vs)"
  shows "sl_rep (SLinkedList_InsertBefore x t l) (us @ x # t # vs)"
proof (cases us rule: list_snoc_cases)
  case 1
  with assms show ?thesis by (auto simp: sl_rep_def SLinkedList_InsertBefore_def)
next
  case (2 us' u)
  with assms show ?thesis
    by (cases us') (auto simp: sl_rep_def SLinkedList_InsertBefore_def store_def Let_def)
qed

lemma sl_rep_InsertAfter:
  assumes "sl_rep l (us @ t # vs)" and "x \<notin> set (us @ t # vs)"
  shows "sl_rep (SLinkedList_InsertAfter x t l) (us @ t # x # vs)"
  using assms by (cases vs) (auto simp: sl_rep_def SLinkedList_InsertAfter_def Let_def)

lemma sl_rep_RemoveFirst: "sl_rep l (x # xs) \<Longrightarrow> sl_rep (SLinkedList_RemoveFirst l) xs"
  by (cases xs) (auto simp: sl_rep_def SLinkedList_RemoveFirst_def)

lemma sl_rep_Next: "sl_rep l (us @ x # vs) \<Longrightarrow> SLinkedList_Next l x = first_ptr vs None"
  by (simp add: sl_rep_def SLinkedList_Next_def)

lemma sl_rep_Prev:
  assumes "sl_rep l (us @ x # vs)"
  shows "SLinkedList_Prev l x = (if us = [] then None else Some (last us))"
proof (cases us rule: list_snoc_cases)
  case 1
  with assms show ?thesis by (simp add: sl_rep_def SLinkedList_Prev_def)
next
  case (2 us' u)
  with assms show ?thesis
    by (cases us') (auto simp: sl_rep_def SLinkedList_Prev_def)
qed

lemma ll_rep_Init: "ll_rep (LinkedList1_Init l) []"
  by (simp add: ll_rep_def LinkedList1_Init_def)

lemma ll_rep_Prepend: "ll_rep l xs \<Longrightarrow> e \<notin> set xs \<Longrightarrow> ll_rep (LinkedList1_Prepend e l) (e # xs)"
  by (cases xs) (auto simp: ll_rep_def LinkedList1_Prepend_def)

lemma ll_rep_Append:
  assumes "ll_rep l xs" and "e \<notin> set xs"
  shows "ll_rep (LinkedList1_Append e l) (xs @ [e])"
proof (cases xs rule: list_snoc_cases)
  case (2 ys y)
  with assms show ?thesis by (auto simp: ll_rep_def LinkedList1_Append_def)
qed (use assms in \<open>auto simp: ll_rep_def LinkedList1_Append_def\<close>)

lemma ll_rep_First: "ll_rep l xs \<Longrightarrow> LinkedList1_GetFirst l = first_ptr xs None"
  by (simp add: ll_rep_def LinkedList1_GetFirst_def)

lemma ll_rep_Last: "ll_rep l xs \<Longrightarrow> LinkedList1_GetLast l = (if xs = [] then None else Some (last xs))"
  by (simp add: ll_rep_def LinkedList1_GetLast_def last_ptr_def split: if_splits)

lemma ll_rep_Remove:
  assumes "ll_rep l (us @ x # vs)"
  shows "ll_rep (LinkedList1_Remove x l) (us @ vs)"
proof (cases us rule: list_snoc_cases)
  case 1
  with assms show ?thesis
    by (cases vs) (auto simp: ll_rep_def LinkedList1_Remove_def)
next
  case (2 us' u)
  with assms show ?thesis
    by (cases vs) (auto simp: ll_rep_def LinkedList1_Remove_def)
qed

lemma ll_rep_InsertBefore:
  assumes "ll_rep l (us @ t # vs)" and "x \<notin> set (us @ t # vs)"
  shows "ll_rep (LinkedList1_InsertBefore x t l) (us @ x # t # vs)"
proof (cases us rule: list_snoc_cases)
  case 1
  with assms show ?thesis by (auto simp: ll_rep_def LinkedList1_InsertBefore_def)
next
  case (2 us' u)
  with assms show ?thesis by (auto simp: ll_rep_def LinkedList1_InsertBefore_def)
qed

lemma ll_rep_InsertAfter:
  assumes "ll_rep l (us @ t # vs)" and "x \<notin> set (us @ t # vs)"
  shows "ll_rep (LinkedList1_InsertAfter x t l) (us @ t # x # vs)"
  using assms by (cases vs) (auto simp: ll_rep_def LinkedList1_InsertAfter_def)

lemma ll_rep_Next: "ll_rep l (us @ x # vs) \<Longrightarrow> LinkedList1Node_Next l x = first_ptr vs None"
  by (simp add: ll_rep_def LinkedList1Node_Next_def)

lemma ll_rep_Prev:
  "ll_rep l (us @ x # vs) \<Longrightarrow> LinkedList1Node_Prev l x = (if us = [] then None else Some (last us))"
  by (simp add: ll_rep_def LinkedList1Node_Prev_def last_ptr_def split: if_splits)

text \<open>Re-linking both ends of a chain.\<close>

lemma links_relink:
  assumes "links nx pv b zs e" and "distinct zs" and "zs \<noteq> []"
  shows "links (nx(last zs := e')) (pv(hd zs := b')) (Some b') zs e'"
proof -
  obtain z zs' where z: "zs = z # zs'" using assms(3) by (cases zs) auto
  show ?thesis
  proof (cases zs' rule: list_snoc_cases)
    case 1
    then show ?thesis using z by simp
  next
    case (2 ys y)
    then show ?thesis using assms z by (cases ys) auto
  qed
qed

lemma ll_rep_InsertListAfter:
  assumes rep: "ll_rep l (us @ vs)" and new: "distinct (us @ vs @ zs)" and ne: "zs \<noteq> []"
    and zs: "links (ll_n l) (ll_p l) b zs e"
    and target: "target = (if us = [] then None else Some (last us))"
  shows "ll_rep (LinkedList1_InsertListAfter (Some (hd zs)) (Some (last zs)) target l) (us @ zs @ vs)"
proof -
  have mem: "hd zs \<in> set zs" "last zs \<in> set zs" using ne by simp_all
  define nx where "nx = (ll_n l)(last zs := first_ptr vs None)"
  define pv where "pv = (ll_p l)(hd zs := target)"
  have zs': "links nx pv (Some target) zs (first_ptr vs None)"
    unfolding nx_def pv_def using links_relink [OF zs _ ne] new by simp
  have "last zs \<notin> set us" "last zs \<notin> set vs" "hd zs \<notin> set us" "hd zs \<notin> set vs"
    using new mem by auto
  then have rest: "links nx pv (Some None) (us @ vs) None"
    using rep by (simp add: ll_rep_def nx_def pv_def)
  have fst: "first_ptr zs x = Some (hd zs)" "last_ptr y zs = Some (Some (last zs))" for x y
    using ne by (cases zs; simp add: last_ptr_def)+
  show ?thesis
  proof (cases us rule: list_snoc_cases)
    case 1
    then show ?thesis using rep new zs' rest target ne fst
      by (cases vs) (auto simp: ll_rep_def LinkedList1_InsertListAfter_def store_def nx_def pv_def)
  next
    case (2 us' u)
    then show ?thesis using rep new zs' rest target ne fst
      by (cases vs) (auto simp: ll_rep_def LinkedList1_InsertListAfter_def store_def nx_def pv_def)
  qed
qed


section \<open>The list interface\<close>

text \<open>
  What the users of the lists rely on: a representation relation to lists without repetition,
  insertion at the head, removal of a member and access to the head.
\<close>

locale intrusive_list =
  fixes rep :: "'l \<Rightarrow> 'e list \<Rightarrow> bool"
    and prepend :: "'e \<Rightarrow> 'l \<Rightarrow> 'l"
    and remove :: "'e \<Rightarrow> 'l \<Rightarrow> 'l"
    and head :: "'l \<Rightarrow> 'e option"
  assumes rep_distinct: "rep l xs \<Longrightarrow> distinct xs"
    and rep_prepend: "rep l xs \<Longrightarrow> e \<notin> set xs \<Longrightarrow> rep (prepend e l) (e # xs)"
    and rep_remove_split: "rep l (us @ e # vs) \<Longrightarrow> rep (remove e l) (us @ vs)"
    and rep_head: "rep l xs \<Longrightarrow> head l = first_ptr xs None"
begin

lemma rep_remove: "rep l xs \<Longrightarrow> e \<in> set xs \<Longrightarrow> rep (remove e l) (remove1 e xs)"
  by (metis remove1_middle rep_distinct rep_remove_split split_list)

lemma rep_move_front:
  "rep l xs \<Longrightarrow> e \<in> set xs \<Longrightarrow> rep (prepend e (remove e l)) (e # remove1 e xs)"
  by (rule rep_prepend [OF rep_remove]) (simp_all add: rep_distinct)

lemma head_None_iff: "rep l xs \<Longrightarrow> head l = None \<longleftrightarrow> xs = []"
  by (cases xs) (auto simp: rep_head)

lemma pop: "rep l (x # xs) \<Longrightarrow> head l = Some x \<and> rep (remove x l) xs"
  using rep_remove_split [of l "[]" x xs] rep_head by auto

end

interpretation sl: intrusive_list sl_rep SLinkedList_Prepend SLinkedList_Remove SLinkedList_First
  by unfold_locales
    (auto simp: sl_rep_Prepend sl_rep_Remove sl_rep_First, simp add: sl_rep_def)

interpretation ll: intrusive_list ll_rep LinkedList1_Prepend LinkedList1_Remove LinkedList1_GetFirst
  by unfold_locales
    (auto simp: ll_rep_Prepend ll_rep_Remove ll_rep_First, simp add: ll_rep_def)

end
