(* ===== verification/BPending.thy ===== *)
theory BPending
  imports Lists
begin

text \<open>
  The job queue of \<open>base/BPending.c\<close>.  \<open>BSmallPending_*\<close> and \<open>BPendingGroup_*\<close> are modelled on
  the linked list nodes the code manipulates, including the convention that the \<open>next\<close>
  pointer of a job that is not pending points to itself.  The \<open>BPending\<close> operations, which the
  flow components call, are given on the list of pending jobs, and the two levels are
  connected by a simulation over arbitrary sequences of calls.
\<close>

section \<open>The queue on nodes\<close>

text \<open>A job is its \<open>BSmallPending\<close> object; \<open>handler\<close> holds the handler and user pointers of each.\<close>

record ('j, 'h) BPendingGroup =
  jobs :: "'j SLinkedList"
  handler :: "'j \<Rightarrow> 'h"

definition BPendingGroup_Init :: "('j, 'h) BPendingGroup \<Rightarrow> ('j, 'h) BPendingGroup" where
  "BPendingGroup_Init g = g\<lparr>jobs := SLinkedList_Init (jobs g)\<rparr>"

definition BPendingGroup_HasJobs :: "('j, 'h) BPendingGroup \<Rightarrow> bool" where
  "BPendingGroup_HasJobs g \<longleftrightarrow> \<not> SLinkedList_IsEmpty (jobs g)"

text \<open>The job taken off the queue and the handler that is called, or nothing if there is no job.\<close>

definition BPendingGroup_ExecuteJob ::
  "('j, 'h) BPendingGroup \<Rightarrow> ('j \<times> 'h \<times> ('j, 'h) BPendingGroup) option" where
  "BPendingGroup_ExecuteJob g =
     (case SLinkedList_First (jobs g) of
        None \<Rightarrow> None
      | Some p \<Rightarrow>
          let g = g\<lparr>jobs := SLinkedList_RemoveFirst (jobs g)\<rparr>;
              g = g\<lparr>jobs := SLinkedListMarkRemoved p (jobs g)\<rparr>
          in Some (p, handler g p, g))"

definition BPendingGroup_PeekJob :: "('j, 'h) BPendingGroup \<Rightarrow> 'j option" where
  "BPendingGroup_PeekJob g = SLinkedList_First (jobs g)"

definition BSmallPending_Init ::
  "'j \<Rightarrow> 'h \<Rightarrow> ('j, 'h) BPendingGroup \<Rightarrow> ('j, 'h) BPendingGroup" where
  "BSmallPending_Init p h g =
     (let g = g\<lparr>handler := (handler g)(p := h)\<rparr> in g\<lparr>jobs := SLinkedListMarkRemoved p (jobs g)\<rparr>)"

definition BSmallPending_Free :: "'j \<Rightarrow> ('j, 'h) BPendingGroup \<Rightarrow> ('j, 'h) BPendingGroup" where
  "BSmallPending_Free p g =
     (if \<not> SLinkedListIsRemoved p (jobs g) then g\<lparr>jobs := SLinkedList_Remove p (jobs g)\<rparr> else g)"

definition BSmallPending_SetHandler ::
  "'j \<Rightarrow> 'h \<Rightarrow> ('j, 'h) BPendingGroup \<Rightarrow> ('j, 'h) BPendingGroup" where
  "BSmallPending_SetHandler p h g = g\<lparr>handler := (handler g)(p := h)\<rparr>"

definition BSmallPending_Set :: "'j \<Rightarrow> ('j, 'h) BPendingGroup \<Rightarrow> ('j, 'h) BPendingGroup" where
  "BSmallPending_Set p g =
     (let g = (if \<not> SLinkedListIsRemoved p (jobs g)
               then g\<lparr>jobs := SLinkedList_Remove p (jobs g)\<rparr> else g)
      in g\<lparr>jobs := SLinkedList_Prepend p (jobs g)\<rparr>)"

definition BSmallPending_Unset :: "'j \<Rightarrow> ('j, 'h) BPendingGroup \<Rightarrow> ('j, 'h) BPendingGroup" where
  "BSmallPending_Unset p g =
     (if \<not> SLinkedListIsRemoved p (jobs g)
      then let g = g\<lparr>jobs := SLinkedList_Remove p (jobs g)\<rparr>
           in g\<lparr>jobs := SLinkedListMarkRemoved p (jobs g)\<rparr>
      else g)"

definition BSmallPending_IsSet :: "'j \<Rightarrow> ('j, 'h) BPendingGroup \<Rightarrow> bool" where
  "BSmallPending_IsSet p g \<longleftrightarrow> \<not> SLinkedListIsRemoved p (jobs g)"


section \<open>The queue as a list\<close>

text \<open>The pending jobs, the next one to run first.\<close>

type_synonym 'j jobs = "'j list"

definition BPending_Init :: "'j \<Rightarrow> 'j jobs \<Rightarrow> 'j jobs" where
  "BPending_Init p js = js"

definition BPending_Free :: "'j \<Rightarrow> 'j jobs \<Rightarrow> 'j jobs" where
  "BPending_Free p js = remove1 p js"

definition BPending_Set :: "'j \<Rightarrow> 'j jobs \<Rightarrow> 'j jobs" where
  "BPending_Set p js = p # remove1 p js"

definition BPending_Unset :: "'j \<Rightarrow> 'j jobs \<Rightarrow> 'j jobs" where
  "BPending_Unset p js = remove1 p js"

definition BPending_IsSet :: "'j \<Rightarrow> 'j jobs \<Rightarrow> bool" where
  "BPending_IsSet p js \<longleftrightarrow> p \<in> set js"

lemma BPending_Set_set [job_simps]: "set (BPending_Set p js) = insert p (set js)"
  by (induction js) (auto simp: BPending_Set_def)

lemma BPending_Unset_set [job_simps]: "distinct js \<Longrightarrow> set (BPending_Unset p js) = set js - {p}"
  by (simp add: BPending_Unset_def)

lemma BPending_Free_set [job_simps]: "distinct js \<Longrightarrow> set (BPending_Free p js) = set js - {p}"
  by (simp add: BPending_Free_def)

lemma BPending_distinct [job_simps]:
  "distinct js \<Longrightarrow> distinct (BPending_Set p js)"
  "distinct js \<Longrightarrow> distinct (BPending_Unset p js)"
  "distinct js \<Longrightarrow> distinct (BPending_Free p js)"
  by (simp_all add: BPending_Set_def BPending_Unset_def BPending_Free_def)


section \<open>Simulation\<close>

text \<open>
  \<open>group_rep objs g js\<close>: the nodes of the initialised jobs \<open>objs\<close> represent the list \<open>js\<close>, and a
  job's self link tells whether it is pending.
\<close>

definition group_rep :: "'j set \<Rightarrow> ('j, 'h) BPendingGroup \<Rightarrow> 'j jobs \<Rightarrow> bool" where
  "group_rep objs g js \<longleftrightarrow>
     sl_rep (jobs g) js \<and> set js \<subseteq> objs \<and>
     (\<forall>p\<in>objs. SLinkedListIsRemoved p (jobs g) \<longleftrightarrow> p \<notin> set js)"

lemma sl_rep_MarkRemoved:
  "sl_rep l xs \<Longrightarrow> p \<notin> set xs \<Longrightarrow> sl_rep (SLinkedListMarkRemoved p l) xs"
  by (simp add: sl_rep_def SLinkedListMarkRemoved_def)

lemma sl_rep_not_removed:
  assumes "sl_rep l xs" and "p \<in> set xs"
  shows "\<not> SLinkedListIsRemoved p l"
proof -
  obtain us vs where xs: "xs = us @ p # vs" using assms(2) by (metis split_list)
  then have "sl_next l p = first_ptr vs None" "p \<notin> set vs" using assms(1) by (simp_all add: sl_rep_def)
  then show ?thesis by (cases vs) (auto simp: SLinkedListIsRemoved_def)
qed

lemma IsRemoved_MarkRemoved:
  "SLinkedListIsRemoved p (SLinkedListMarkRemoved q l) \<longleftrightarrow> p = q \<or> SLinkedListIsRemoved p l"
  by (simp add: SLinkedListIsRemoved_def SLinkedListMarkRemoved_def)

text \<open>The operations leave the links of jobs outside the queue alone.\<close>

lemma IsRemoved_Prepend:
  "p \<noteq> q \<Longrightarrow> SLinkedListIsRemoved p (SLinkedList_Prepend q l) = SLinkedListIsRemoved p l"
  by (cases "sl_first l") (simp_all add: SLinkedListIsRemoved_def SLinkedList_Prepend_def)

lemma IsRemoved_RemoveFirst:
  "SLinkedListIsRemoved p (SLinkedList_RemoveFirst l) = SLinkedListIsRemoved p l"
  by (simp add: SLinkedListIsRemoved_def SLinkedList_RemoveFirst_def split: option.splits)

lemma IsRemoved_Remove:
  assumes "sl_rep l xs" and "q \<in> set xs" and "p \<notin> set xs"
  shows "SLinkedListIsRemoved p (SLinkedList_Remove q l) = SLinkedListIsRemoved p l"
proof -
  obtain us vs where xs: "xs = us @ q # vs" using assms(2) by (metis split_list)
  have "sl_next (SLinkedList_Remove q l) p = sl_next l p"
  proof (cases us rule: list_snoc_cases)
    case 1
    then show ?thesis using assms xs by (simp add: sl_rep_def SLinkedList_Remove_def)
  next
    case (2 us' u)
    then show ?thesis using assms xs
      by (cases us'; cases vs) (auto simp: sl_rep_def SLinkedList_Remove_def store_def)
  qed
  then show ?thesis by (simp add: SLinkedListIsRemoved_def)
qed

lemma group_rep_Init: "group_rep {} (BPendingGroup_Init g) []"
  by (simp add: group_rep_def BPendingGroup_Init_def sl_rep_Init)

lemma group_rep_JobInit:
  "group_rep objs g js \<Longrightarrow> p \<notin> objs \<Longrightarrow> group_rep (insert p objs) (BSmallPending_Init p h g) (BPending_Init p js)"
  by (auto simp: group_rep_def BSmallPending_Init_def BPending_Init_def IsRemoved_MarkRemoved
      intro!: sl_rep_MarkRemoved)

lemma group_rep_IsSet:
  "group_rep objs g js \<Longrightarrow> p \<in> objs \<Longrightarrow> BSmallPending_IsSet p g = BPending_IsSet p js"
  by (simp add: group_rep_def BSmallPending_IsSet_def BPending_IsSet_def)

lemma group_rep_Set:
  assumes "group_rep objs g js" and "p \<in> objs"
  shows "group_rep objs (BSmallPending_Set p g) (BPending_Set p js)"
proof (cases "p \<in> set js")
  case True
  then show ?thesis
    using assms sl.rep_move_front [of "jobs g" js p] sl.rep_distinct [of "jobs g" js]
      sl_rep_not_removed [OF sl.rep_move_front, of "jobs g" js p p]
    by (auto simp: group_rep_def BSmallPending_Set_def BPending_Set_def IsRemoved_Prepend
        IsRemoved_Remove dest: sl_rep_not_removed [OF sl.rep_move_front])
next
  case False
  then show ?thesis
    using assms by (auto simp: group_rep_def BSmallPending_Set_def BPending_Set_def remove1_idem
        sl_rep_Prepend IsRemoved_Prepend sl_rep_not_removed [OF sl_rep_Prepend])
qed

lemma sl_rep_unlink:
  assumes "sl_rep l js" and "p \<in> set js" and "q \<in> set js \<or> SLinkedListIsRemoved q l" and "q \<noteq> p"
  shows "SLinkedListIsRemoved q (SLinkedList_Remove p l) \<longleftrightarrow> q \<notin> set (remove1 p js)"
proof (cases "q \<in> set js")
  case True
  then show ?thesis
    using assms sl_rep_not_removed [OF sl.rep_remove, of l js p q] by simp
next
  case False
  then show ?thesis using assms IsRemoved_Remove [of l js p q] by (auto dest: notin_set_remove1)
qed

lemma group_rep_Unset:
  assumes "group_rep objs g js" and "p \<in> objs"
  shows "group_rep objs (BSmallPending_Unset p g) (BPending_Unset p js)"
proof (cases "p \<in> set js")
  case True
  have rep: "sl_rep (jobs g) js" "distinct js" using assms sl.rep_distinct by (auto simp: group_rep_def)
  then show ?thesis
    using assms True sl.rep_remove [of "jobs g" js p] sl_rep_unlink [of "jobs g" js p]
    by (auto simp: group_rep_def BSmallPending_Unset_def BPending_Unset_def IsRemoved_MarkRemoved
        intro!: sl_rep_MarkRemoved)
next
  case False
  then show ?thesis
    using assms by (simp add: group_rep_def BSmallPending_Unset_def BPending_Unset_def remove1_idem)
qed

lemma group_rep_Free:
  assumes "group_rep objs g js" and "p \<in> objs"
  shows "group_rep (objs - {p}) (BSmallPending_Free p g) (BPending_Free p js)"
proof (cases "p \<in> set js")
  case True
  have rep: "sl_rep (jobs g) js" "distinct js" using assms sl.rep_distinct by (auto simp: group_rep_def)
  then show ?thesis
    using assms True sl.rep_remove [of "jobs g" js p] sl_rep_unlink [of "jobs g" js p]
    by (auto simp: group_rep_def BSmallPending_Free_def BPending_Free_def)
next
  case False
  then show ?thesis
    using assms by (auto simp: group_rep_def BSmallPending_Free_def BPending_Free_def remove1_idem)
qed

lemma group_rep_SetHandler:
  "group_rep objs g js \<Longrightarrow> group_rep objs (BSmallPending_SetHandler p h g) js"
  by (simp add: group_rep_def BSmallPending_SetHandler_def)

lemma group_rep_Execute:
  assumes "group_rep objs g (p # js)"
  shows "\<exists>g'. BPendingGroup_ExecuteJob g = Some (p, handler g p, g') \<and> handler g' = handler g \<and>
    group_rep objs g' js"
proof -
  have rep: "sl_rep (jobs g) (p # js)" using assms by (simp add: group_rep_def)
  then have "sl_rep (SLinkedListMarkRemoved p (SLinkedList_RemoveFirst (jobs g))) js"
    using sl.rep_distinct [OF rep] by (intro sl_rep_MarkRemoved sl_rep_RemoveFirst) auto
  then show ?thesis
    using assms sl.rep_distinct [OF rep] sl_rep_First [OF rep]
    by (auto simp: group_rep_def BPendingGroup_ExecuteJob_def IsRemoved_MarkRemoved
        IsRemoved_RemoveFirst)
qed

text \<open>Calls into the queue, the node machine and the list machine.\<close>

datatype ('j, 'h) pend_call =
  Call_Init 'j 'h | Call_Free 'j | Call_SetHandler 'j 'h | Call_Set 'j | Call_Unset 'j | Call_Execute

fun node_call :: "('j, 'h) pend_call \<Rightarrow> ('j, 'h) BPendingGroup \<Rightarrow> ('j \<times> 'h) list \<times> ('j, 'h) BPendingGroup" where
  "node_call (Call_Init p h) g = ([], BSmallPending_Init p h g)"
| "node_call (Call_Free p) g = ([], BSmallPending_Free p g)"
| "node_call (Call_SetHandler p h) g = ([], BSmallPending_SetHandler p h g)"
| "node_call (Call_Set p) g = ([], BSmallPending_Set p g)"
| "node_call (Call_Unset p) g = ([], BSmallPending_Unset p g)"
| "node_call Call_Execute g =
     (case BPendingGroup_ExecuteJob g of None \<Rightarrow> ([], g) | Some (p, h, g) \<Rightarrow> ([(p, h)], g))"

record ('j, 'h) job_list =
  pending :: "'j jobs"
  live :: "('j \<times> 'h) list"

fun list_call :: "('j, 'h) pend_call \<Rightarrow> ('j, 'h) job_list \<Rightarrow> (('j \<times> 'h) list \<times> ('j, 'h) job_list) option" where
  "list_call (Call_Init p h) s =
     (if map_of (live s) p = None
      then Some ([], s\<lparr>pending := BPending_Init p (pending s), live := (p, h) # live s\<rparr>) else None)"
| "list_call (Call_Free p) s =
     (if map_of (live s) p = None then None
      else Some ([], s\<lparr>pending := BPending_Free p (pending s), live := filter (\<lambda>(q, _). q \<noteq> p) (live s)\<rparr>))"
| "list_call (Call_SetHandler p h) s =
     (if map_of (live s) p = None then None else Some ([], s\<lparr>live := (p, h) # live s\<rparr>))"
| "list_call (Call_Set p) s =
     (if map_of (live s) p = None then None else Some ([], s\<lparr>pending := BPending_Set p (pending s)\<rparr>))"
| "list_call (Call_Unset p) s =
     (if map_of (live s) p = None then None else Some ([], s\<lparr>pending := BPending_Unset p (pending s)\<rparr>))"
| "list_call Call_Execute s =
     (case pending s of
        [] \<Rightarrow> None
      | p # js \<Rightarrow> (case map_of (live s) p of
                   None \<Rightarrow> None | Some h \<Rightarrow> Some ([(p, h)], s\<lparr>pending := js\<rparr>)))"

text \<open>A sequence of calls; the list machine also checks that every call is a legal one.\<close>

fun node_run :: "('j, 'h) pend_call list \<Rightarrow> ('j, 'h) BPendingGroup \<Rightarrow> ('j \<times> 'h) list \<times> ('j, 'h) BPendingGroup" where
  "node_run [] g = ([], g)"
| "node_run (c # cs) g =
     (let (tr, g) = node_call c g; (tr', g) = node_run cs g in (tr @ tr', g))"

fun list_run :: "('j, 'h) pend_call list \<Rightarrow> ('j, 'h) job_list \<Rightarrow> (('j \<times> 'h) list \<times> ('j, 'h) job_list) option" where
  "list_run [] s = Some ([], s)"
| "list_run (c # cs) s =
     (case list_call c s of
        None \<Rightarrow> None
      | Some (tr, s) \<Rightarrow> (case list_run cs s of None \<Rightarrow> None | Some (tr', s) \<Rightarrow> Some (tr @ tr', s)))"

definition job_sim :: "('j, 'h) BPendingGroup \<Rightarrow> ('j, 'h) job_list \<Rightarrow> bool" where
  "job_sim g s \<longleftrightarrow>
     group_rep (dom (map_of (live s))) g (pending s) \<and>
     (\<forall>p h. map_of (live s) p = Some h \<longrightarrow> handler g p = h)"

lemma map_of_filter_neq: "map_of (filter (\<lambda>(q, _). q \<noteq> p) xs) = (map_of xs)(p := None)"
  by (induction xs) auto

lemma job_sim_call:
  assumes sim: "job_sim g s" and "list_call c s = Some (tr, s')"
  shows "\<exists>g'. node_call c g = (tr, g') \<and> job_sim g' s'"
proof (cases c)
  case (Call_Init p h)
  then show ?thesis
    using assms group_rep_JobInit [of "dom (map_of (live s))" g "pending s" p h]
    by (auto simp: job_sim_def BSmallPending_Init_def domIff insert_dom split: if_splits)
next
  case (Call_Free p)
  then show ?thesis
    using assms group_rep_Free [of "dom (map_of (live s))" g "pending s" p]
    by (auto simp: job_sim_def BSmallPending_Free_def map_of_filter_neq domIff split: if_splits)
next
  case (Call_SetHandler p h)
  then show ?thesis
    using assms group_rep_SetHandler [of "dom (map_of (live s))" g "pending s" p h]
    by (auto simp: job_sim_def BSmallPending_SetHandler_def domIff insert_absorb split: if_splits)
next
  case (Call_Set p)
  then show ?thesis
    using assms group_rep_Set [of "dom (map_of (live s))" g "pending s" p]
    by (auto simp: job_sim_def BSmallPending_Set_def domIff split: if_splits)
next
  case (Call_Unset p)
  then show ?thesis
    using assms group_rep_Unset [of "dom (map_of (live s))" g "pending s" p]
    by (auto simp: job_sim_def BSmallPending_Unset_def domIff split: if_splits)
next
  case Call_Execute
  then obtain p js h where "pending s = p # js" "map_of (live s) p = Some h"
      "tr = [(p, h)]" "s' = s\<lparr>pending := js\<rparr>"
    using assms(2) by (auto split: list.splits option.splits)
  then show ?thesis
    using Call_Execute sim group_rep_Execute [of "dom (map_of (live s))" g p js]
    by (auto simp: job_sim_def)
qed

lemma job_sim_run:
  "job_sim g s \<Longrightarrow> list_run cs s = Some (tr, s') \<Longrightarrow>
   \<exists>g'. node_run cs g = (tr, g') \<and> job_sim g' s'"
proof (induction cs arbitrary: g s tr)
  case (Cons c cs)
  then obtain tr1 s1 tr2 where run: "list_call c s = Some (tr1, s1)" "list_run cs s1 = Some (tr2, s')"
      "tr = tr1 @ tr2"
    by (auto split: option.splits)
  obtain g1 where g1: "node_call c g = (tr1, g1)" "job_sim g1 s1"
    using job_sim_call [OF Cons.prems(1) run(1)] by blast
  then show ?case using Cons.IH [OF g1(2) run(2)] run(3) by auto
qed simp

text \<open>C10. The linked list queue implements a stack of jobs: for every sequence of legal calls
  (jobs are initialised once before use, not used after being freed, and a job is executed only
  when one is pending) the nodes run the same jobs with the same handlers in the same order as the
  list on which setting a job moves it to the front, and end up representing that list.\<close>

theorem job_queue_refinement:
  assumes "list_run calls \<lparr>pending = [], live = []\<rparr> = Some (executed, s)"
  shows "\<exists>g'. node_run calls (BPendingGroup_Init g) = (executed, g') \<and>
    group_rep (dom (map_of (live s))) g' (pending s) \<and> distinct (pending s)"
proof -
  have "job_sim (BPendingGroup_Init g) \<lparr>pending = [], live = []\<rparr>"
    by (simp add: job_sim_def group_rep_Init)
  then obtain g' where "node_run calls (BPendingGroup_Init g) = (executed, g')" "job_sim g' s"
    using job_sim_run assms by blast
  then show ?thesis using sl.rep_distinct by (auto simp: job_sim_def group_rep_def)
qed

text \<open>Three jobs; job 1 is set twice, job 2 is unset and job 3 is freed while pending.\<close>

theorem job_queue_refinement_witness:
  "\<exists>g'. node_run [Call_Init 1 CHR ''a'', Call_Init 2 CHR ''b'', Call_Init 3 CHR ''c'', Call_Set 1,
      Call_Set 2, Call_Set 3, Call_Set (1 :: nat), Call_Unset 2, Call_Execute, Call_Set 2,
      Call_Free 3, Call_Execute]
    (BPendingGroup_Init \<lparr>jobs = \<lparr>sl_first = None, sl_prev = \<lambda>_. None, sl_next = \<lambda>_. None\<rparr>,
      handler = \<lambda>_. CHR ''-''\<rparr>) = ([(1, CHR ''a''), (2, CHR ''b'')], g')"
proof -
  let ?calls = "[Call_Init 1 CHR ''a'', Call_Init 2 CHR ''b'', Call_Init 3 CHR ''c'', Call_Set 1,
      Call_Set 2, Call_Set 3, Call_Set (1 :: nat), Call_Unset 2, Call_Execute, Call_Set 2,
      Call_Free 3, Call_Execute]"
  have "list_run ?calls \<lparr>pending = [], live = []\<rparr> =
      Some ([(1, CHR ''a''), (2, CHR ''b'')], \<lparr>pending = [], live = [(2, CHR ''b''), (1, CHR ''a'')]\<rparr>)"
    by (simp add: BPending_Init_def BPending_Set_def BPending_Unset_def BPending_Free_def)
  from job_queue_refinement [OF this] show ?thesis by blast
qed

end
