(* ===== verification/FlowInterfaces.thy ===== *)
theory FlowInterfaces
  imports BPending
begin

text \<open>
  The four flow interfaces of \<open>flow/\<close>: \<open>PacketPassInterface\<close>, \<open>PacketRecvInterface\<close>,
  \<open>StreamPassInterface\<close> and \<open>StreamRecvInterface\<close>.  An interface object is a record; its
  operations take and return the record together with the list of pending jobs, in which the
  object's own jobs are named by the record.  The jobs' handlers (\<open>job_operation\<close>,
  \<open>job_requestcancel\<close>, \<open>job_done\<close>) return the arguments with which the code calls the provider
  or the user.  An \<open>Init\<close> takes the uninitialised object and leaves the fields the code does not
  assign as they were.  The assertions of the code, which are off in the build, are the
  \<open>_pre\<close> predicates.
\<close>

datatype iface_state = STATE_NONE | STATE_OPERATION_PENDING | STATE_BUSY | STATE_DONE_PENDING

section \<open>PacketPassInterface\<close>

record ('j, 'd) PacketPassInterface =
  ppi_mtu :: int
  ppi_handler_requestcancel :: bool
  ppi_handler_done :: bool
  ppi_job_operation :: 'j
  ppi_job_operation_data :: 'd
  ppi_job_operation_len :: int
  ppi_job_requestcancel :: 'j
  ppi_job_done :: 'j
  ppi_state :: iface_state
  ppi_cancel_requested :: bool

type_synonym ('j, 'd) ppi = "('j, 'd) PacketPassInterface"

definition PacketPassInterface_Init :: "int \<Rightarrow> ('j, 'd) ppi \<Rightarrow> 'j jobs \<Rightarrow> ('j, 'd) ppi \<times> 'j jobs" where
  "PacketPassInterface_Init mtu i js =
     (let js = BPending_Init (ppi_job_operation i) js;
          js = BPending_Init (ppi_job_requestcancel i) js;
          js = BPending_Init (ppi_job_done i) js
      in (i\<lparr>ppi_mtu := mtu, ppi_handler_requestcancel := False, ppi_handler_done := False,
            ppi_state := STATE_NONE\<rparr>, js))"

definition PacketPassInterface_Free :: "('j, 'd) ppi \<Rightarrow> 'j jobs \<Rightarrow> 'j jobs" where
  "PacketPassInterface_Free i js =
     BPending_Free (ppi_job_operation i)
       (BPending_Free (ppi_job_requestcancel i) (BPending_Free (ppi_job_done i) js))"

definition PacketPassInterface_EnableCancel :: "('j, 'd) ppi \<Rightarrow> ('j, 'd) ppi" where
  "PacketPassInterface_EnableCancel i = i\<lparr>ppi_handler_requestcancel := True\<rparr>"

definition PacketPassInterface_Done :: "('j, 'd) ppi \<Rightarrow> 'j jobs \<Rightarrow> ('j, 'd) ppi \<times> 'j jobs" where
  "PacketPassInterface_Done i js =
     (let js = BPending_Unset (ppi_job_requestcancel i) js;
          js = BPending_Set (ppi_job_done i) js
      in (i\<lparr>ppi_state := STATE_DONE_PENDING\<rparr>, js))"

definition PacketPassInterface_GetMTU :: "('j, 'd) ppi \<Rightarrow> int" where
  "PacketPassInterface_GetMTU i = ppi_mtu i"

definition PacketPassInterface_Sender_Init :: "('j, 'd) ppi \<Rightarrow> ('j, 'd) ppi" where
  "PacketPassInterface_Sender_Init i = i\<lparr>ppi_handler_done := True\<rparr>"

definition PacketPassInterface_Sender_Send ::
  "'d \<Rightarrow> int \<Rightarrow> ('j, 'd) ppi \<Rightarrow> 'j jobs \<Rightarrow> ('j, 'd) ppi \<times> 'j jobs" where
  "PacketPassInterface_Sender_Send data data_len i js =
     (let js = BPending_Set (ppi_job_operation i) js
      in (i\<lparr>ppi_job_operation_data := data, ppi_job_operation_len := data_len,
            ppi_state := STATE_OPERATION_PENDING, ppi_cancel_requested := False\<rparr>, js))"

definition PacketPassInterface_Sender_RequestCancel ::
  "('j, 'd) ppi \<Rightarrow> 'j jobs \<Rightarrow> ('j, 'd) ppi \<times> 'j jobs" where
  "PacketPassInterface_Sender_RequestCancel i js =
     (if ppi_cancel_requested i then (i, js)
      else let i = i\<lparr>ppi_cancel_requested := True\<rparr> in
      if ppi_state i = STATE_OPERATION_PENDING then
        let js = BPending_Unset (ppi_job_operation i) js;
            js = BPending_Set (ppi_job_done i) js
        in (i\<lparr>ppi_state := STATE_DONE_PENDING\<rparr>, js)
      else if ppi_state i = STATE_BUSY then (i, BPending_Set (ppi_job_requestcancel i) js)
      else (i, js))"

definition PacketPassInterface_HasCancel :: "('j, 'd) ppi \<Rightarrow> bool" where
  "PacketPassInterface_HasCancel i \<longleftrightarrow> ppi_handler_requestcancel i"

text \<open>The job handlers: the new state, and for the operation what the provider is called with.\<close>

definition PacketPassInterface_job_operation :: "('j, 'd) ppi \<Rightarrow> ('j, 'd) ppi \<times> 'd \<times> int" where
  "PacketPassInterface_job_operation i =
     (i\<lparr>ppi_state := STATE_BUSY\<rparr>, ppi_job_operation_data i, ppi_job_operation_len i)"

definition PacketPassInterface_job_requestcancel :: "('j, 'd) ppi \<Rightarrow> ('j, 'd) ppi" where
  "PacketPassInterface_job_requestcancel i = i"

definition PacketPassInterface_job_done :: "('j, 'd) ppi \<Rightarrow> ('j, 'd) ppi" where
  "PacketPassInterface_job_done i = i\<lparr>ppi_state := STATE_NONE\<rparr>"


section \<open>PacketRecvInterface\<close>

record ('j, 'd) PacketRecvInterface =
  pri_mtu :: int
  pri_handler_done :: bool
  pri_job_operation :: 'j
  pri_job_operation_data :: 'd
  pri_job_done :: 'j
  pri_job_done_len :: int
  pri_state :: iface_state

type_synonym ('j, 'd) pri = "('j, 'd) PacketRecvInterface"

definition PacketRecvInterface_Init :: "int \<Rightarrow> ('j, 'd) pri \<Rightarrow> 'j jobs \<Rightarrow> ('j, 'd) pri \<times> 'j jobs" where
  "PacketRecvInterface_Init mtu i js =
     (let js = BPending_Init (pri_job_operation i) js;
          js = BPending_Init (pri_job_done i) js
      in (i\<lparr>pri_mtu := mtu, pri_handler_done := False, pri_state := STATE_NONE\<rparr>, js))"

definition PacketRecvInterface_Free :: "('j, 'd) pri \<Rightarrow> 'j jobs \<Rightarrow> 'j jobs" where
  "PacketRecvInterface_Free i js =
     BPending_Free (pri_job_operation i) (BPending_Free (pri_job_done i) js)"

definition PacketRecvInterface_Done ::
  "int \<Rightarrow> ('j, 'd) pri \<Rightarrow> 'j jobs \<Rightarrow> ('j, 'd) pri \<times> 'j jobs" where
  "PacketRecvInterface_Done data_len i js =
     (let js = BPending_Set (pri_job_done i) js
      in (i\<lparr>pri_job_done_len := data_len, pri_state := STATE_DONE_PENDING\<rparr>, js))"

definition PacketRecvInterface_GetMTU :: "('j, 'd) pri \<Rightarrow> int" where
  "PacketRecvInterface_GetMTU i = pri_mtu i"

definition PacketRecvInterface_Receiver_Init :: "('j, 'd) pri \<Rightarrow> ('j, 'd) pri" where
  "PacketRecvInterface_Receiver_Init i = i\<lparr>pri_handler_done := True\<rparr>"

definition PacketRecvInterface_Receiver_Recv ::
  "'d \<Rightarrow> ('j, 'd) pri \<Rightarrow> 'j jobs \<Rightarrow> ('j, 'd) pri \<times> 'j jobs" where
  "PacketRecvInterface_Receiver_Recv data i js =
     (let js = BPending_Set (pri_job_operation i) js
      in (i\<lparr>pri_job_operation_data := data, pri_state := STATE_OPERATION_PENDING\<rparr>, js))"

definition PacketRecvInterface_job_operation :: "('j, 'd) pri \<Rightarrow> ('j, 'd) pri \<times> 'd" where
  "PacketRecvInterface_job_operation i =
     (i\<lparr>pri_state := STATE_BUSY\<rparr>, pri_job_operation_data i)"

definition PacketRecvInterface_job_done :: "('j, 'd) pri \<Rightarrow> ('j, 'd) pri \<times> int" where
  "PacketRecvInterface_job_done i = (i\<lparr>pri_state := STATE_NONE\<rparr>, pri_job_done_len i)"


section \<open>StreamPassInterface\<close>

record ('j, 'd) StreamPassInterface =
  spi_handler_done :: bool
  spi_job_operation :: 'j
  spi_job_operation_data :: 'd
  spi_job_operation_len :: int
  spi_job_done :: 'j
  spi_job_done_len :: int
  spi_state :: iface_state

type_synonym ('j, 'd) spi = "('j, 'd) StreamPassInterface"

definition StreamPassInterface_Init :: "('j, 'd) spi \<Rightarrow> 'j jobs \<Rightarrow> ('j, 'd) spi \<times> 'j jobs" where
  "StreamPassInterface_Init i js =
     (let js = BPending_Init (spi_job_operation i) js;
          js = BPending_Init (spi_job_done i) js
      in (i\<lparr>spi_handler_done := False, spi_state := STATE_NONE\<rparr>, js))"

definition StreamPassInterface_Free :: "('j, 'd) spi \<Rightarrow> 'j jobs \<Rightarrow> 'j jobs" where
  "StreamPassInterface_Free i js =
     BPending_Free (spi_job_operation i) (BPending_Free (spi_job_done i) js)"

definition StreamPassInterface_Done ::
  "int \<Rightarrow> ('j, 'd) spi \<Rightarrow> 'j jobs \<Rightarrow> ('j, 'd) spi \<times> 'j jobs" where
  "StreamPassInterface_Done data_len i js =
     (let js = BPending_Set (spi_job_done i) js
      in (i\<lparr>spi_job_done_len := data_len, spi_state := STATE_DONE_PENDING\<rparr>, js))"

definition StreamPassInterface_Sender_Init :: "('j, 'd) spi \<Rightarrow> ('j, 'd) spi" where
  "StreamPassInterface_Sender_Init i = i\<lparr>spi_handler_done := True\<rparr>"

definition StreamPassInterface_Sender_Send ::
  "'d \<Rightarrow> int \<Rightarrow> ('j, 'd) spi \<Rightarrow> 'j jobs \<Rightarrow> ('j, 'd) spi \<times> 'j jobs" where
  "StreamPassInterface_Sender_Send data data_len i js =
     (let js = BPending_Set (spi_job_operation i) js
      in (i\<lparr>spi_job_operation_data := data, spi_job_operation_len := data_len,
            spi_state := STATE_OPERATION_PENDING\<rparr>, js))"

definition StreamPassInterface_job_operation :: "('j, 'd) spi \<Rightarrow> ('j, 'd) spi \<times> 'd \<times> int" where
  "StreamPassInterface_job_operation i =
     (i\<lparr>spi_state := STATE_BUSY\<rparr>, spi_job_operation_data i, spi_job_operation_len i)"

definition StreamPassInterface_job_done :: "('j, 'd) spi \<Rightarrow> ('j, 'd) spi \<times> int" where
  "StreamPassInterface_job_done i = (i\<lparr>spi_state := STATE_NONE\<rparr>, spi_job_done_len i)"


section \<open>StreamRecvInterface\<close>

record ('j, 'd) StreamRecvInterface =
  sri_handler_done :: bool
  sri_job_operation :: 'j
  sri_job_operation_data :: 'd
  sri_job_operation_len :: int
  sri_job_done :: 'j
  sri_job_done_len :: int
  sri_state :: iface_state

type_synonym ('j, 'd) sri = "('j, 'd) StreamRecvInterface"

definition StreamRecvInterface_Init :: "('j, 'd) sri \<Rightarrow> 'j jobs \<Rightarrow> ('j, 'd) sri \<times> 'j jobs" where
  "StreamRecvInterface_Init i js =
     (let js = BPending_Init (sri_job_operation i) js;
          js = BPending_Init (sri_job_done i) js
      in (i\<lparr>sri_handler_done := False, sri_state := STATE_NONE\<rparr>, js))"

definition StreamRecvInterface_Free :: "('j, 'd) sri \<Rightarrow> 'j jobs \<Rightarrow> 'j jobs" where
  "StreamRecvInterface_Free i js =
     BPending_Free (sri_job_operation i) (BPending_Free (sri_job_done i) js)"

definition StreamRecvInterface_Done ::
  "int \<Rightarrow> ('j, 'd) sri \<Rightarrow> 'j jobs \<Rightarrow> ('j, 'd) sri \<times> 'j jobs" where
  "StreamRecvInterface_Done data_len i js =
     (let js = BPending_Set (sri_job_done i) js
      in (i\<lparr>sri_job_done_len := data_len, sri_state := STATE_DONE_PENDING\<rparr>, js))"

definition StreamRecvInterface_Receiver_Init :: "('j, 'd) sri \<Rightarrow> ('j, 'd) sri" where
  "StreamRecvInterface_Receiver_Init i = i\<lparr>sri_handler_done := True\<rparr>"

definition StreamRecvInterface_Receiver_Recv ::
  "'d \<Rightarrow> int \<Rightarrow> ('j, 'd) sri \<Rightarrow> 'j jobs \<Rightarrow> ('j, 'd) sri \<times> 'j jobs" where
  "StreamRecvInterface_Receiver_Recv data data_len i js =
     (let js = BPending_Set (sri_job_operation i) js
      in (i\<lparr>sri_job_operation_data := data, sri_job_operation_len := data_len,
            sri_state := STATE_OPERATION_PENDING\<rparr>, js))"

definition StreamRecvInterface_job_operation :: "('j, 'd) sri \<Rightarrow> ('j, 'd) sri \<times> 'd \<times> int" where
  "StreamRecvInterface_job_operation i =
     (i\<lparr>sri_state := STATE_BUSY\<rparr>, sri_job_operation_data i, sri_job_operation_len i)"

definition StreamRecvInterface_job_done :: "('j, 'd) sri \<Rightarrow> ('j, 'd) sri \<times> int" where
  "StreamRecvInterface_job_done i = (i\<lparr>sri_state := STATE_NONE\<rparr>, sri_job_done_len i)"

lemmas [iface_defs] =
  PacketPassInterface_Init_def PacketPassInterface_Done_def PacketPassInterface_Sender_Send_def
  PacketPassInterface_Sender_RequestCancel_def PacketPassInterface_job_operation_def
  PacketPassInterface_job_requestcancel_def PacketPassInterface_job_done_def
  PacketPassInterface_Sender_Init_def PacketPassInterface_EnableCancel_def
  PacketPassInterface_GetMTU_def PacketPassInterface_HasCancel_def
  PacketRecvInterface_Init_def PacketRecvInterface_Done_def PacketRecvInterface_Receiver_Init_def
  PacketRecvInterface_Receiver_Recv_def PacketRecvInterface_job_operation_def
  PacketRecvInterface_job_done_def PacketRecvInterface_GetMTU_def
  StreamPassInterface_Init_def StreamPassInterface_Done_def StreamPassInterface_Sender_Init_def
  StreamPassInterface_Sender_Send_def StreamPassInterface_job_operation_def
  StreamPassInterface_job_done_def
  StreamRecvInterface_Init_def StreamRecvInterface_Done_def StreamRecvInterface_Receiver_Init_def
  StreamRecvInterface_Receiver_Recv_def StreamRecvInterface_job_operation_def
  StreamRecvInterface_job_done_def


section \<open>The operation protocol\<close>

text \<open>Which of its two jobs an interface may have in the queue in which state.\<close>

definition op_inv :: "iface_state \<Rightarrow> 'j \<Rightarrow> 'j \<Rightarrow> 'j jobs \<Rightarrow> bool" where
  "op_inv st jop jdone js \<longleftrightarrow>
     distinct js \<and> jop \<noteq> jdone \<and>
     (jop \<in> set js \<longleftrightarrow> st = STATE_OPERATION_PENDING) \<and>
     (jdone \<in> set js \<longleftrightarrow> st = STATE_DONE_PENDING)"

text \<open>
  The contract shared by the four interfaces: the user starts an operation, its job hands the
  operation to the provider, the provider finishes it, and the done job reports to the user.
\<close>

locale flow_interface =
  fixes ok :: "'i \<Rightarrow> bool"
    and st :: "'i \<Rightarrow> iface_state"
    and jop :: "'i \<Rightarrow> 'j"
    and jdone :: "'i \<Rightarrow> 'j"
    and start :: "'a \<Rightarrow> 'i \<Rightarrow> 'j jobs \<Rightarrow> 'i \<times> 'j jobs"
    and run_op :: "'i \<Rightarrow> 'i"
    and finish :: "'b \<Rightarrow> 'i \<Rightarrow> 'j jobs \<Rightarrow> 'i \<times> 'j jobs"
    and run_done :: "'i \<Rightarrow> 'i"
  assumes start_eff: "start a i js = (i', js') \<Longrightarrow>
      st i' = STATE_OPERATION_PENDING \<and> jop i' = jop i \<and> jdone i' = jdone i \<and>
      js' = BPending_Set (jop i) js"
    and run_op_eff: "st (run_op i) = STATE_BUSY \<and> jop (run_op i) = jop i \<and> jdone (run_op i) = jdone i"
    and finish_eff: "ok i \<Longrightarrow> distinct js \<Longrightarrow> jop i \<noteq> jdone i \<Longrightarrow> finish b i js = (i', js') \<Longrightarrow>
      st i' = STATE_DONE_PENDING \<and> jop i' = jop i \<and> jdone i' = jdone i \<and>
      distinct js' \<and> jdone i \<in> set js' \<and> (jop i \<in> set js' \<longleftrightarrow> jop i \<in> set js)"
    and run_done_eff: "st (run_done i) = STATE_NONE \<and> jop (run_done i) = jop i \<and> jdone (run_done i) = jdone i"
begin

lemma start_inv:
  assumes "op_inv (st i) (jop i) (jdone i) js" and "st i = STATE_NONE" and "start a i js = (i', js')"
  shows "op_inv (st i') (jop i') (jdone i') js'"
  using assms(1,2) start_eff [OF assms(3)] by (auto simp: op_inv_def job_simps)

lemma run_op_inv:
  assumes "op_inv (st i) (jop i) (jdone i) (jop i # js)"
  shows "st i = STATE_OPERATION_PENDING"
    "op_inv (st (run_op i)) (jop (run_op i)) (jdone (run_op i)) js"
  using assms run_op_eff [of i] by (auto simp: op_inv_def)

lemma finish_inv:
  assumes "op_inv (st i) (jop i) (jdone i) js" and "st i = STATE_BUSY" and "ok i"
    and "finish b i js = (i', js')"
  shows "op_inv (st i') (jop i') (jdone i') js'"
  using assms(1,2) finish_eff [OF assms(3) _ _ assms(4)] by (auto simp: op_inv_def job_simps)

lemma run_done_inv:
  assumes "op_inv (st i) (jop i) (jdone i) (jdone i # js)"
  shows "st i = STATE_DONE_PENDING"
    "op_inv (st (run_done i)) (jop (run_done i)) (jdone (run_done i)) js"
  using assms run_done_eff [of i] by (auto simp: op_inv_def)

end

interpretation pri: flow_interface "\<lambda>_. True" pri_state pri_job_operation pri_job_done
    PacketRecvInterface_Receiver_Recv "fst \<circ> PacketRecvInterface_job_operation"
    PacketRecvInterface_Done "fst \<circ> PacketRecvInterface_job_done"
  by unfold_locales (auto simp: iface_defs job_simps)

interpretation spi: flow_interface "\<lambda>_. True" spi_state spi_job_operation spi_job_done
    "\<lambda>(d, n). StreamPassInterface_Sender_Send d n" "fst \<circ> StreamPassInterface_job_operation"
    StreamPassInterface_Done "fst \<circ> StreamPassInterface_job_done"
  by unfold_locales (auto simp: iface_defs job_simps)

interpretation sri: flow_interface "\<lambda>_. True" sri_state sri_job_operation sri_job_done
    "\<lambda>(d, n). StreamRecvInterface_Receiver_Recv d n" "fst \<circ> StreamRecvInterface_job_operation"
    StreamRecvInterface_Done "fst \<circ> StreamRecvInterface_job_done"
  by unfold_locales (auto simp: iface_defs job_simps)

definition ppi_jobs_distinct :: "('j, 'd) ppi \<Rightarrow> bool" where
  "ppi_jobs_distinct i \<longleftrightarrow>
     distinct [ppi_job_operation i, ppi_job_requestcancel i, ppi_job_done i]"

interpretation ppi: flow_interface ppi_jobs_distinct ppi_state ppi_job_operation ppi_job_done
    "\<lambda>(d, n). PacketPassInterface_Sender_Send d n" "fst \<circ> PacketPassInterface_job_operation"
    "\<lambda>(_ :: unit). PacketPassInterface_Done" PacketPassInterface_job_done
  by unfold_locales (auto simp: iface_defs job_simps ppi_jobs_distinct_def)


section \<open>Runs of a PacketPassInterface with cancellation\<close>

definition ppi_inv :: "('j, 'd) ppi \<Rightarrow> 'j jobs \<Rightarrow> bool" where
  "ppi_inv i js \<longleftrightarrow>
     op_inv (ppi_state i) (ppi_job_operation i) (ppi_job_done i) js \<and> ppi_jobs_distinct i \<and>
     (ppi_job_requestcancel i \<in> set js \<longrightarrow>
        ppi_state i = STATE_BUSY \<and> ppi_cancel_requested i \<and> ppi_handler_requestcancel i)"

datatype 'd ppi_event =
  Ev_Send 'd int | Ev_RequestCancel | Ev_Done
| Ev_Job_operation 'd int | Ev_Job_requestcancel | Ev_Job_done

text \<open>
  One step: a call by the user or the provider that meets the assertions of the called function,
  the execution of one of the interface's jobs at the head of the queue, or anything that happens
  to the jobs of other objects.
\<close>

inductive ppi_step ::
  "('j, 'd) ppi \<times> 'j jobs \<Rightarrow> 'd ppi_event list \<Rightarrow> ('j, 'd) ppi \<times> 'j jobs \<Rightarrow> bool" where
  step_send: "ppi_state i = STATE_NONE \<Longrightarrow> ppi_handler_done i \<Longrightarrow> 0 \<le> n \<Longrightarrow> n \<le> ppi_mtu i \<Longrightarrow>
    ppi_step (i, js) [Ev_Send d n] (PacketPassInterface_Sender_Send d n i js)"
| step_requestcancel: "ppi_state i \<noteq> STATE_NONE \<Longrightarrow> ppi_handler_requestcancel i \<Longrightarrow>
    ppi_step (i, js) [Ev_RequestCancel] (PacketPassInterface_Sender_RequestCancel i js)"
| step_done: "ppi_state i = STATE_BUSY \<Longrightarrow>
    ppi_step (i, js) [Ev_Done] (PacketPassInterface_Done i js)"
| step_job_operation: "PacketPassInterface_job_operation i = (i', d, n) \<Longrightarrow>
    ppi_step (i, ppi_job_operation i # js) [Ev_Job_operation d n] (i', js)"
| step_job_requestcancel:
    "ppi_step (i, ppi_job_requestcancel i # js) [Ev_Job_requestcancel]
       (PacketPassInterface_job_requestcancel i, js)"
| step_job_done: "ppi_step (i, ppi_job_done i # js) [Ev_Job_done] (PacketPassInterface_job_done i, js)"
| step_other: "distinct js' \<Longrightarrow>
    (\<forall>j \<in> {ppi_job_operation i, ppi_job_requestcancel i, ppi_job_done i}. j \<in> set js' \<longleftrightarrow> j \<in> set js) \<Longrightarrow>
    ppi_step (i, js) [] (i, js')"

inductive ppi_run ::
  "('j, 'd) ppi \<times> 'j jobs \<Rightarrow> 'd ppi_event list \<Rightarrow> ('j, 'd) ppi \<times> 'j jobs \<Rightarrow> bool" where
  run_nil: "ppi_run s [] s"
| run_step: "ppi_run s tr s' \<Longrightarrow> ppi_step s' es s'' \<Longrightarrow> ppi_run s (tr @ es) s''"

inductive_cases ppi_stepE: "ppi_step (i, js) es s"

lemmas ppi_inv_simps = ppi_inv_def op_inv_def ppi_jobs_distinct_def iface_defs job_simps Let_def

lemma ppi_Send_inv:
  assumes "ppi_inv i js" and "ppi_state i = STATE_NONE"
    and "PacketPassInterface_Sender_Send d n i js = (i', js')"
  shows "ppi_inv i' js'"
proof -
  from assms(3) have "i' = fst (PacketPassInterface_Sender_Send d n i js)"
    "js' = snd (PacketPassInterface_Sender_Send d n i js)" by simp_all
  then show ?thesis using assms(1,2) by (auto simp: ppi_inv_simps)
qed

lemma ppi_RequestCancel_inv:
  assumes "ppi_inv i js" and "ppi_handler_requestcancel i"
    and "PacketPassInterface_Sender_RequestCancel i js = (i', js')"
  shows "ppi_inv i' js'"
proof -
  from assms(3) have eq: "i' = fst (PacketPassInterface_Sender_RequestCancel i js)"
    "js' = snd (PacketPassInterface_Sender_RequestCancel i js)" by simp_all
  show ?thesis
  proof (cases "ppi_state i")
    case STATE_OPERATION_PENDING
    then show ?thesis using assms(1,2) eq by (cases "ppi_cancel_requested i") (auto simp: ppi_inv_simps)
  next
    case STATE_BUSY
    then show ?thesis using assms(1,2) eq by (cases "ppi_cancel_requested i") (auto simp: ppi_inv_simps)
  qed (use assms(1,2) eq in \<open>simp_all add: ppi_inv_simps\<close>)
qed

lemma ppi_Done_inv:
  assumes "ppi_inv i js" and "ppi_state i = STATE_BUSY"
    and "PacketPassInterface_Done i js = (i', js')"
  shows "ppi_inv i' js'"
proof -
  from assms(3) have "i' = fst (PacketPassInterface_Done i js)"
    "js' = snd (PacketPassInterface_Done i js)" by simp_all
  then show ?thesis using assms(1,2) by (auto simp: ppi_inv_simps)
qed

lemma ppi_step_inv:
  assumes "ppi_step (i, js) es (i', js')" and "ppi_inv i js"
  shows "ppi_inv i' js'"
  using assms(1)
proof (cases rule: ppi_step.cases)
  case step_send
  then show ?thesis using assms(2) ppi_Send_inv by metis
next
  case step_requestcancel
  then show ?thesis using assms(2) ppi_RequestCancel_inv by metis
next
  case step_done
  then show ?thesis using assms(2) ppi_Done_inv by metis
qed (use assms(2) in \<open>auto simp: ppi_inv_simps\<close>)

text \<open>The number of operations started and not yet reported done.\<close>

definition outstanding :: "iface_state \<Rightarrow> nat" where
  "outstanding s = (if s = STATE_NONE then 0 else 1)"

definition is_send :: "'d ppi_event \<Rightarrow> bool" where
  "is_send e \<longleftrightarrow> (case e of Ev_Send _ _ \<Rightarrow> True | _ \<Rightarrow> False)"

lemma ppi_step_count:
  assumes "ppi_step (i, js) es (i', js')" and "ppi_inv i js"
  shows "length (filter is_send es) + outstanding (ppi_state i) =
    length (filter (\<lambda>e. e = Ev_Job_done) es) + outstanding (ppi_state i')"
  using assms(1)
proof (cases rule: ppi_step.cases)
qed (use assms(2) in \<open>auto simp: ppi_inv_def op_inv_def outstanding_def is_send_def iface_defs Let_def
  split: if_splits\<close>)

lemma ppi_run_inv:
  "ppi_run s tr s' \<Longrightarrow> ppi_inv (fst s) (snd s) \<Longrightarrow> ppi_inv (fst s') (snd s') \<and>
   length (filter is_send tr) + outstanding (ppi_state (fst s)) =
   length (filter (\<lambda>e. e = Ev_Job_done) tr) + outstanding (ppi_state (fst s'))"
proof (induction rule: ppi_run.induct)
  case (run_step s tr s' es s'')
  then show ?case
    using ppi_step_inv [of "fst s'" "snd s'" es "fst s''" "snd s''"]
      ppi_step_count [of "fst s'" "snd s'" es "fst s''" "snd s''"] by simp
qed simp

text \<open>
  What the trace says about the operation in progress: it is the last one sent, and when the
  provider has it and its cancellation was requested, the provider has been told since or will be.
\<close>

definition last_send :: "'d ppi_event list \<Rightarrow> 'd ppi_event option" where
  "last_send tr = find is_send (rev tr)"

definition told_cancel :: "'d ppi_event list \<Rightarrow> bool" where
  "told_cancel tr \<longleftrightarrow> Ev_Job_requestcancel \<in> set (takeWhile (\<lambda>e. \<not> is_send e) (rev tr))"

definition ppi_trace_inv :: "('j, 'd) ppi \<Rightarrow> 'j jobs \<Rightarrow> 'd ppi_event list \<Rightarrow> bool" where
  "ppi_trace_inv i js tr \<longleftrightarrow>
     (ppi_state i \<noteq> STATE_NONE \<longrightarrow> last_send tr = Some (Ev_Send (ppi_job_operation_data i) (ppi_job_operation_len i))) \<and>
     (ppi_state i = STATE_OPERATION_PENDING \<longrightarrow> \<not> ppi_cancel_requested i) \<and>
     (ppi_state i = STATE_BUSY \<and> ppi_cancel_requested i \<longrightarrow> ppi_job_requestcancel i \<in> set js \<or> told_cancel tr)"

definition operations_as_sent :: "'d ppi_event list \<Rightarrow> bool" where
  "operations_as_sent tr \<longleftrightarrow>
     (\<forall>us d n vs. tr = us @ Ev_Job_operation d n # vs \<longrightarrow> last_send us = Some (Ev_Send d n))"

lemma trace_snoc [simp]:
  "last_send (tr @ [e]) = (if is_send e then Some e else last_send tr)"
  "told_cancel (tr @ [e]) \<longleftrightarrow> \<not> is_send e \<and> (e = Ev_Job_requestcancel \<or> told_cancel tr)"
  by (auto simp: last_send_def told_cancel_def)

lemma operations_snoc:
  "operations_as_sent (tr @ [e]) \<longleftrightarrow> operations_as_sent tr \<and>
     (\<forall>d n. e = Ev_Job_operation d n \<longrightarrow> last_send tr = Some (Ev_Send d n))"
proof
  assume L: "operations_as_sent (tr @ [e])"
  then have "last_send us = Some (Ev_Send d n)" if "tr = us @ Ev_Job_operation d n # vs" for us d n vs
    using that unfolding operations_as_sent_def by (metis append.assoc append_Cons)
  with L show "operations_as_sent tr \<and> (\<forall>d n. e = Ev_Job_operation d n \<longrightarrow> last_send tr = Some (Ev_Send d n))"
    unfolding operations_as_sent_def by blast
next
  assume R: "operations_as_sent tr \<and> (\<forall>d n. e = Ev_Job_operation d n \<longrightarrow> last_send tr = Some (Ev_Send d n))"
  show "operations_as_sent (tr @ [e])"
    unfolding operations_as_sent_def
  proof (intro allI impI)
    fix us d n vs assume *: "tr @ [e] = us @ Ev_Job_operation d n # vs"
    show "last_send us = Some (Ev_Send d n)"
    proof (cases vs rule: rev_cases)
      case Nil
      then show ?thesis using * R by auto
    next
      case (snoc vs' x)
      then have "tr = us @ Ev_Job_operation d n # vs'" using * by auto
      then show ?thesis using R unfolding operations_as_sent_def by blast
    qed
  qed
qed

lemma ppi_step_trace:
  assumes "ppi_step (i, js) es (i', js')" and "ppi_inv i js" and "ppi_trace_inv i js tr" and "operations_as_sent tr"
  shows "ppi_trace_inv i' js' (tr @ es) \<and> operations_as_sent (tr @ es)"
  using assms(1)
proof (cases rule: ppi_step.cases)
  case step_other
  then show ?thesis using assms(3,4) by (auto simp: ppi_trace_inv_def)
next
  case step_requestcancel
  then show ?thesis using assms(2-4)
    by (cases "ppi_state i") (auto simp: ppi_trace_inv_def operations_snoc is_send_def iface_defs job_simps Let_def split: if_splits)
qed (use assms(2-4) in \<open>auto simp: ppi_trace_inv_def ppi_inv_def op_inv_def operations_snoc is_send_def iface_defs
  job_simps Let_def split: if_splits\<close>)

lemma ppi_run_trace:
  "ppi_run s tr s' \<Longrightarrow> ppi_inv (fst s) (snd s) \<Longrightarrow> ppi_state (fst s) = STATE_NONE \<Longrightarrow>
   ppi_trace_inv (fst s') (snd s') tr \<and> operations_as_sent tr"
proof (induction rule: ppi_run.induct)
  case (run_nil s)
  then show ?case by (simp add: ppi_trace_inv_def operations_as_sent_def)
next
  case (run_step s tr s' es s'')
  have "ppi_inv (fst s') (snd s')" using ppi_run_inv [OF run_step.hyps(1) run_step.prems(1)] by simp
  then show ?case using run_step ppi_step_trace [of "fst s'" "snd s'" es "fst s''" "snd s''" tr] by simp
qed

text \<open>The assertions at the head of the three job handlers.\<close>

definition ppi_job_asserts :: "('j, 'd) ppi \<Rightarrow> 'j \<Rightarrow> bool" where
  "ppi_job_asserts i j \<longleftrightarrow>
     (j = ppi_job_operation i \<longrightarrow> ppi_state i = STATE_OPERATION_PENDING) \<and>
     (j = ppi_job_requestcancel i \<longrightarrow>
        ppi_state i = STATE_BUSY \<and> ppi_cancel_requested i \<and> ppi_handler_requestcancel i) \<and>
     (j = ppi_job_done i \<longrightarrow> ppi_state i = STATE_DONE_PENDING)"


text \<open>A packet sent and cancelled before the provider saw it: one callback.\<close>

definition example_ppi :: "(nat, unit) ppi" where
  "example_ppi = \<lparr>ppi_mtu = 0, ppi_handler_requestcancel = False, ppi_handler_done = False,
     ppi_job_operation = 0, ppi_job_operation_data = (), ppi_job_operation_len = 0,
     ppi_job_requestcancel = 1, ppi_job_done = 2, ppi_state = STATE_BUSY,
     ppi_cancel_requested = False\<rparr>"


end
