(* ===== verification/PacketBuffer.thy ===== *)
theory PacketBuffer
  imports ChunkBuffer FlowInterfaces
begin

text \<open>
  The packet buffer component of \<open>flow/PacketBuffer.c\<close>: it receives packets from a
  \<open>PacketRecvInterface\<close> into a circular buffer and sends them to a \<open>PacketPassInterface\<close>.
  The interfaces' data pointers are offsets into the buffer's memory.  The environment is the
  provider of the input, which stores bytes at the address it was given, in any number of steps,
  and then reports the packet's length, and the provider of the output, which reads the packet it
  was given.
\<close>

section \<open>PacketBuffer.c\<close>

record 'j PacketBuffer =
  pb_input :: "('j, int option) pri"
  pb_input_mtu :: int
  pb_output :: "('j, int option) ppi"
  pb_buf :: ChunkBuffer2

type_synonym 'j pb_world = "'j PacketBuffer \<times> 'j jobs"

text \<open>\<open>PacketRecvInterface_Receiver_Recv(buf->input, buf->buf.input_dest)\<close>\<close>

definition pb_recv :: "'j pb_world \<Rightarrow> 'j pb_world" where
  "pb_recv = (\<lambda>(pb, js).
     let (i, js) = PacketRecvInterface_Receiver_Recv (cb_input_dest (pb_buf pb)) (pb_input pb) js
     in (pb\<lparr>pb_input := i\<rparr>, js))"

text \<open>\<open>PacketPassInterface_Sender_Send(buf->output, buf->buf.output_dest, buf->buf.output_avail)\<close>\<close>

definition pb_send :: "'j pb_world \<Rightarrow> 'j pb_world" where
  "pb_send = (\<lambda>(pb, js).
     let (i, js) = PacketPassInterface_Sender_Send (cb_output_dest (pb_buf pb))
           (cb_output_avail (pb_buf pb)) (pb_output pb) js
     in (pb\<lparr>pb_output := i\<rparr>, js))"

definition input_handler_done :: "int \<Rightarrow> 'j pb_world \<Rightarrow> 'j pb_world" where
  "input_handler_done in_len = (\<lambda>(pb, js).
     let was_empty = (cb_output_avail (pb_buf pb) < 0);
         pb = pb\<lparr>pb_buf := ChunkBuffer2_SubmitPacket in_len (pb_buf pb)\<rparr>;
         w = (if cb_input_avail (pb_buf pb) \<ge> pb_input_mtu pb then pb_recv (pb, js) else (pb, js))
     in if was_empty then pb_send w else w)"

definition output_handler_done :: "'j pb_world \<Rightarrow> 'j pb_world" where
  "output_handler_done = (\<lambda>(pb, js).
     let was_full = (cb_input_avail (pb_buf pb) < pb_input_mtu pb);
         pb = pb\<lparr>pb_buf := ChunkBuffer2_ConsumePacket (pb_buf pb)\<rparr>;
         w = (if was_full \<and> cb_input_avail (pb_buf pb) \<ge> pb_input_mtu pb
              then pb_recv (pb, js) else (pb, js))
     in if cb_output_avail (pb_buf (fst w)) \<ge> 0 then pb_send w else w)"

text \<open>
  \<open>malloc\<close> is the allocator: the memory for a request of so many bytes, or nothing.
\<close>

definition PacketBuffer_Init ::
  "(u64 \<Rightarrow> byte list option) \<Rightarrow> int \<Rightarrow> 'j pb_world \<Rightarrow> 'j pb_world option" where
  "PacketBuffer_Init malloc num_packets = (\<lambda>(pb, js).
     let pb = pb\<lparr>pb_input := PacketRecvInterface_Receiver_Init (pb_input pb)\<rparr>;
         pb = pb\<lparr>pb_input_mtu := PacketRecvInterface_GetMTU (pb_input pb)\<rparr>;
         pb = pb\<lparr>pb_output := PacketPassInterface_Sender_Init (pb_output pb)\<rparr>;
         num_blocks = ChunkBuffer2_calc_blocks (pb_input_mtu pb) num_packets
     in if num_blocks < 0 then None
        else case BAllocArray (of_int num_blocks) (of_int sizeof_block) of
          None \<Rightarrow> None
        | Some n \<Rightarrow>
            (case malloc n of
               None \<Rightarrow> None
             | Some buf_data \<Rightarrow>
                 let pb = pb\<lparr>pb_buf := ChunkBuffer2_Init buf_data num_blocks (pb_input_mtu pb) (pb_buf pb)\<rparr>
                 in Some (pb_recv (pb, js))))"


section \<open>Runs\<close>

text \<open>
  The steps of a packet buffer in its environment, with the packets that enter (when the input
  provider reports them) and leave (when the output provider is given them).
\<close>

definition pb_at :: "int option \<Rightarrow> int \<Rightarrow> 'j PacketBuffer \<Rightarrow> byte list" where
  "pb_at p n pb = slice (nat (the p)) (nat n) (cb_buffer (pb_buf pb))"

definition pb_store :: "byte list \<Rightarrow> 'j PacketBuffer \<Rightarrow> 'j PacketBuffer" where
  "pb_store d pb = pb\<lparr>pb_buf := (pb_buf pb)\<lparr>cb_buffer :=
     splice (nat (the (pri_job_operation_data (pb_input pb)))) d (cb_buffer (pb_buf pb))\<rparr>\<rparr>"

inductive pb_step :: "'j pb_world \<Rightarrow> byte list list \<Rightarrow> byte list list \<Rightarrow> 'j pb_world \<Rightarrow> bool" where
  input_store: "pri_state (pb_input pb) = STATE_BUSY \<Longrightarrow> int (length d) \<le> pb_input_mtu pb \<Longrightarrow>
    pb_step (pb, js) [] [] (pb_store d pb, js)"
| input_ready: "pri_state (pb_input pb) = STATE_BUSY \<Longrightarrow> 0 \<le> len \<Longrightarrow> len \<le> pb_input_mtu pb \<Longrightarrow>
    PacketRecvInterface_Done len (pb_input pb) js = (i, js') \<Longrightarrow>
    pb_step (pb, js) [pb_at (pri_job_operation_data (pb_input pb)) len pb] [] (pb\<lparr>pb_input := i\<rparr>, js')"
| output_ready: "ppi_state (pb_output pb) = STATE_BUSY \<Longrightarrow>
    PacketPassInterface_Done (pb_output pb) js = (i, js') \<Longrightarrow>
    pb_step (pb, js) [] [] (pb\<lparr>pb_output := i\<rparr>, js')"
| input_op: "PacketRecvInterface_job_operation (pb_input pb) = (i, p) \<Longrightarrow>
    pb_step (pb, pri_job_operation (pb_input pb) # js) [] [] (pb\<lparr>pb_input := i\<rparr>, js)"
| input_done: "PacketRecvInterface_job_done (pb_input pb) = (i, len) \<Longrightarrow>
    pb_step (pb, pri_job_done (pb_input pb) # js) [] [] (input_handler_done len (pb\<lparr>pb_input := i\<rparr>, js))"
| output_op: "PacketPassInterface_job_operation (pb_output pb) = (i, p, n) \<Longrightarrow>
    pb_step (pb, ppi_job_operation (pb_output pb) # js) [] [pb_at p n pb] (pb\<lparr>pb_output := i\<rparr>, js)"
| output_done: "PacketPassInterface_job_done (pb_output pb) = i \<Longrightarrow>
    pb_step (pb, ppi_job_done (pb_output pb) # js) [] [] (output_handler_done (pb\<lparr>pb_output := i\<rparr>, js))"

inductive pb_run :: "'j pb_world \<Rightarrow> byte list list \<Rightarrow> byte list list \<Rightarrow> 'j pb_world \<Rightarrow> bool" where
  pb_nil: "pb_run w [] [] w"
| pb_snoc: "pb_run w ins outs w' \<Longrightarrow> pb_step w' i o' w'' \<Longrightarrow> pb_run w (ins @ i) (outs @ o') w''"


section \<open>Invariant\<close>

definition pb_jobs :: "('j, 'd) pri \<Rightarrow> ('j, 'd) ppi \<Rightarrow> 'j list" where
  "pb_jobs i out = [pri_job_operation i, pri_job_done i, ppi_job_operation out, ppi_job_done out,
     ppi_job_requestcancel out]"

definition pb_queue :: "('j, 'd) pri \<Rightarrow> ('j, 'd) ppi \<Rightarrow> 'j jobs \<Rightarrow> bool" where
  "pb_queue i out js \<longleftrightarrow>
     distinct js \<and> distinct (pb_jobs i out) \<and>
     (pri_job_operation i \<in> set js \<longleftrightarrow> pri_state i = STATE_OPERATION_PENDING) \<and>
     (pri_job_done i \<in> set js \<longleftrightarrow> pri_state i = STATE_DONE_PENDING) \<and>
     (ppi_job_operation out \<in> set js \<longleftrightarrow> ppi_state out = STATE_OPERATION_PENDING) \<and>
     (ppi_job_done out \<in> set js \<longleftrightarrow> ppi_state out = STATE_DONE_PENDING) \<and>
     ppi_job_requestcancel out \<notin> set js"

definition pb_sized :: "int \<Rightarrow> 'j PacketBuffer \<Rightarrow> bool" where
  "pb_sized num pb \<longleftrightarrow>
     0 < num \<and> 0 \<le> pb_input_mtu pb \<and> pb_input_mtu pb \<le> INT_MAX \<and>
     cb_mtu (pb_buf pb) = bdivide_up_block (pb_input_mtu pb) \<and>
     (1 + (pb_input_mtu pb + 3) div 4) * (num + 1) \<le> cb_size (pb_buf pb)"

text \<open>
  A receive operation is outstanding exactly when a whole packet fits, and addresses the offered
  memory; \<open>inp\<close> is the packet reported but not yet submitted.  With the flag set, the operation
  still has to be started.
\<close>

definition recv_ok :: "bool \<Rightarrow> 'j PacketBuffer \<Rightarrow> byte list list \<Rightarrow> bool" where
  "recv_ok start pb inp \<longleftrightarrow>
     (if start
      then pri_state (pb_input pb) = STATE_NONE \<and> pb_input_mtu pb \<le> cb_input_avail (pb_buf pb) \<and> inp = []
      else (pri_state (pb_input pb) \<noteq> STATE_NONE \<longleftrightarrow> pb_input_mtu pb \<le> cb_input_avail (pb_buf pb)) \<and>
        (pri_state (pb_input pb) \<noteq> STATE_NONE \<longrightarrow>
           pri_job_operation_data (pb_input pb) = cb_input_dest (pb_buf pb)) \<and>
        (if pri_state (pb_input pb) = STATE_DONE_PENDING
         then 0 \<le> pri_job_done_len (pb_input pb) \<and> pri_job_done_len (pb_input pb) \<le> pb_input_mtu pb \<and>
              inp = [pb_at (cb_input_dest (pb_buf pb)) (pri_job_done_len (pb_input pb)) pb]
         else inp = []))"

text \<open>A send operation is outstanding exactly when there is a packet, and addresses the first one.\<close>

definition send_ok :: "bool \<Rightarrow> 'j PacketBuffer \<Rightarrow> byte list list \<Rightarrow> bool" where
  "send_ok start pb ps \<longleftrightarrow>
     (if start then ppi_state (pb_output pb) = STATE_NONE \<and> ps \<noteq> []
      else (ppi_state (pb_output pb) \<noteq> STATE_NONE \<longleftrightarrow> ps \<noteq> []) \<and>
        (ppi_state (pb_output pb) \<noteq> STATE_NONE \<longrightarrow>
           ppi_job_operation_data (pb_output pb) = cb_output_dest (pb_buf pb) \<and>
           ppi_job_operation_len (pb_output pb) = cb_output_avail (pb_buf pb)))"

text \<open>The buffer holds \<open>ps\<close>; the flags say which operations are still to be started.\<close>

definition pb_mid :: "int \<Rightarrow> 'j pb_world \<Rightarrow> byte list list \<Rightarrow> byte list list \<Rightarrow> bool \<Rightarrow> bool \<Rightarrow> bool" where
  "pb_mid num w ps inp recv send \<longleftrightarrow>
     cb_rep (pb_buf (fst w)) ps \<and> pb_sized num (fst w) \<and>
     (\<forall>p\<in>set ps. int (length p) \<le> pb_input_mtu (fst w)) \<and>
     pb_queue (pb_input (fst w)) (pb_output (fst w)) (snd w) \<and>
     recv_ok recv (fst w) inp \<and> send_ok send (fst w) ps"

definition pb_inv :: "int \<Rightarrow> 'j pb_world \<Rightarrow> byte list list \<Rightarrow> byte list list \<Rightarrow> bool" where
  "pb_inv num w ps inp \<longleftrightarrow> pb_mid num w ps inp False False"

text \<open>The packets that have left the buffer, and the one being sent.\<close>

definition in_flight :: "iface_state \<Rightarrow> byte list list \<Rightarrow> byte list list" where
  "in_flight st ps = (if st \<in> {STATE_BUSY, STATE_DONE_PENDING} then [hd ps] else [])"

lemma cb_output:
  assumes "cb_rep b ps"
  shows "cb_output_avail b < 0 \<longleftrightarrow> ps = []"
    "ps \<noteq> [] \<Longrightarrow> \<exists>q. cb_output_dest b = Some q \<and>
       slice (nat q) (nat (cb_output_avail b)) (cb_buffer b) = hd ps"
proof -
  have "cb_output_avail b < 0 \<longleftrightarrow> cb_used b = 0" using cb_rep_facts(4,6) [OF assms]
    by (auto simp: io_out_def ChunkBuffer2_assert_buffer_def split: if_splits)
  then show "cb_output_avail b < 0 \<longleftrightarrow> ps = []" using cb_rep_facts(10) [OF assms] by simp
  assume "ps \<noteq> []"
  then obtain p qs where "ps = p # qs" by (cases ps) auto
  then show "\<exists>q. cb_output_dest b = Some q \<and> slice (nat q) (nat (cb_output_avail b)) (cb_buffer b) = hd ps"
    using cb_rep_consume(2) [of b p qs] assms by (auto simp: cb_read_output_def split: option.splits)
qed

text \<open>With a whole packet fitting, the packet already lying in the offered memory can be submitted.\<close>

lemma splice_self: "off + n \<le> length m \<Longrightarrow> splice off (slice off n m) m = m"
  by (rule nth_equalityI) (auto simp: nth_splice)

lemma cb_rep_submit_stored:
  assumes "cb_rep b ps" and "mtu \<le> cb_input_avail b" and "0 \<le> len" and "len \<le> mtu"
  shows "cb_rep (ChunkBuffer2_SubmitPacket len b)
    (ps @ [slice (nat (the (cb_input_dest b))) (nat len) (cb_buffer b)])"
proof -
  obtain q where q: "cb_input_dest b = Some q" using cb_room_dest [OF assms(1)] assms by force
  note I = input_dest_free [OF assms(1) q]
  let ?d = "slice (nat q) (nat len) (cb_buffer b)"
  have "nat q + nat len \<le> length (cb_buffer b)"
    using free_bounds [OF assms(1) I(1)] cb_rep_facts(1) [OF assms(1)] I assms(2-4) by simp
  then have d: "length ?d = nat len" "cb_write_input ?d b = b"
    by (simp_all add: cb_write_input_def q splice_self)
  then have "cb_rep (ChunkBuffer2_SubmitPacket len b) (ps @ [take (nat len) ?d])"
    using cb_rep_submit [OF assms(1) q assms(3), of ?d] assms by simp
  then show ?thesis using d(1) q by simp
qed

lemma submit_output_same:
  assumes "cb_rep b ps" and "cb_rep (ChunkBuffer2_SubmitPacket len b) (ps @ [p])" and "ps \<noteq> []"
  shows "cb_output_dest (ChunkBuffer2_SubmitPacket len b) = cb_output_dest b"
    "cb_output_avail (ChunkBuffer2_SubmitPacket len b) = cb_output_avail b"
proof -
  obtain r qs where ps: "ps = r # qs" using assms(3) by (cases ps) auto
  let ?b = "ChunkBuffer2_SubmitPacket len b"
  have start: "cb_start ?b = cb_start b" by (simp add: ChunkBuffer2_SubmitPacket_def Let_def)
  note A = cb_rep_facts [OF assms(1)] and B = cb_rep_facts [OF assms(2)]
  have "block_len (cb_buffer b) (cb_start b) = int (length r)"
    "block_len (cb_buffer ?b) (cb_start ?b) = int (length r)"
    using packets_head(1) [of b r qs] packets_head(1) [of ?b r "qs @ [p]"] A(4,7) B(4,7) ps by simp_all
  then show "cb_output_dest ?b = cb_output_dest b" "cb_output_avail ?b = cb_output_avail b"
    using A(4,6,10) B(4,6,10) start ps
    by (auto simp: io_out_def ChunkBuffer2_assert_buffer_def split: if_splits)
qed

lemma consume_input_same:
  assumes "cb_rep b (p # ps)" and "0 \<le> cb_input_avail b"
  shows "cb_input_dest (ChunkBuffer2_ConsumePacket b) = cb_input_dest b"
    "cb_input_avail b \<le> cb_input_avail (ChunkBuffer2_ConsumePacket b)"
    "cb_buffer (ChunkBuffer2_ConsumePacket b) = cb_buffer b"
proof -
  show "cb_buffer (ChunkBuffer2_ConsumePacket b) = cb_buffer b"
    by (simp add: ChunkBuffer2_ConsumePacket_def Let_def)
  show "cb_input_dest (ChunkBuffer2_ConsumePacket b) = cb_input_dest b"
    "cb_input_avail b \<le> cb_input_avail (ChunkBuffer2_ConsumePacket b)"
    using cb_input [OF assms(1)] cb_input [OF cb_rep_consume(1) [OF assms(1)]]
      cb_rep_consume(3,4) [OF assms(1)] assms(2)
    by (auto split: if_splits)
qed

text \<open>The two interfaces in one job queue.\<close>

lemma pb_queue_recv:
  "pb_queue i out js \<Longrightarrow> pri_state i = STATE_NONE \<Longrightarrow>
   PacketRecvInterface_Receiver_Recv d i js = (i', js') \<Longrightarrow> pb_queue i' out js'"
  by (auto simp: pb_queue_def pb_jobs_def iface_defs job_simps)

lemma pb_queue_recv_done:
  "pb_queue i out js \<Longrightarrow> pri_state i = STATE_BUSY \<Longrightarrow>
   PacketRecvInterface_Done n i js = (i', js') \<Longrightarrow> pb_queue i' out js'"
  by (auto simp: pb_queue_def pb_jobs_def iface_defs job_simps)

lemma pb_queue_send:
  "pb_queue i out js \<Longrightarrow> ppi_state out = STATE_NONE \<Longrightarrow>
   PacketPassInterface_Sender_Send d n out js = (out', js') \<Longrightarrow> pb_queue i out' js'"
  by (auto simp: pb_queue_def pb_jobs_def iface_defs job_simps)

lemma pb_queue_send_done:
  "pb_queue i out js \<Longrightarrow> ppi_state out = STATE_BUSY \<Longrightarrow>
   PacketPassInterface_Done out js = (out', js') \<Longrightarrow> pb_queue i out' js'"
  by (auto simp: pb_queue_def pb_jobs_def iface_defs job_simps)

lemma pb_queue_jobs:
  "pb_queue i out (pri_job_operation i # js) \<Longrightarrow> pri_state i = STATE_OPERATION_PENDING \<and>
     pb_queue (i\<lparr>pri_state := STATE_BUSY\<rparr>) out js"
  "pb_queue i out (pri_job_done i # js) \<Longrightarrow> pri_state i = STATE_DONE_PENDING \<and>
     pb_queue (i\<lparr>pri_state := STATE_NONE\<rparr>) out js"
  "pb_queue i out (ppi_job_operation out # js) \<Longrightarrow> ppi_state out = STATE_OPERATION_PENDING \<and>
     pb_queue i (out\<lparr>ppi_state := STATE_BUSY\<rparr>) js"
  "pb_queue i out (ppi_job_done out # js) \<Longrightarrow> ppi_state out = STATE_DONE_PENDING \<and>
     pb_queue i (out\<lparr>ppi_state := STATE_NONE\<rparr>) js"
  by (auto simp: pb_queue_def pb_jobs_def)

text \<open>The handlers keep the invariant.\<close>

lemma pb_recv_eq:
  "pb_recv (pb, js) =
   (pb\<lparr>pb_input := (pb_input pb)\<lparr>pri_job_operation_data := cb_input_dest (pb_buf pb),
      pri_state := STATE_OPERATION_PENDING\<rparr>\<rparr>, BPending_Set (pri_job_operation (pb_input pb)) js)"
  by (simp add: pb_recv_def PacketRecvInterface_Receiver_Recv_def)

lemma pb_send_eq:
  "pb_send (pb, js) =
   (pb\<lparr>pb_output := (pb_output pb)\<lparr>ppi_job_operation_data := cb_output_dest (pb_buf pb),
      ppi_job_operation_len := cb_output_avail (pb_buf pb),
      ppi_state := STATE_OPERATION_PENDING, ppi_cancel_requested := False\<rparr>\<rparr>,
    BPending_Set (ppi_job_operation (pb_output pb)) js)"
  by (simp add: pb_send_def PacketPassInterface_Sender_Send_def)

lemma pb_mid_recv: "pb_mid num (pb, js) ps inp True s \<Longrightarrow> pb_mid num (pb_recv (pb, js)) ps inp False s"
  using pb_queue_recv [of "pb_input pb" "pb_output pb" js "cb_input_dest (pb_buf pb)"]
  by (simp add: pb_mid_def pb_recv_eq pb_sized_def recv_ok_def send_ok_def
      PacketRecvInterface_Receiver_Recv_def)

lemma pb_mid_send: "pb_mid num (pb, js) ps inp False True \<Longrightarrow> pb_inv num (pb_send (pb, js)) ps inp"
  using pb_queue_send [of "pb_input pb" "pb_output pb" js "cb_output_dest (pb_buf pb)"]
  by (simp add: pb_inv_def pb_mid_def pb_send_eq pb_sized_def recv_ok_def send_ok_def pb_at_def
      PacketPassInterface_Sender_Send_def)

lemma input_handler_done_inv:
  assumes "pb_inv num (pb, pri_job_done (pb_input pb) # js) ps inp"
    and "PacketRecvInterface_job_done (pb_input pb) = (i, len)"
  shows "pb_inv num (input_handler_done len (pb\<lparr>pb_input := i\<rparr>, js)) (ps @ inp) [] \<and>
    (ps \<noteq> [] \<longrightarrow> ppi_state (pb_output (fst (input_handler_done len (pb\<lparr>pb_input := i\<rparr>, js)))) =
       ppi_state (pb_output pb)) \<and>
    (ps = [] \<longrightarrow> ppi_state (pb_output (fst (input_handler_done len (pb\<lparr>pb_input := i\<rparr>, js)))) =
       STATE_OPERATION_PENDING)"
proof -
  define b where "b = ChunkBuffer2_SubmitPacket len (pb_buf pb)"
  define pb1 where "pb1 = pb\<lparr>pb_input := i, pb_buf := b\<rparr>"
  note Q = pb_queue_jobs(2) [of "pb_input pb" "pb_output pb" js]
  have I: "cb_rep (pb_buf pb) ps" "pb_sized num pb" "\<forall>p\<in>set ps. int (length p) \<le> pb_input_mtu pb"
    "pri_state (pb_input pb) = STATE_DONE_PENDING" "pb_queue i (pb_output pb) js"
    "pb_input_mtu pb \<le> cb_input_avail (pb_buf pb)" "0 \<le> len" "len \<le> pb_input_mtu pb"
    "inp = [pb_at (cb_input_dest (pb_buf pb)) len pb]" "pri_state i = STATE_NONE"
    "ppi_state (pb_output pb) \<noteq> STATE_NONE \<longleftrightarrow> ps \<noteq> []"
    "ppi_state (pb_output pb) \<noteq> STATE_NONE \<longrightarrow>
         ppi_job_operation_data (pb_output pb) = cb_output_dest (pb_buf pb) \<and>
         ppi_job_operation_len (pb_output pb) = cb_output_avail (pb_buf pb)"
    using assms Q by (auto simp: pb_inv_def pb_mid_def recv_ok_def send_ok_def PacketRecvInterface_job_done_def)
  have rep: "cb_rep b (ps @ inp)"
    using cb_rep_submit_stored [OF I(1,6,7,8)] I(9) by (simp add: b_def pb_at_def)
  have len: "\<forall>p\<in>set inp. int (length p) \<le> pb_input_mtu pb"
    using I(7-9) by (auto simp: pb_at_def)
  have out: "ps \<noteq> [] \<Longrightarrow> cb_output_dest b = cb_output_dest (pb_buf pb) \<and>
      cb_output_avail b = cb_output_avail (pb_buf pb)"
    using submit_output_same [OF I(1)] rep I(9) by (simp add: b_def)
  have sized: "pb_sized num pb1" using I(2) by (simp add: pb_sized_def pb1_def b_def)
  have mid: "pb_mid num (pb1, js) (ps @ inp) [] (pb_input_mtu pb \<le> cb_input_avail b) (ps = [])"
    using rep len I(3,5,9-12) out sized by (auto simp: pb_mid_def recv_ok_def send_ok_def pb1_def)
  define w where "w = (if pb_input_mtu pb \<le> cb_input_avail b then pb_recv (pb1, js) else (pb1, js))"
  have mid2: "pb_mid num w (ps @ inp) [] False (ps = [])"
    using mid pb_mid_recv [of num pb1 js] by (cases "pb_input_mtu pb \<le> cb_input_avail b") (auto simp: w_def)
  have hand: "input_handler_done len (pb\<lparr>pb_input := i\<rparr>, js) = (if ps = [] then pb_send w else w)"
    using cb_output(1) [OF I(1)] by (simp add: input_handler_done_def Let_def w_def pb1_def b_def)
  have "pb_inv num (if ps = [] then pb_send w else w) (ps @ inp) []"
    using mid2 pb_mid_send [of num "fst w" "snd w"]
    by (cases "ps = []") (auto simp: pb_inv_def)
  moreover have "ppi_state (pb_output (fst w)) = ppi_state (pb_output pb)"
    by (simp add: w_def pb_recv_eq pb1_def)
  moreover have "ppi_state (pb_output (fst (pb_send w))) = STATE_OPERATION_PENDING"
    by (cases w) (simp add: pb_send_eq)
  ultimately show ?thesis by (simp add: hand)
qed

lemma output_handler_done_inv:
  assumes "pb_inv num (pb, ppi_job_done (pb_output pb) # js) ps inp"
    and "PacketPassInterface_job_done (pb_output pb) = out"
  shows "\<exists>p qs. ps = p # qs \<and> pb_inv num (output_handler_done (pb\<lparr>pb_output := out\<rparr>, js)) qs inp \<and>
    ppi_state (pb_output (fst (output_handler_done (pb\<lparr>pb_output := out\<rparr>, js)))) \<notin>
      {STATE_BUSY, STATE_DONE_PENDING}"
proof -
  note Q = pb_queue_jobs(4) [of "pb_input pb" "pb_output pb" js]
  have I: "cb_rep (pb_buf pb) ps" "pb_sized num pb" "\<forall>p\<in>set ps. int (length p) \<le> pb_input_mtu pb"
    "ppi_state (pb_output pb) = STATE_DONE_PENDING" "pb_queue (pb_input pb) out js"
    "ppi_state out = STATE_NONE" "recv_ok False pb inp" "ps \<noteq> []" "0 \<le> pb_input_mtu pb"
    using assms Q
    by (auto simp: pb_inv_def pb_mid_def send_ok_def pb_sized_def PacketPassInterface_job_done_def)
  obtain p qs where ps: "ps = p # qs" using I(8) by (cases ps) auto
  define b where "b = ChunkBuffer2_ConsumePacket (pb_buf pb)"
  define pb1 where "pb1 = pb\<lparr>pb_output := out, pb_buf := b\<rparr>"
  define full where "full \<longleftrightarrow> cb_input_avail (pb_buf pb) < pb_input_mtu pb"
  define recv where "recv \<longleftrightarrow> full \<and> pb_input_mtu pb \<le> cb_input_avail b"
  have rep: "cb_rep b qs" using cb_rep_consume(1) I(1) ps by (simp add: b_def)
  have sized: "pb_sized num pb1" using I(2) by (simp add: pb_sized_def pb1_def b_def)
  have "recv_ok recv pb1 inp"
  proof (cases full)
    case True
    then show ?thesis using I(7) by (auto simp: recv_ok_def recv_def pb1_def full_def split: if_splits)
  next
    case False
    then have "0 \<le> cb_input_avail (pb_buf pb)" using I(9) by (simp add: full_def)
    note C = consume_input_same [OF I(1)[unfolded ps] this]
    then show ?thesis using I(7) False
      by (auto simp: recv_ok_def recv_def pb1_def full_def b_def pb_at_def split: if_splits)
  qed
  then have mid: "pb_mid num (pb1, js) qs inp recv (qs \<noteq> [])"
    using rep sized I(3,5,6) ps by (auto simp: pb_mid_def send_ok_def pb1_def)
  define w where "w = (if recv then pb_recv (pb1, js) else (pb1, js))"
  have mid2: "pb_mid num w qs inp False (qs \<noteq> [])"
    using mid pb_mid_recv [of num pb1 js] by (cases recv) (auto simp: w_def)
  have buf: "pb_buf (fst w) = b" "ppi_state (pb_output (fst w)) = STATE_NONE"
    using I(6) by (simp_all add: w_def pb_recv_eq pb1_def)
  have hand: "output_handler_done (pb\<lparr>pb_output := out\<rparr>, js) = (if qs \<noteq> [] then pb_send w else w)"
    using cb_output(1) [OF rep] buf(1)
    by (auto simp: output_handler_done_def Let_def w_def recv_def full_def pb1_def b_def)
  have "pb_inv num (if qs \<noteq> [] then pb_send w else w) qs inp"
    using mid2 pb_mid_send [of num "fst w" "snd w"] by (cases "qs = []") (auto simp: pb_inv_def)
  moreover have "ppi_state (pb_output (fst (pb_send w))) = STATE_OPERATION_PENDING"
    by (cases w) (simp add: pb_send_eq)
  ultimately show ?thesis using ps buf(2) by (auto simp: hand)
qed

lemma input_store_inv:
  assumes "pb_inv num (pb, js) ps inp" and "pri_state (pb_input pb) = STATE_BUSY"
    and "int (length d) \<le> pb_input_mtu pb"
  shows "pb_inv num (pb_store d pb, js) ps inp"
proof -
  have I: "cb_rep (pb_buf pb) ps" "pb_input_mtu pb \<le> cb_input_avail (pb_buf pb)" "0 \<le> pb_input_mtu pb"
    "pri_job_operation_data (pb_input pb) = cb_input_dest (pb_buf pb)"
    using assms(1,2) by (auto simp: pb_inv_def pb_mid_def recv_ok_def pb_sized_def)
  obtain q where q: "cb_input_dest (pb_buf pb) = Some q"
    using cb_room_dest [OF I(1)] I(2,3) by fastforce
  have "cb_rep (pb_buf (pb_store d pb)) ps"
    using cb_rep_write_input [OF I(1) q, of d] I(2,4) q assms(3) by (simp add: pb_store_def)
  then show ?thesis using assms(1,2)
    by (simp add: pb_inv_def pb_mid_def recv_ok_def send_ok_def pb_sized_def pb_store_def)
qed

lemmas pb_inv_simps = pb_inv_def pb_mid_def recv_ok_def send_ok_def pb_sized_def pb_at_def

lemma input_ready_inv:
  assumes "pb_inv num (pb, js) ps inp" and "pri_state (pb_input pb) = STATE_BUSY"
    and "0 \<le> len" and "len \<le> pb_input_mtu pb"
    and "PacketRecvInterface_Done len (pb_input pb) js = (i, js')"
  shows "inp = [] \<and> pb_inv num (pb\<lparr>pb_input := i\<rparr>, js')
    ps [pb_at (pri_job_operation_data (pb_input pb)) len pb]"
proof -
  have "pb_queue i (pb_output pb) js'"
    using assms by (intro pb_queue_recv_done [OF _ assms(2,5)]) (simp add: pb_inv_def pb_mid_def)
  moreover have "i = (pb_input pb)\<lparr>pri_job_done_len := len, pri_state := STATE_DONE_PENDING\<rparr>"
    using assms(5) by (simp add: PacketRecvInterface_Done_def)
  ultimately show ?thesis using assms(1-4) by (simp add: pb_inv_simps)
qed

lemma output_ready_inv:
  assumes "pb_inv num (pb, js) ps inp" and "ppi_state (pb_output pb) = STATE_BUSY"
    and "PacketPassInterface_Done (pb_output pb) js = (i, js')"
  shows "ppi_state i = STATE_DONE_PENDING \<and> pb_inv num (pb\<lparr>pb_output := i\<rparr>, js') ps inp"
proof -
  have "pb_queue (pb_input pb) i js'"
    using assms by (intro pb_queue_send_done [OF _ assms(2,3)]) (simp add: pb_inv_def pb_mid_def)
  moreover have "i = (pb_output pb)\<lparr>ppi_state := STATE_DONE_PENDING\<rparr>"
    using assms(3) by (simp add: PacketPassInterface_Done_def)
  ultimately show ?thesis using assms(1,2) by (simp add: pb_inv_simps)
qed

lemma input_op_inv:
  assumes "pb_inv num (pb, pri_job_operation (pb_input pb) # js) ps inp"
    and "PacketRecvInterface_job_operation (pb_input pb) = (i, p)"
  shows "pb_inv num (pb\<lparr>pb_input := i\<rparr>, js) ps inp"
proof -
  have "i = (pb_input pb)\<lparr>pri_state := STATE_BUSY\<rparr>"
    using assms(2) by (simp add: PacketRecvInterface_job_operation_def)
  then show ?thesis
    using assms(1) pb_queue_jobs(1) [of "pb_input pb" "pb_output pb" js] by (simp add: pb_inv_simps)
qed

lemma output_op_inv:
  assumes "pb_inv num (pb, ppi_job_operation (pb_output pb) # js) ps inp"
    and "PacketPassInterface_job_operation (pb_output pb) = (i, p, n)"
  shows "pb_inv num (pb\<lparr>pb_output := i\<rparr>, js) ps inp" "ppi_state i = STATE_BUSY"
    "ppi_state (pb_output pb) = STATE_OPERATION_PENDING" "pb_at p n pb = hd ps"
proof -
  have i: "i = (pb_output pb)\<lparr>ppi_state := STATE_BUSY\<rparr>" "p = ppi_job_operation_data (pb_output pb)"
    "n = ppi_job_operation_len (pb_output pb)"
    using assms(2) by (auto simp: PacketPassInterface_job_operation_def)
  note Q = pb_queue_jobs(3) [of "pb_input pb" "pb_output pb" js]
  show "pb_inv num (pb\<lparr>pb_output := i\<rparr>, js) ps inp" "ppi_state i = STATE_BUSY"
    "ppi_state (pb_output pb) = STATE_OPERATION_PENDING"
    using assms(1) Q i by (simp_all add: pb_inv_simps)
  then have "ps \<noteq> []" "cb_rep (pb_buf pb) ps" "p = cb_output_dest (pb_buf pb)" "n = cb_output_avail (pb_buf pb)"
    using assms(1) i by (auto simp: pb_inv_def pb_mid_def send_ok_def)
  then show "pb_at p n pb = hd ps" using cb_output(2) by (fastforce simp: pb_at_def)
qed

text \<open>Every step moves packets along: in at one end, through the buffer, out at the other.\<close>

definition pb_moves :: "int \<Rightarrow> 'j pb_world \<Rightarrow> byte list list \<Rightarrow> byte list list \<Rightarrow> byte list list \<Rightarrow>
  byte list list \<Rightarrow> 'j pb_world \<Rightarrow> byte list list \<Rightarrow> byte list list \<Rightarrow> byte list list \<Rightarrow> bool" where
  "pb_moves num w ps inp i o' w' ps' inp' gone \<longleftrightarrow>
     pb_inv num w' ps' inp' \<and> ps @ inp @ i = gone @ ps' @ inp' \<and>
     in_flight (ppi_state (pb_output (fst w))) ps @ o' =
     gone @ in_flight (ppi_state (pb_output (fst w'))) ps'"

lemma pb_step_inv:
  assumes "pb_step w i o' w'" and inv: "pb_inv num w ps inp"
  shows "\<exists>ps' inp' gone. pb_moves num w ps inp i o' w' ps' inp' gone"
  using assms(1)
proof (cases rule: pb_step.cases)
  case (input_store pb d js)
  then have "pb_moves num w ps inp i o' w' ps inp []"
    using input_store_inv [of num pb js ps inp d] inv by (simp add: pb_moves_def pb_store_def)
  then show ?thesis by blast
next
  case (input_ready pb len js x js')
  then have "pb_moves num w ps inp i o' w' ps i []"
    using input_ready_inv [of num pb js ps inp len x js'] inv by (simp add: pb_moves_def)
  then show ?thesis by blast
next
  case (output_ready pb js x js')
  then have "pb_moves num w ps inp i o' w' ps inp []"
    using output_ready_inv [of num pb js ps inp x js'] inv by (simp add: pb_moves_def in_flight_def)
  then show ?thesis by blast
next
  case (input_op pb x p js)
  then have "pb_moves num w ps inp i o' w' ps inp []"
    using input_op_inv [of num pb js ps inp x p] inv by (simp add: pb_moves_def)
  then show ?thesis by blast
next
  case (output_op pb x p n js)
  then have "pb_moves num w ps inp i o' w' ps inp []"
    using output_op_inv [of num pb js ps inp x p n] inv by (simp add: pb_moves_def in_flight_def)
  then show ?thesis by blast
next
  case (input_done pb x len js)
  note D = input_handler_done_inv [of num pb js ps inp x len]
  have "ps = [] \<Longrightarrow> ppi_state (pb_output pb) = STATE_NONE"
    using inv input_done by (auto simp: pb_inv_def pb_mid_def send_ok_def)
  then have "pb_moves num w ps inp i o' w' (ps @ inp) [] []"
    using D inv input_done by (cases "ps = []") (auto simp: pb_moves_def in_flight_def)
  then show ?thesis by blast
next
  case (output_done pb x js)
  then obtain p qs where *: "ps = p # qs" "pb_inv num w' qs inp"
      "ppi_state (pb_output (fst w')) \<notin> {STATE_BUSY, STATE_DONE_PENDING}"
    using output_handler_done_inv [of num pb js ps inp x] inv by blast
  have "ppi_state (pb_output pb) = STATE_DONE_PENDING"
    using output_done inv pb_queue_jobs(4) [of "pb_input pb" "pb_output pb" js]
    by (auto simp: pb_inv_def pb_mid_def)
  then have "pb_moves num w ps inp i o' w' qs inp [p]"
    using * output_done by (simp add: pb_moves_def in_flight_def)
  then show ?thesis by blast
qed

lemma pb_run_inv:
  "pb_run w ins outs w' \<Longrightarrow> pb_inv num w [] [] \<Longrightarrow> ppi_state (pb_output (fst w)) = STATE_NONE \<Longrightarrow>
   \<exists>ps inp gone. pb_inv num w' ps inp \<and> ins = gone @ ps @ inp \<and>
     outs = gone @ in_flight (ppi_state (pb_output (fst w'))) ps"
proof (induction rule: pb_run.induct)
  case (pb_nil w)
  then show ?case by (intro exI [of _ "[]"]) (simp add: in_flight_def)
next
  case (pb_snoc w ins outs w' i o' w'')
  then obtain ps inp gone where *: "pb_inv num w' ps inp" "ins = gone @ ps @ inp"
      "outs = gone @ in_flight (ppi_state (pb_output (fst w'))) ps" by blast
  obtain ps' inp' gone' where "pb_moves num w' ps inp i o' w'' ps' inp' gone'"
    using pb_step_inv [OF pb_snoc.hyps(2) *(1)] by blast
  then show ?case using * by (intro exI [of _ ps'] exI [of _ inp'] exI [of _ "gone @ gone'"])
    (simp add: pb_moves_def)
qed

text \<open>An input and an output that are idle and have no jobs in the queue.\<close>

definition pb_fresh :: "'j pb_world \<Rightarrow> bool" where
  "pb_fresh w \<longleftrightarrow>
     distinct (snd w) \<and> distinct (pb_jobs (pb_input (fst w)) (pb_output (fst w))) \<and>
     set (pb_jobs (pb_input (fst w)) (pb_output (fst w))) \<inter> set (snd w) = {} \<and>
     pri_state (pb_input (fst w)) = STATE_NONE \<and> ppi_state (pb_output (fst w)) = STATE_NONE \<and>
     0 \<le> pri_mtu (pb_input (fst w)) \<and> pri_mtu (pb_input (fst w)) \<le> INT_MAX"

lemma pb_init_inv:
  assumes "PacketBuffer_Init malloc num w0 = Some w" and "pb_fresh w0" and "0 < num" and "num \<le> INT_MAX"
    and malloc: "\<And>n m. malloc n = Some m \<Longrightarrow> length m = unat n"
    and fits: "4 * ChunkBuffer2_calc_blocks (pri_mtu (pb_input (fst w0))) num \<le> INT_MAX"
  shows "pb_inv num w [] [] \<and> ppi_state (pb_output (fst w)) = STATE_NONE"
proof -
  obtain pb js where w0: "w0 = (pb, js)" by (cases w0)
  define mtu where "mtu = pri_mtu (pb_input pb)"
  define nb where "nb = ChunkBuffer2_calc_blocks mtu num"
  obtain n m where ok: "\<not> nb < 0" "BAllocArray (of_int nb) (of_int sizeof_block) = Some n" "malloc n = Some m"
    and w: "w = pb_recv (pb\<lparr>pb_input := PacketRecvInterface_Receiver_Init (pb_input pb), pb_input_mtu := mtu,
        pb_output := PacketPassInterface_Sender_Init (pb_output pb),
        pb_buf := ChunkBuffer2_Init m nb mtu (pb_buf pb)\<rparr>, js)" (is "w = pb_recv (?pb, js)")
    using assms(1)
    by (auto simp: w0 PacketBuffer_Init_def Let_def iface_defs nb_def mtu_def split: if_splits option.splits)
  have mtu: "0 \<le> mtu" "mtu \<le> INT_MAX" using assms(2) by (simp_all add: pb_fresh_def w0 mtu_def)
  have calc: "nb = (1 + (mtu + 3) div 4) * (num + 1)"
    using calc_blocks [of mtu num] mtu assms(3,4) ok(1) by (force simp: nb_def)
  have "unat n = max 1 (nat nb * 4)"
  proof -
    have "unat (of_int nb :: u64) = nat nb"
      using ok(1) fits w0 by (simp add: unsigned_of_int take_bit_int_eq_self nb_def mtu_def)
    then show ?thesis using BAllocArray_exact [OF ok(2)] by (simp add: sizeof_block_def)
  qed
  moreover have "0 < nb" using calc mtu(1) assms(3) by simp
  ultimately have "int (length m) = 4 * nb" using malloc [OF ok(3)] by simp
  then have sized: "sized_for mtu num m"
    using mtu assms(3,4) ok(1) fits w0 by (auto simp: sized_for_def nb_def mtu_def)
  note S = sized_for_init [OF sized, folded nb_def, of "pb_buf pb"]
  have "mtu \<le> cb_input_avail (ChunkBuffer2_Init m nb mtu (pb_buf pb))"
    using mtu S assms(3) by (intro cb_room [OF S(1)]) auto
  then have "pb_mid num (?pb, js) [] [] True False"
    using S mtu assms(2,3)
    by (auto simp: pb_mid_def pb_sized_def pb_queue_def pb_jobs_def pb_fresh_def recv_ok_def send_ok_def
        iface_defs w0)
  then show ?thesis
    using pb_mid_recv [of num ?pb js] assms(2) by (simp add: w pb_inv_def pb_recv_eq iface_defs pb_fresh_def w0)
qed

text \<open>C6. The packet buffer passes packets on unchanged, in order and without loss, for every
  interleaving of the two providers and the job queue: the packets given to the output are a prefix
  of the packets reported by the input.  It never stalls: when it is not receiving, at least
  \<open>num_packets - 1\<close> further packets wait behind the one being sent, so a send is in progress.\<close>

theorem packet_buffer_fifo:
  assumes "PacketBuffer_Init malloc num_packets w0 = Some w" and "pb_fresh w0"
    and "0 < num_packets" and "num_packets \<le> INT_MAX"
    and "\<And>n m. malloc n = Some m \<Longrightarrow> length m = unat n"
    and "4 * ChunkBuffer2_calc_blocks (pri_mtu (pb_input (fst w0))) num_packets \<le> INT_MAX"
    and "pb_run w ins outs w'"
  shows "\<exists>rest. ins = outs @ rest \<and>
    (pri_state (pb_input (fst w')) = STATE_NONE \<longrightarrow>
       ppi_state (pb_output (fst w')) \<noteq> STATE_NONE \<and> num_packets - 1 \<le> int (length rest))"
proof -
  obtain ps inp gone where R: "pb_inv num_packets w' ps inp" "ins = gone @ ps @ inp"
      "outs = gone @ in_flight (ppi_state (pb_output (fst w'))) ps"
    using pb_run_inv [OF assms(7)] pb_init_inv [OF assms(1-6)] by blast
  have ne: "ppi_state (pb_output (fst w')) \<noteq> STATE_NONE \<longleftrightarrow> ps \<noteq> []"
    using R(1) by (simp add: pb_inv_def pb_mid_def send_ok_def)
  define flying where "flying \<longleftrightarrow> ppi_state (pb_output (fst w')) \<in> {STATE_BUSY, STATE_DONE_PENDING}"
  have "ins = outs @ (if flying then tl ps else ps) @ inp"
    using R(2,3) ne by (cases ps) (auto simp: in_flight_def flying_def)
  moreover have "num_packets \<le> int (length ps)" if "pri_state (pb_input (fst w')) = STATE_NONE"
  proof (rule ccontr)
    assume "\<not> num_packets \<le> int (length ps)"
    then have "pb_input_mtu (fst w') \<le> cb_input_avail (pb_buf (fst w'))"
      using R(1) by (intro cb_room [where num = num_packets and ps = ps]) (auto simp: pb_inv_def pb_mid_def pb_sized_def)
    then show False using R(1) that by (simp add: pb_inv_def pb_mid_def recv_ok_def)
  qed
  ultimately show ?thesis using assms(3) ne
    by (intro exI [of _ "(if flying then tl ps else ps) @ inp"]) (cases ps; auto)
qed

text \<open>A buffer for one packet of up to five bytes; the input provider reports two bytes.\<close>

definition example_pb :: "nat PacketBuffer" where
  "example_pb = \<lparr>pb_input = \<lparr>pri_mtu = 5, pri_handler_done = False, pri_job_operation = 0,
      pri_job_operation_data = None, pri_job_done = 1, pri_job_done_len = 0, pri_state = STATE_NONE\<rparr>,
    pb_input_mtu = 0,
    pb_output = \<lparr>ppi_mtu = 5, ppi_handler_requestcancel = False, ppi_handler_done = False,
      ppi_job_operation = 2, ppi_job_operation_data = None, ppi_job_operation_len = 0,
      ppi_job_requestcancel = 3, ppi_job_done = 4, ppi_state = STATE_NONE, ppi_cancel_requested = False\<rparr>,
    pb_buf = \<lparr>cb_buffer = [], cb_size = 0, cb_wrap = 0, cb_start = 0, cb_used = 0, cb_mtu = 0,
      cb_input_dest = None, cb_input_avail = 0, cb_output_dest = None, cb_output_avail = 0\<rparr>\<rparr>"

definition example_malloc :: "u64 \<Rightarrow> byte list option" where
  "example_malloc n = Some (replicate (unat n) 0)"

theorem packet_buffer_fifo_witness:
  "\<exists>w w' rest. PacketBuffer_Init example_malloc 1 (example_pb, []) = Some w \<and>
     pb_run w [[0, 0]] [] w' \<and> [[0, 0]] = [] @ rest"
proof -
  have calc: "ChunkBuffer2_calc_blocks 5 1 = 6"
    by (simp add: ChunkBuffer2_calc_blocks_def bdivide_up_block_eq)
  have alloc: "BAllocArray (6 :: u64) 4 = Some 24"
    by (simp add: BAllocArray_def BAlloc_def word_less_nat_alt unat_div unat_SIZE_MAX)
  have "example_malloc 24 = Some (replicate 24 0)" by (simp add: example_malloc_def)
  then obtain pb where init: "PacketBuffer_Init example_malloc 1 (example_pb, []) = Some (pb, [0])"
    and pb: "pri_state (pb_input pb) = STATE_OPERATION_PENDING" "pri_job_operation (pb_input pb) = 0"
      "pri_job_done (pb_input pb) = 1" "pri_job_operation_data (pb_input pb) = Some 4"
      "pb_input_mtu pb = 5" "cb_buffer (pb_buf pb) = replicate 24 0"
    by (simp add: PacketBuffer_Init_def iface_defs example_pb_def calc alloc sizeof_block_def pb_recv_eq
        ChunkBuffer2_Init_def ChunkBuffer2_update_input_def ChunkBuffer2_update_output_def
        ChunkBuffer2_end_def bdivide_up_block_eq to_int32_def BPending_Set_def)
  define pb1 where "pb1 = pb\<lparr>pb_input := (pb_input pb)\<lparr>pri_state := STATE_BUSY\<rparr>\<rparr>"
  have s1: "pb_step (pb, [0]) [] [] (pb1, [])"
    using input_op [of pb _ _ "[]"] pb by (simp add: pb1_def PacketRecvInterface_job_operation_def)
  have "pb_at (pri_job_operation_data (pb_input pb1)) 2 pb1 = [0, 0]"
    by (simp add: pb_at_def pb1_def pb slice_def numeral_2_eq_2)
  then obtain w' where s2: "pb_step (pb1, []) [[0, 0]] [] w'"
    using input_ready [of pb1 2 "[]"] pb
    by (cases "PacketRecvInterface_Done 2 (pb_input pb1) []") (fastforce simp: pb1_def)
  have run: "pb_run (pb, [0]) [[0, 0]] [] w'"
    using pb_snoc [OF pb_snoc [OF pb_nil s1] s2] by simp
  have fresh: "pb_fresh (example_pb, [])"
    by (simp add: pb_fresh_def pb_jobs_def example_pb_def)
  have "\<exists>rest. [[0, 0]] = [] @ rest \<and> (pri_state (pb_input (fst w')) = STATE_NONE \<longrightarrow>
       ppi_state (pb_output (fst w')) \<noteq> STATE_NONE \<and> 1 - 1 \<le> int (length rest))"
    using packet_buffer_fifo [OF init fresh _ _ _ _ run]
    by (simp add: example_malloc_def example_pb_def calc)
  then show ?thesis using init run by blast
qed

end
