(* ===== verification/PacketProto.thy ===== *)
theory PacketProto
  imports Bytes FlowInterfaces
begin

text \<open>
  PacketProto, the framing of packets on a stream (\<open>protocol/packetproto.h\<close>), its encoder
  \<open>flow/PacketProtoEncoder.c\<close> and its decoder \<open>flow/PacketProtoDecoder.c\<close>.  The decoder's data
  pointers are offsets into its buffer; the encoder writes into memory of its user, where a
  pointer is an offset as well.  The reference is the format itself: \<open>pp_encode\<close>.
\<close>

section \<open>packetproto.h\<close>

record packetproto_header = pp_len :: u16

definition packetproto_header_bytes :: "packetproto_header \<Rightarrow> byte list" where
  "packetproto_header_bytes h = mem16 (pp_len h)"

definition packetproto_header_load :: "byte list \<Rightarrow> packetproto_header" where
  "packetproto_header_load p = \<lparr>pp_len = of_mem (slice 0 2 p)\<rparr>"

definition sizeof_packetproto_header :: int where "sizeof_packetproto_header = 2"

definition PACKETPROTO_ENCLEN :: "int \<Rightarrow> int" where
  "PACKETPROTO_ENCLEN len = sizeof_packetproto_header + len"

definition PACKETPROTO_MAXPAYLOAD :: int where "PACKETPROTO_MAXPAYLOAD = UINT16_MAX"

text \<open>The format: the length as a 16 bit little-endian number, then the payload.\<close>

definition pp_encode :: "byte list \<Rightarrow> byte list" where
  "pp_encode p = mem16 (htol16 (of_nat (length p))) @ p"


section \<open>PacketProtoEncoder.c\<close>

record 'j PacketProtoEncoder =
  ppe_input :: "('j, int) pri"
  ppe_output :: "('j, int) pri"
  ppe_output_packet :: "int option"

text \<open>\<open>output_handler_recv\<close>: the user of the output wants a packet at \<open>data\<close>.\<close>

definition ppe_output_handler_recv ::
  "int \<Rightarrow> 'j PacketProtoEncoder \<Rightarrow> 'j jobs \<Rightarrow> 'j PacketProtoEncoder \<times> 'j jobs" where
  "ppe_output_handler_recv data enc js =
     (let enc = enc\<lparr>ppe_output_packet := Some data\<rparr>;
          (i, js) = PacketRecvInterface_Receiver_Recv (data + sizeof_packetproto_header) (ppe_input enc) js
      in (enc\<lparr>ppe_input := i\<rparr>, js))"

text \<open>\<open>input_handler_done\<close>; \<open>m\<close> is the memory of the user of the output.\<close>

definition ppe_input_handler_done ::
  "int \<Rightarrow> 'j PacketProtoEncoder \<Rightarrow> byte list \<Rightarrow> 'j jobs \<Rightarrow> 'j PacketProtoEncoder \<times> byte list \<times> 'j jobs" where
  "ppe_input_handler_done in_len enc m js =
     (let pp = \<lparr>pp_len = htol16 (of_int in_len)\<rparr>;
          m = splice (nat (the (ppe_output_packet enc))) (packetproto_header_bytes pp) m;
          enc = enc\<lparr>ppe_output_packet := None\<rparr>;
          (i, js) = PacketRecvInterface_Done (PACKETPROTO_ENCLEN in_len) (ppe_output enc) js
      in (enc\<lparr>ppe_output := i\<rparr>, m, js))"

definition PacketProtoEncoder_Init ::
  "'j PacketProtoEncoder \<Rightarrow> 'j jobs \<Rightarrow> 'j PacketProtoEncoder \<times> 'j jobs" where
  "PacketProtoEncoder_Init enc js =
     (let enc = enc\<lparr>ppe_input := PacketRecvInterface_Receiver_Init (ppe_input enc)\<rparr>;
          (i, js) = PacketRecvInterface_Init
            (PACKETPROTO_ENCLEN (PacketRecvInterface_GetMTU (ppe_input enc))) (ppe_output enc) js
      in (enc\<lparr>ppe_output := i, ppe_output_packet := None\<rparr>, js))"

definition PacketProtoEncoder_Free :: "'j PacketProtoEncoder \<Rightarrow> 'j jobs \<Rightarrow> 'j jobs" where
  "PacketProtoEncoder_Free enc js = PacketRecvInterface_Free (ppe_output enc) js"


section \<open>PacketProtoDecoder.c\<close>

definition bmin_int :: "int \<Rightarrow> int \<Rightarrow> int" where
  "bmin_int a b = (if a < b then a else b)"

record 'j PacketProtoDecoder =
  ppd_input :: "('j, int) sri"
  ppd_output :: "('j, int) ppi"
  ppd_output_mtu :: int
  ppd_buf_size :: int
  ppd_buf_start :: int
  ppd_buf_used :: int
  ppd_buf :: "byte list"

text \<open>The boolean says whether \<open>handler_error\<close> is called.\<close>

type_synonym 'j ppd_result = "'j PacketProtoDecoder \<times> 'j jobs \<times> bool"

definition ppd_receive :: "'j PacketProtoDecoder \<Rightarrow> 'j jobs \<Rightarrow> 'j PacketProtoDecoder \<times> 'j jobs" where
  "ppd_receive d js =
     (let (i, js) = StreamRecvInterface_Receiver_Recv (ppd_buf_start d + ppd_buf_used d)
            (ppd_buf_size d - (ppd_buf_start d + ppd_buf_used d)) (ppd_input d) js
      in (d\<lparr>ppd_input := i\<rparr>, js))"

text \<open>The two ways out of the \<open>do\<close> block of \<open>process_data\<close> without a packet.\<close>

definition ppd_no_packet :: "bool \<Rightarrow> 'j PacketProtoDecoder \<Rightarrow> 'j jobs \<Rightarrow> 'j ppd_result" where
  "ppd_no_packet was_error d js =
     (let d = (if was_error then d\<lparr>ppd_buf_start := 0, ppd_buf_used := 0\<rparr>
               else if ppd_buf_start d + ppd_buf_used d = ppd_buf_size d
               then d\<lparr>ppd_buf := splice 0 (slice (nat (ppd_buf_start d)) (nat (ppd_buf_used d)) (ppd_buf d))
                       (ppd_buf d), ppd_buf_start := 0\<rparr>
               else d);
          (d, js) = ppd_receive d js
      in (d, js, was_error))"

definition process_data :: "'j PacketProtoDecoder \<Rightarrow> 'j jobs \<Rightarrow> 'j ppd_result" where
  "process_data d js =
     (let data = ppd_buf_start d; left = ppd_buf_used d in
      if left < sizeof_packetproto_header then ppd_no_packet False d js
      else
        let header = packetproto_header_load (drop (nat data) (ppd_buf d));
            data = data + sizeof_packetproto_header;
            left = left - sizeof_packetproto_header;
            data_len = int (unat (ltoh16 (pp_len header)))
        in if data_len > ppd_output_mtu d then ppd_no_packet True d js
           else if left < data_len then ppd_no_packet False d js
           else
             let d = d\<lparr>ppd_buf_start := ppd_buf_start d + (sizeof_packetproto_header + data_len)\<rparr>;
                 d = d\<lparr>ppd_buf_used := ppd_buf_used d - (sizeof_packetproto_header + data_len)\<rparr>;
                 (out, js) = PacketPassInterface_Sender_Send data data_len (ppd_output d) js
             in (d\<lparr>ppd_output := out\<rparr>, js, False))"

definition ppd_input_handler_done :: "int \<Rightarrow> 'j PacketProtoDecoder \<Rightarrow> 'j jobs \<Rightarrow> 'j ppd_result" where
  "ppd_input_handler_done data_len d js =
     (let d = d\<lparr>ppd_buf_used := ppd_buf_used d + data_len\<rparr> in process_data d js)"

definition ppd_output_handler_done :: "'j PacketProtoDecoder \<Rightarrow> 'j jobs \<Rightarrow> 'j ppd_result" where
  "ppd_output_handler_done d js = process_data d js"

definition PacketProtoDecoder_Init ::
  "(int \<Rightarrow> byte list option) \<Rightarrow> 'j PacketProtoDecoder \<Rightarrow> 'j jobs \<Rightarrow>
   ('j PacketProtoDecoder \<times> 'j jobs) option" where
  "PacketProtoDecoder_Init malloc d js =
     (let d = d\<lparr>ppd_input := StreamRecvInterface_Receiver_Init (ppd_input d)\<rparr>;
          d = d\<lparr>ppd_output := PacketPassInterface_Sender_Init (ppd_output d)\<rparr>;
          d = d\<lparr>ppd_output_mtu := bmin_int (PacketPassInterface_GetMTU (ppd_output d)) PACKETPROTO_MAXPAYLOAD\<rparr>;
          d = d\<lparr>ppd_buf_size := PACKETPROTO_ENCLEN (ppd_output_mtu d), ppd_buf_start := 0, ppd_buf_used := 0\<rparr>
      in case malloc (ppd_buf_size d) of
           None \<Rightarrow> None
         | Some buf \<Rightarrow>
             let d = d\<lparr>ppd_buf := buf\<rparr>;
                 (i, js) = StreamRecvInterface_Receiver_Recv 0 (ppd_buf_size d) (ppd_input d) js
             in Some (d\<lparr>ppd_input := i\<rparr>, js))"

definition PacketProtoDecoder_Reset :: "'j PacketProtoDecoder \<Rightarrow> 'j PacketProtoDecoder" where
  "PacketProtoDecoder_Reset d =
     (let d = d\<lparr>ppd_buf_start := ppd_buf_start d + ppd_buf_used d\<rparr> in d\<lparr>ppd_buf_used := 0\<rparr>)"


section \<open>The format is a prefix code\<close>

definition pp_valid :: "int \<Rightarrow> byte list \<Rightarrow> bool" where
  "pp_valid mtu p \<longleftrightarrow> int (length p) \<le> mtu \<and> length p \<le> 65535"

text \<open>The payload length a stream announces, if its header is there.\<close>

definition announced :: "byte list \<Rightarrow> nat option" where
  "announced bs = (if length bs < 2 then None else Some (unat (of_mem (take 2 bs) :: u16)))"

lemma announced_encode:
  "length p \<le> 65535 \<Longrightarrow> announced (pp_encode p @ bs) = Some (length p)"
  by (simp add: announced_def pp_encode_def of_mem_mem16 htol16_def unsigned_of_nat
      take_bit_nat_eq_self)

lemma length_pp_encode: "length (pp_encode p) = 2 + length p"
  by (simp add: pp_encode_def)

lemma pp_encode_prefix:
  assumes "length p \<le> 65535" and "length q \<le> 65535" and "pp_encode p @ bs = pp_encode q @ cs"
  shows "p = q \<and> bs = cs"
proof -
  have "length p = length q"
    using assms announced_encode [of p bs] announced_encode [of q cs] by simp
  then show ?thesis using assms(3) by (simp add: pp_encode_def)
qed

text \<open>A stream that starts with a complete packet is that packet's encoding and a rest.\<close>

lemma pp_parse:
  assumes "announced bs = Some n" and "2 + n \<le> length bs"
  shows "bs = pp_encode (slice 2 n bs) @ drop (2 + n) bs"
proof -
  have b: "\<not> length bs < 2" "n = unat (of_mem (take 2 bs) :: u16)"
    using assms by (auto simp: announced_def split: if_splits)
  then have "of_nat n = (of_mem (take 2 bs) :: u16)" by simp
  then have "mem16 (of_nat n) = take 2 bs" using b(1) by (simp add: mem16_of_mem)
  moreover have "length (slice 2 n bs) = n" using assms(2) by simp
  ultimately have "pp_encode (slice 2 n bs) = take 2 bs @ take n (drop 2 bs)"
    by (simp add: pp_encode_def htol16_def slice_def)
  then show ?thesis
    by (metis append_take_drop_id take_add)
qed


section \<open>Runs of the decoder\<close>

type_synonym 'j ppd_world = "'j PacketProtoDecoder \<times> 'j jobs"

definition ppd_at :: "int \<Rightarrow> int \<Rightarrow> 'j PacketProtoDecoder \<Rightarrow> byte list" where
  "ppd_at p n d = slice (nat p) (nat n) (ppd_buf d)"

text \<open>
  The steps of a decoder in its environment, with the bytes that enter (when the provider of the
  stream reports them), the packets that leave (when the output is given them) and whether the
  error handler is called.
\<close>

inductive ppd_step :: "'j ppd_world \<Rightarrow> byte list \<Rightarrow> byte list list \<Rightarrow> bool \<Rightarrow> 'j ppd_world \<Rightarrow> bool" where
  input_store: "sri_state (ppd_input d) = STATE_BUSY \<Longrightarrow> int (length bs) \<le> sri_job_operation_len (ppd_input d) \<Longrightarrow>
    ppd_step (d, js) [] [] False
      (d\<lparr>ppd_buf := splice (nat (sri_job_operation_data (ppd_input d))) bs (ppd_buf d)\<rparr>, js)"
| input_ready: "sri_state (ppd_input d) = STATE_BUSY \<Longrightarrow> 0 < n \<Longrightarrow> n \<le> sri_job_operation_len (ppd_input d) \<Longrightarrow>
    StreamRecvInterface_Done n (ppd_input d) js = (i, js') \<Longrightarrow>
    ppd_step (d, js) (ppd_at (sri_job_operation_data (ppd_input d)) n d) [] False (d\<lparr>ppd_input := i\<rparr>, js')"
| output_ready: "ppi_state (ppd_output d) = STATE_BUSY \<Longrightarrow>
    PacketPassInterface_Done (ppd_output d) js = (i, js') \<Longrightarrow>
    ppd_step (d, js) [] [] False (d\<lparr>ppd_output := i\<rparr>, js')"
| input_op: "StreamRecvInterface_job_operation (ppd_input d) = (i, p, n) \<Longrightarrow>
    ppd_step (d, sri_job_operation (ppd_input d) # js) [] [] False (d\<lparr>ppd_input := i\<rparr>, js)"
| input_done: "StreamRecvInterface_job_done (ppd_input d) = (i, n) \<Longrightarrow>
    ppd_input_handler_done n (d\<lparr>ppd_input := i\<rparr>) js = (d', js', err) \<Longrightarrow>
    ppd_step (d, sri_job_done (ppd_input d) # js) [] [] err (d', js')"
| output_op: "PacketPassInterface_job_operation (ppd_output d) = (i, p, n) \<Longrightarrow>
    ppd_step (d, ppi_job_operation (ppd_output d) # js) [] [ppd_at p n d] False (d\<lparr>ppd_output := i\<rparr>, js)"
| output_done: "PacketPassInterface_job_done (ppd_output d) = i \<Longrightarrow>
    ppd_output_handler_done (d\<lparr>ppd_output := i\<rparr>) js = (d', js', err) \<Longrightarrow>
    ppd_step (d, ppi_job_done (ppd_output d) # js) [] [] err (d', js')"

text \<open>A run up to and including the first error.\<close>

inductive ppd_run :: "'j ppd_world \<Rightarrow> byte list \<Rightarrow> byte list list \<Rightarrow> bool \<Rightarrow> 'j ppd_world \<Rightarrow> bool" where
  ppd_nil: "ppd_run w [] [] False w"
| ppd_snoc: "ppd_run w ins outs False w' \<Longrightarrow> ppd_step w' i o' err w'' \<Longrightarrow>
    ppd_run w (ins @ i) (outs @ o') err w''"

definition ppd_wf :: "'j PacketProtoDecoder \<Rightarrow> bool" where
  "ppd_wf d \<longleftrightarrow>
     int (length (ppd_buf d)) = ppd_buf_size d \<and> ppd_buf_size d = 2 + ppd_output_mtu d \<and>
     0 \<le> ppd_output_mtu d \<and> ppd_output_mtu d \<le> 65535 \<and>
     0 \<le> ppd_buf_start d \<and> 0 \<le> ppd_buf_used d \<and> ppd_buf_start d + ppd_buf_used d \<le> ppd_buf_size d"

definition ppd_jobs :: "'j PacketProtoDecoder \<Rightarrow> 'j list" where
  "ppd_jobs d = [sri_job_operation (ppd_input d), sri_job_done (ppd_input d),
     ppi_job_operation (ppd_output d), ppi_job_done (ppd_output d), ppi_job_requestcancel (ppd_output d)]"

definition ppd_queue :: "'j PacketProtoDecoder \<Rightarrow> 'j jobs \<Rightarrow> bool" where
  "ppd_queue d js \<longleftrightarrow>
     distinct js \<and> distinct (ppd_jobs d) \<and>
     (sri_job_operation (ppd_input d) \<in> set js \<longleftrightarrow> sri_state (ppd_input d) = STATE_OPERATION_PENDING) \<and>
     (sri_job_done (ppd_input d) \<in> set js \<longleftrightarrow> sri_state (ppd_input d) = STATE_DONE_PENDING) \<and>
     (ppi_job_operation (ppd_output d) \<in> set js \<longleftrightarrow> ppi_state (ppd_output d) = STATE_OPERATION_PENDING) \<and>
     (ppi_job_done (ppd_output d) \<in> set js \<longleftrightarrow> ppi_state (ppd_output d) = STATE_DONE_PENDING) \<and>
     ppi_job_requestcancel (ppd_output d) \<notin> set js"

text \<open>The bytes received and not yet passed on.\<close>

definition ppd_pending :: "'j PacketProtoDecoder \<Rightarrow> byte list" where
  "ppd_pending d = ppd_at (ppd_buf_start d) (ppd_buf_used d) d"

definition incomplete :: "int \<Rightarrow> byte list \<Rightarrow> bool" where
  "incomplete mtu bs \<longleftrightarrow>
     (case announced bs of None \<Rightarrow> True | Some n \<Rightarrow> int n \<le> mtu \<and> length bs < 2 + n)"

text \<open>Waiting for input into the free end of the buffer, with no whole packet at hand.\<close>

definition receiving :: "'j PacketProtoDecoder \<Rightarrow> byte list \<Rightarrow> bool" where
  "receiving d inp \<longleftrightarrow>
     sri_state (ppd_input d) \<noteq> STATE_NONE \<and> ppi_state (ppd_output d) = STATE_NONE \<and>
     sri_job_operation_data (ppd_input d) = ppd_buf_start d + ppd_buf_used d \<and>
     sri_job_operation_len (ppd_input d) = ppd_buf_size d - (ppd_buf_start d + ppd_buf_used d) \<and>
     ppd_buf_start d + ppd_buf_used d < ppd_buf_size d \<and>
     incomplete (ppd_output_mtu d) (ppd_pending d) \<and>
     (if sri_state (ppd_input d) = STATE_DONE_PENDING
      then 0 < sri_job_done_len (ppd_input d) \<and> sri_job_done_len (ppd_input d) \<le> sri_job_operation_len (ppd_input d) \<and>
           inp = ppd_at (ppd_buf_start d + ppd_buf_used d) (sri_job_done_len (ppd_input d)) d
      else inp = [])"

text \<open>Sending a packet that lies in the buffer before the unprocessed bytes.\<close>

definition sending :: "'j PacketProtoDecoder \<Rightarrow> byte list \<Rightarrow> bool" where
  "sending d p \<longleftrightarrow>
     sri_state (ppd_input d) = STATE_NONE \<and> ppi_state (ppd_output d) \<noteq> STATE_NONE \<and>
     p = ppd_at (ppi_job_operation_data (ppd_output d)) (ppi_job_operation_len (ppd_output d)) d"

definition ppd_inv :: "'j ppd_world \<Rightarrow> byte list list \<Rightarrow> byte list \<Rightarrow> bool" where
  "ppd_inv w qs inp \<longleftrightarrow>
     ppd_wf (fst w) \<and> ppd_queue (fst w) (snd w) \<and>
     (\<forall>q\<in>set qs. pp_valid (ppd_output_mtu (fst w)) q) \<and>
     (receiving (fst w) inp \<or> qs \<noteq> [] \<and> sending (fst w) (last qs) \<and> inp = [])"

text \<open>The packets the output has been given.\<close>

definition ppd_given :: "iface_state \<Rightarrow> byte list list \<Rightarrow> byte list list" where
  "ppd_given st qs = (if st = STATE_OPERATION_PENDING then butlast qs else qs)"

lemma slice_header:
  assumes "ppd_wf d" and "2 \<le> ppd_buf_used d"
  shows "packetproto_header_load (drop (nat (ppd_buf_start d)) (ppd_buf d)) =
    \<lparr>pp_len = of_mem (take 2 (ppd_pending d))\<rparr>"
    "announced (ppd_pending d) = Some (unat (of_mem (take 2 (ppd_pending d)) :: u16))"
    "int (length (ppd_pending d)) = ppd_buf_used d"
proof -
  show len: "int (length (ppd_pending d)) = ppd_buf_used d"
    using assms by (auto simp: ppd_wf_def ppd_pending_def ppd_at_def)
  then show "announced (ppd_pending d) = Some (unat (of_mem (take 2 (ppd_pending d)) :: u16))"
    using assms(2) by (simp add: announced_def)
  have "take 2 (ppd_pending d) = slice (nat (ppd_buf_start d)) 2 (ppd_buf d)"
    using assms(2) by (simp add: ppd_pending_def ppd_at_def slice_def min_def le_nat_iff)
  then show "packetproto_header_load (drop (nat (ppd_buf_start d)) (ppd_buf d)) =
    \<lparr>pp_len = of_mem (take 2 (ppd_pending d))\<rparr>"
    by (simp add: packetproto_header_load_def slice_def)
qed

lemma length_pending: "ppd_wf d \<Longrightarrow> int (length (ppd_pending d)) = ppd_buf_used d"
  by (auto simp: ppd_wf_def ppd_pending_def ppd_at_def)

text \<open>Taking a packet off the front of the unprocessed bytes.\<close>

lemma ppd_at_pending:
  assumes "ppd_wf d" and "0 \<le> a" and "0 \<le> n" and "a + n \<le> ppd_buf_used d"
  shows "ppd_at (ppd_buf_start d + a) n d = slice (nat a) (nat n) (ppd_pending d)"
proof -
  have "nat (ppd_buf_start d + a) = nat (ppd_buf_start d) + nat a"
    using assms by (simp add: ppd_wf_def nat_add_distrib)
  then show ?thesis using assms
    by (simp add: ppd_at_def ppd_pending_def slice_slice nat_add_distrib [symmetric])
qed

lemma process_data_packet:
  assumes wf: "ppd_wf d" and idle: "sri_state (ppd_input d) = STATE_NONE" "ppi_state (ppd_output d) = STATE_NONE"
    and queue: "ppd_queue d js"
    and pk: "announced (ppd_pending d) = Some n" "int n \<le> ppd_output_mtu d" "2 + n \<le> length (ppd_pending d)"
    and run: "process_data d js = (d', js', err)"
  shows "\<not> err \<and> ppd_wf d' \<and> ppd_queue d' js' \<and> sending d' (slice 2 n (ppd_pending d)) \<and>
    ppi_state (ppd_output d') = STATE_OPERATION_PENDING \<and>
    ppd_pending d' = drop (2 + n) (ppd_pending d) \<and> ppd_output_mtu d' = ppd_output_mtu d"
proof -
  have used: "2 + int n \<le> ppd_buf_used d" using pk(3) length_pending [OF wf] by linarith
  then have h: "packetproto_header_load (drop (nat (ppd_buf_start d)) (ppd_buf d)) =
      \<lparr>pp_len = of_mem (take 2 (ppd_pending d))\<rparr>" "n = unat (of_mem (take 2 (ppd_pending d)) :: u16)"
    using slice_header [OF wf] pk(1) by auto
  define out where "out = (ppd_output d)\<lparr>ppi_job_operation_data := ppd_buf_start d + 2,
    ppi_job_operation_len := int n, ppi_state := STATE_OPERATION_PENDING, ppi_cancel_requested := False\<rparr>"
  have res: "d' = d\<lparr>ppd_buf_start := ppd_buf_start d + (2 + int n), ppd_buf_used := ppd_buf_used d - (2 + int n),
      ppd_output := out\<rparr>" "js' = BPending_Set (ppi_job_operation (ppd_output d)) js" "\<not> err"
    using run used pk(2) h
    by (auto simp: process_data_def Let_def sizeof_packetproto_header_def ltoh16_def htol16_def
        PacketPassInterface_Sender_Send_def out_def simp del: of_nat_unat)
  have "ppd_queue d' js'" using queue idle
    by (auto simp: ppd_queue_def ppd_jobs_def res(1,2) out_def job_simps)
  moreover have "ppd_wf d'" using wf used by (simp add: ppd_wf_def res(1))
  moreover have "sending d' (slice 2 n (ppd_pending d))"
    using ppd_at_pending [OF wf, of 2 "int n"] used idle
    by (simp add: sending_def res(1) out_def ppd_at_def)
  moreover have "ppd_pending d' = drop (2 + n) (ppd_pending d)"
  proof -
    have "ppd_pending d' = slice (2 + n) (nat (ppd_buf_used d - (2 + int n))) (ppd_pending d)"
    proof -
      have "ppd_pending d' = ppd_at (ppd_buf_start d + (2 + int n)) (ppd_buf_used d - (2 + int n)) d"
        by (simp add: ppd_pending_def res(1) ppd_at_def)
      then show ?thesis
        using ppd_at_pending [OF wf, of "2 + int n" "ppd_buf_used d - (2 + int n)"] used
        by (simp add: nat_add_distrib)
    qed
    also have "nat (ppd_buf_used d - (2 + int n)) = length (ppd_pending d) - (2 + n)"
      using length_pending [OF wf] by linarith
    finally show ?thesis by (simp only: drop_slice)
  qed
  ultimately show ?thesis using res by (simp add: out_def)
qed

lemma process_data_no_packet:
  assumes wf: "ppd_wf d"
  shows "incomplete (ppd_output_mtu d) (ppd_pending d) \<Longrightarrow> process_data d js = ppd_no_packet False d js"
    and "announced (ppd_pending d) = Some n \<Longrightarrow> ppd_output_mtu d < int n \<Longrightarrow>
      process_data d js = ppd_no_packet True d js"
proof -
  note H = slice_header [OF wf] and L = length_pending [OF wf]
  show "process_data d js = ppd_no_packet False d js" if "incomplete (ppd_output_mtu d) (ppd_pending d)"
  proof (cases "ppd_buf_used d < 2")
    case False
    then show ?thesis using that H L
      by (auto simp: process_data_def Let_def incomplete_def sizeof_packetproto_header_def ltoh16_def
          htol16_def simp del: of_nat_unat)
  qed (simp add: process_data_def sizeof_packetproto_header_def)
  show "process_data d js = ppd_no_packet True d js"
    if "announced (ppd_pending d) = Some n" "ppd_output_mtu d < int n"
  proof -
    have "\<not> length (ppd_pending d) < 2" using that(1) by (auto simp: announced_def split: if_splits)
    then have "\<not> ppd_buf_used d < 2" using L by linarith
    then show ?thesis using that H
      by (simp add: process_data_def Let_def sizeof_packetproto_header_def ltoh16_def htol16_def
          del: of_nat_unat)
  qed
qed

lemma process_data_wait:
  assumes wf: "ppd_wf d" and idle: "sri_state (ppd_input d) = STATE_NONE" "ppi_state (ppd_output d) = STATE_NONE"
    and queue: "ppd_queue d js" and inc: "incomplete (ppd_output_mtu d) (ppd_pending d)"
    and run: "process_data d js = (d', js', err)"
  shows "\<not> err \<and> ppd_wf d' \<and> ppd_queue d' js' \<and> receiving d' [] \<and> ppd_pending d' = ppd_pending d \<and>
    ppd_output_mtu d' = ppd_output_mtu d"
proof -
  note L = length_pending [OF wf]
  have used: "ppd_buf_used d < ppd_buf_size d"
  proof (rule ccontr)
    assume "\<not> ppd_buf_used d < ppd_buf_size d"
    then have "2 + ppd_output_mtu d \<le> int (length (ppd_pending d))" "2 \<le> ppd_buf_used d"
      using wf L by (simp_all add: ppd_wf_def)
    then show False using inc slice_header(2) [OF wf] by (simp add: incomplete_def del: of_nat_unat)
  qed
  define d1 where "d1 = (if ppd_buf_start d + ppd_buf_used d = ppd_buf_size d
    then d\<lparr>ppd_buf := splice 0 (ppd_pending d) (ppd_buf d), ppd_buf_start := 0\<rparr> else d)"
  have pend: "ppd_pending d1 = ppd_pending d"
  proof -
    have "length (ppd_pending d) \<le> length (ppd_buf d)" by (simp add: ppd_pending_def ppd_at_def)
    moreover have "nat (ppd_buf_used d) = length (ppd_pending d)" using L by simp
    ultimately show ?thesis by (simp add: d1_def ppd_pending_def [of "_\<lparr>ppd_buf_start := _\<rparr>"] ppd_at_def slice_splice_same)
  qed
  have wf1: "ppd_wf d1" "ppd_buf_start d1 + ppd_buf_used d1 < ppd_buf_size d1"
    using wf used L by (auto simp: ppd_wf_def d1_def)
  have same: "ppd_input d1 = ppd_input d" "ppd_output d1 = ppd_output d" "ppd_output_mtu d1 = ppd_output_mtu d"
    by (simp_all add: d1_def)
  have res: "(d', js') = ppd_receive d1 js" "\<not> err"
    using run unfolding process_data_no_packet(1) [OF wf inc]
    by (auto simp: ppd_no_packet_def Let_def d1_def ppd_pending_def ppd_at_def split: prod.splits)
  then have d': "d' = d1\<lparr>ppd_input := (ppd_input d)\<lparr>sri_job_operation_data := ppd_buf_start d1 + ppd_buf_used d1,
      sri_job_operation_len := ppd_buf_size d1 - (ppd_buf_start d1 + ppd_buf_used d1),
      sri_state := STATE_OPERATION_PENDING\<rparr>\<rparr>" "js' = BPending_Set (sri_job_operation (ppd_input d)) js"
    by (simp_all add: ppd_receive_def StreamRecvInterface_Receiver_Recv_def same)
  have "ppd_pending d' = ppd_pending d1" by (simp add: d' ppd_pending_def ppd_at_def)
  moreover have "ppd_queue d' js'" using queue idle
    by (auto simp: ppd_queue_def ppd_jobs_def d' same job_simps)
  ultimately show ?thesis using res(2) wf1 idle inc pend same
    by (auto simp: receiving_def d' ppd_wf_def)
qed

lemma process_data_error:
  assumes "ppd_wf d" and "announced (ppd_pending d) = Some n" and "ppd_output_mtu d < int n"
    and "process_data d js = (d', js', err)"
  shows "err"
  using assms(4) unfolding process_data_no_packet(2) [OF assms(1-3)]
  by (auto simp: ppd_no_packet_def split: prod.splits)

lemma pp_valid_slice: "announced bs = Some n \<Longrightarrow> int n \<le> mtu \<Longrightarrow> 2 + n \<le> length bs \<Longrightarrow> pp_valid mtu (slice 2 n bs)"
  using unsigned_less [of "of_mem (take 2 bs) :: u16", where ?'a = nat]
  by (auto simp: pp_valid_def announced_def split: if_splits)

text \<open>Whatever is at hand, \<open>process_data\<close> either passes on the next packet, waits, or fails.\<close>

lemma process_data_inv:
  assumes wf: "ppd_wf d" and idle: "sri_state (ppd_input d) = STATE_NONE" "ppi_state (ppd_output d) = STATE_NONE"
    and queue: "ppd_queue d js" and qs: "\<forall>q\<in>set qs. pp_valid (ppd_output_mtu d) q"
    and run: "process_data d js = (d', js', err)"
  shows "if err then \<exists>n. announced (ppd_pending d) = Some n \<and> ppd_output_mtu d < int n
    else \<exists>qs'. ppd_inv (d', js') (qs @ qs') [] \<and>
      ppd_pending d = concat (map pp_encode qs') @ ppd_pending d' \<and>
      ppd_output_mtu d' = ppd_output_mtu d \<and>
      ppd_given (ppi_state (ppd_output d')) (qs @ qs') = qs"
proof -
  consider (inc) "incomplete (ppd_output_mtu d) (ppd_pending d)"
    | (err) n where "announced (ppd_pending d) = Some n" "ppd_output_mtu d < int n"
    | (pk) n where "announced (ppd_pending d) = Some n" "int n \<le> ppd_output_mtu d" "2 + n \<le> length (ppd_pending d)"
    by (cases "announced (ppd_pending d)") (auto simp: incomplete_def, fastforce)
  then show ?thesis
  proof cases
    case inc
    have "ppi_state (ppd_output d') = STATE_NONE"
      using process_data_wait [OF wf idle queue inc run] by (simp add: receiving_def)
    then show ?thesis
      using process_data_wait [OF wf idle queue inc run] qs
      by (auto intro!: exI [of _ "[]"] simp: ppd_inv_def ppd_given_def)
  next
    case err
    then show ?thesis using process_data_error [OF wf err run] by auto
  next
    case pk
    note P = process_data_packet [OF wf idle queue pk run]
    let ?p = "slice 2 n (ppd_pending d)"
    have "ppd_pending d = pp_encode ?p @ ppd_pending d'" using P pp_parse [OF pk(1,3)] by simp
    moreover have "ppd_inv (d', js') (qs @ [?p]) []"
      using P qs pp_valid_slice [OF pk] by (auto simp: ppd_inv_def)
    ultimately show ?thesis using P by (auto intro!: exI [of _ "[?p]"] simp: ppd_given_def)
  qed
qed

lemma ppd_queue_jobs:
  "ppd_queue d (sri_job_operation (ppd_input d) # js) \<Longrightarrow>
     sri_state (ppd_input d) = STATE_OPERATION_PENDING \<and>
     ppd_queue (d\<lparr>ppd_input := (ppd_input d)\<lparr>sri_state := STATE_BUSY\<rparr>\<rparr>) js"
  "ppd_queue d (sri_job_done (ppd_input d) # js) \<Longrightarrow>
     sri_state (ppd_input d) = STATE_DONE_PENDING \<and>
     ppd_queue (d\<lparr>ppd_input := (ppd_input d)\<lparr>sri_state := STATE_NONE\<rparr>\<rparr>) js"
  "ppd_queue d (ppi_job_operation (ppd_output d) # js) \<Longrightarrow>
     ppi_state (ppd_output d) = STATE_OPERATION_PENDING \<and>
     ppd_queue (d\<lparr>ppd_output := (ppd_output d)\<lparr>ppi_state := STATE_BUSY\<rparr>\<rparr>) js"
  "ppd_queue d (ppi_job_done (ppd_output d) # js) \<Longrightarrow>
     ppi_state (ppd_output d) = STATE_DONE_PENDING \<and>
     ppd_queue (d\<lparr>ppd_output := (ppd_output d)\<lparr>ppi_state := STATE_NONE\<rparr>\<rparr>) js"
  by (auto simp: ppd_queue_def ppd_jobs_def)

lemma ppd_queue_done:
  "ppd_queue d js \<Longrightarrow> sri_state (ppd_input d) = STATE_BUSY \<Longrightarrow>
   ppd_queue (d\<lparr>ppd_input := (ppd_input d)\<lparr>sri_job_done_len := n, sri_state := STATE_DONE_PENDING\<rparr>\<rparr>)
     (BPending_Set (sri_job_done (ppd_input d)) js)"
  "ppd_queue d js \<Longrightarrow> ppi_state (ppd_output d) = STATE_BUSY \<Longrightarrow>
   ppd_queue (d\<lparr>ppd_output := (ppd_output d)\<lparr>ppi_state := STATE_DONE_PENDING\<rparr>\<rparr>)
     (BPending_Set (ppi_job_done (ppd_output d)) (BPending_Unset (ppi_job_requestcancel (ppd_output d)) js))"
  by (auto simp: ppd_queue_def ppd_jobs_def job_simps)

text \<open>
  What a step does to the stream: the bytes that enter extend the bytes at hand, and the packets
  taken off their front are given to the output in order.
\<close>

definition ppd_moves :: "'j ppd_world \<Rightarrow> byte list list \<Rightarrow> byte list \<Rightarrow> byte list \<Rightarrow> byte list list \<Rightarrow> bool \<Rightarrow>
  'j ppd_world \<Rightarrow> byte list list \<Rightarrow> byte list \<Rightarrow> bool" where
  "ppd_moves w qs inp i o' err w' qs' inp' \<longleftrightarrow>
     (if err then i = [] \<and> qs' = [] \<and> ppd_given (ppi_state (ppd_output (fst w))) qs @ o' = qs \<and>
        (\<exists>n. announced (ppd_pending (fst w) @ inp) = Some n \<and> ppd_output_mtu (fst w) < int n)
      else ppd_inv w' (qs @ qs') inp' \<and> ppd_output_mtu (fst w') = ppd_output_mtu (fst w) \<and>
        ppd_pending (fst w) @ inp @ i = concat (map pp_encode qs') @ ppd_pending (fst w') @ inp' \<and>
        ppd_given (ppi_state (ppd_output (fst w))) qs @ o' =
        ppd_given (ppi_state (ppd_output (fst w'))) (qs @ qs'))"

lemma ppd_input_store:
  assumes "ppd_inv (d, js) qs inp" and "sri_state (ppd_input d) = STATE_BUSY"
    and "int (length bs) \<le> sri_job_operation_len (ppd_input d)"
  shows "ppd_moves (d, js) qs inp [] [] False
    (d\<lparr>ppd_buf := splice (nat (sri_job_operation_data (ppd_input d))) bs (ppd_buf d)\<rparr>, js) [] inp"
proof -
  have I: "ppd_wf d" "receiving d inp" "ppd_queue d js" "\<forall>q\<in>set qs. pp_valid (ppd_output_mtu d) q"
    using assms(1,2) by (auto simp: ppd_inv_def sending_def)
  define p where "p = nat (sri_job_operation_data (ppd_input d))"
  define d' where "d' = d\<lparr>ppd_buf := splice p bs (ppd_buf d)\<rparr>"
  have p: "p + length bs \<le> length (ppd_buf d)" "nat (ppd_buf_start d) + nat (ppd_buf_used d) = p"
    using I(1,2) assms(3) by (auto simp: receiving_def ppd_wf_def p_def nat_add_distrib)
  have pend: "ppd_pending d' = ppd_pending d"
    using p by (simp add: ppd_pending_def ppd_at_def d'_def slice_splice_disjoint)
  have "ppd_wf d'" using I(1) p(1) by (simp add: ppd_wf_def d'_def)
  moreover have "receiving d' inp" using I(2) assms(2) pend by (simp add: receiving_def d'_def)
  moreover have "ppd_queue d' js" using I(3) by (simp add: ppd_queue_def ppd_jobs_def d'_def)
  ultimately have "ppd_moves (d, js) qs inp [] [] False (d', js) [] inp"
    using I(4) pend by (simp add: ppd_moves_def ppd_inv_def d'_def)
  then show ?thesis by (simp add: d'_def p_def)
qed

lemma ppd_input_ready:
  assumes "ppd_inv (d, js) qs inp" and "sri_state (ppd_input d) = STATE_BUSY"
    and "0 < n" and "n \<le> sri_job_operation_len (ppd_input d)"
    and "StreamRecvInterface_Done n (ppd_input d) js = (i, js')"
  shows "ppd_moves (d, js) qs inp (ppd_at (sri_job_operation_data (ppd_input d)) n d) [] False
    (d\<lparr>ppd_input := i\<rparr>, js') [] (ppd_at (sri_job_operation_data (ppd_input d)) n d)"
proof -
  have i: "i = (ppd_input d)\<lparr>sri_job_done_len := n, sri_state := STATE_DONE_PENDING\<rparr>"
    "js' = BPending_Set (sri_job_done (ppd_input d)) js"
    using assms(5) by (auto simp: StreamRecvInterface_Done_def)
  show ?thesis
    using assms(1-4) ppd_queue_done(1) [of d js n]
    by (auto simp: ppd_moves_def ppd_inv_def i ppd_wf_def receiving_def sending_def ppd_pending_def ppd_at_def)
qed

lemma ppd_output_ready:
  assumes "ppd_inv (d, js) qs inp" and "ppi_state (ppd_output d) = STATE_BUSY"
    and "PacketPassInterface_Done (ppd_output d) js = (i, js')"
  shows "ppd_moves (d, js) qs inp [] [] False (d\<lparr>ppd_output := i\<rparr>, js') [] inp"
proof -
  have i: "i = (ppd_output d)\<lparr>ppi_state := STATE_DONE_PENDING\<rparr>"
    "js' = BPending_Set (ppi_job_done (ppd_output d)) (BPending_Unset (ppi_job_requestcancel (ppd_output d)) js)"
    using assms(3) by (auto simp: PacketPassInterface_Done_def)
  show ?thesis
    using assms(1,2) ppd_queue_done(2) [of d js]
    by (auto simp: ppd_moves_def ppd_inv_def i ppd_wf_def receiving_def sending_def ppd_pending_def
        ppd_at_def ppd_given_def)
qed

lemma ppd_input_op:
  assumes "ppd_inv (d, sri_job_operation (ppd_input d) # js) qs inp"
    and "StreamRecvInterface_job_operation (ppd_input d) = (i, p, n)"
  shows "ppd_moves (d, sri_job_operation (ppd_input d) # js) qs inp [] [] False (d\<lparr>ppd_input := i\<rparr>, js) [] inp"
proof -
  have "i = (ppd_input d)\<lparr>sri_state := STATE_BUSY\<rparr>"
    using assms(2) by (simp add: StreamRecvInterface_job_operation_def)
  then show ?thesis using assms(1) ppd_queue_jobs(1) [of d js]
    by (auto simp: ppd_moves_def ppd_inv_def ppd_wf_def receiving_def sending_def ppd_pending_def ppd_at_def)
qed

lemma ppd_output_op:
  assumes "ppd_inv (d, ppi_job_operation (ppd_output d) # js) qs inp"
    and "PacketPassInterface_job_operation (ppd_output d) = (i, p, n)"
  shows "ppd_moves (d, ppi_job_operation (ppd_output d) # js) qs inp [] [ppd_at p n d] False
    (d\<lparr>ppd_output := i\<rparr>, js) [] inp"
proof -
  have i: "i = (ppd_output d)\<lparr>ppi_state := STATE_BUSY\<rparr>" "p = ppi_job_operation_data (ppd_output d)"
    "n = ppi_job_operation_len (ppd_output d)"
    using assms(2) by (auto simp: PacketPassInterface_job_operation_def)
  have st: "ppi_state (ppd_output d) = STATE_OPERATION_PENDING"
    using assms(1) ppd_queue_jobs(3) [of d js] by (auto simp: ppd_inv_def)
  then have "qs \<noteq> []" "ppd_at p n d = last qs"
    using assms(1) i by (auto simp: ppd_inv_def receiving_def sending_def)
  then show ?thesis using assms(1) ppd_queue_jobs(3) [of d js] st i
    by (auto simp: ppd_moves_def ppd_inv_def ppd_wf_def receiving_def sending_def ppd_pending_def
        ppd_at_def ppd_given_def)
qed

lemma process_data_moves:
  assumes "ppd_wf d" and "sri_state (ppd_input d) = STATE_NONE" and "ppi_state (ppd_output d) = STATE_NONE"
    and "ppd_queue d js" and "process_data d js = (d', js', err)"
    and "\<forall>q\<in>set qs. pp_valid (ppd_output_mtu d) q" and "ppd_output_mtu d = ppd_output_mtu (fst w)"
    and "ppd_pending d = ppd_pending (fst w) @ inp" and "ppd_given (ppi_state (ppd_output (fst w))) qs = qs"
  shows "\<exists>qs' inp'. ppd_moves w qs inp [] [] err (d', js') qs' inp'"
proof (cases err)
  case True
  then show ?thesis using process_data_inv [OF assms(1-4,6,5)] assms(7-9) by (auto simp: ppd_moves_def)
next
  case False
  then obtain qs' where "ppd_inv (d', js') (qs @ qs') []" "ppd_output_mtu d' = ppd_output_mtu d"
      "ppd_pending d = concat (map pp_encode qs') @ ppd_pending d'"
      "ppd_given (ppi_state (ppd_output d')) (qs @ qs') = qs"
    using process_data_inv [OF assms(1-4,6,5)] by auto
  then have "ppd_moves w qs inp [] [] err (d', js') qs' []"
    using False assms(7-9) by (simp add: ppd_moves_def)
  then show ?thesis by blast
qed

lemma ppd_input_done:
  assumes inv: "ppd_inv (d, sri_job_done (ppd_input d) # js) qs inp"
    and job: "StreamRecvInterface_job_done (ppd_input d) = (i, n)"
    and run: "ppd_input_handler_done n (d\<lparr>ppd_input := i\<rparr>) js = (d', js', err)"
  shows "\<exists>qs' inp'. ppd_moves (d, sri_job_done (ppd_input d) # js) qs inp [] [] err (d', js') qs' inp'"
proof -
  have i: "i = (ppd_input d)\<lparr>sri_state := STATE_NONE\<rparr>" "n = sri_job_done_len (ppd_input d)"
    using job by (auto simp: StreamRecvInterface_job_done_def)
  have st: "sri_state (ppd_input d) = STATE_DONE_PENDING" and queue: "ppd_queue (d\<lparr>ppd_input := i\<rparr>) js"
    using inv ppd_queue_jobs(2) [of d js] by (auto simp: ppd_inv_def i)
  have I: "ppd_wf d" "receiving d inp" "\<forall>q\<in>set qs. pp_valid (ppd_output_mtu d) q"
    using inv st by (auto simp: ppd_inv_def sending_def)
  define d1 where "d1 = d\<lparr>ppd_input := i, ppd_buf_used := ppd_buf_used d + n\<rparr>"
  have n: "0 < n" "ppd_buf_start d + ppd_buf_used d + n \<le> ppd_buf_size d"
    and inp: "inp = ppd_at (ppd_buf_start d + ppd_buf_used d) n d"
    using I(2) st i by (auto simp: receiving_def)
  have wf: "ppd_wf d1" using I(1) n by (simp add: ppd_wf_def d1_def)
  have pend: "ppd_pending d1 = ppd_pending d @ inp"
  proof -
    have "nat (ppd_buf_start d) + nat (ppd_buf_used d) + nat n \<le> length (ppd_buf d)"
      using I(1) n unfolding ppd_wf_def by linarith
    from slice_append [OF this] show ?thesis
      using I(1) n by (simp add: ppd_pending_def ppd_at_def d1_def inp ppd_wf_def nat_add_distrib)
  qed
  have q1: "ppd_queue d1 js" using queue by (simp add: ppd_queue_def ppd_jobs_def d1_def)
  have idle: "sri_state (ppd_input d1) = STATE_NONE" "ppi_state (ppd_output d1) = STATE_NONE"
    using I(2) by (simp_all add: d1_def i receiving_def)
  have run1: "process_data d1 js = (d', js', err)"
    using run by (simp add: ppd_input_handler_done_def d1_def)
  have given: "ppd_given (ppi_state (ppd_output d)) qs = qs"
    using I(2) by (simp add: ppd_given_def receiving_def)
  have mtu: "ppd_output_mtu d1 = ppd_output_mtu d" by (simp add: d1_def)
  show ?thesis using process_data_moves [OF wf idle q1 run1] given mtu pend I(3) by simp
qed

lemma ppd_output_done:
  assumes inv: "ppd_inv (d, ppi_job_done (ppd_output d) # js) qs inp"
    and job: "PacketPassInterface_job_done (ppd_output d) = i"
    and run: "ppd_output_handler_done (d\<lparr>ppd_output := i\<rparr>) js = (d', js', err)"
  shows "\<exists>qs' inp'. ppd_moves (d, ppi_job_done (ppd_output d) # js) qs inp [] [] err (d', js') qs' inp'"
proof -
  have i: "i = (ppd_output d)\<lparr>ppi_state := STATE_NONE\<rparr>"
    using job by (auto simp: PacketPassInterface_job_done_def)
  define d1 where "d1 = d\<lparr>ppd_output := i\<rparr>"
  have st: "ppi_state (ppd_output d) = STATE_DONE_PENDING" and queue: "ppd_queue d1 js"
    using inv ppd_queue_jobs(4) [of d js] by (auto simp: ppd_inv_def i d1_def)
  have I: "ppd_wf d" "sri_state (ppd_input d) = STATE_NONE" "inp = []"
    "\<forall>q\<in>set qs. pp_valid (ppd_output_mtu d) q"
    using inv st by (auto simp: ppd_inv_def receiving_def sending_def)
  have wf: "ppd_wf d1" using I(1) by (simp add: ppd_wf_def d1_def)
  have same: "ppd_pending d1 = ppd_pending d" "ppd_output_mtu d1 = ppd_output_mtu d"
    by (simp_all add: d1_def ppd_pending_def ppd_at_def)
  have idle: "sri_state (ppd_input d1) = STATE_NONE" "ppi_state (ppd_output d1) = STATE_NONE"
    using I(2) by (simp_all add: d1_def i)
  have run1: "process_data d1 js = (d', js', err)"
    using run by (simp add: ppd_output_handler_done_def d1_def)
  have "ppd_given (ppi_state (ppd_output d)) qs = qs" using st by (simp add: ppd_given_def)
  then show ?thesis using process_data_moves [OF wf idle queue run1] same I(3,4) by simp
qed

lemma ppd_step_moves:
  assumes "ppd_step w i o' err w'" and "ppd_inv w qs inp"
  shows "\<exists>qs' inp'. ppd_moves w qs inp i o' err w' qs' inp'"
  using assms
proof (cases rule: ppd_step.cases)
  case (input_store d bs js)
  then show ?thesis using ppd_input_store [of d js qs inp bs] assms(2) by blast
next
  case (input_ready d n js x js')
  then show ?thesis using ppd_input_ready [of d js qs inp n x js'] assms(2) by blast
next
  case (output_ready d js x js')
  then show ?thesis using ppd_output_ready [of d js qs inp x js'] assms(2) by blast
next
  case (input_op d x p n js)
  then show ?thesis using ppd_input_op [of d js qs inp x p n] assms(2) by blast
next
  case (input_done d x n js d' js')
  then show ?thesis using ppd_input_done [of d js qs inp x n d' js' err] assms(2) by blast
next
  case (output_op d x p n js)
  then show ?thesis using ppd_output_op [of d js qs inp x p n] assms(2) by blast
next
  case (output_done d x js d' js')
  then show ?thesis using ppd_output_done [of d js qs inp x d' js' err] assms(2) by blast
qed

text \<open>
  What a run has done: it has parsed the stream into packets, which it has passed on, and holds
  a rest.  After an error the rest starts with a header that announces more than the MTU.
\<close>

definition ppd_progress :: "int \<Rightarrow> byte list \<Rightarrow> byte list list \<Rightarrow> bool \<Rightarrow> 'j ppd_world \<Rightarrow> byte list list \<Rightarrow>
  byte list \<Rightarrow> bool" where
  "ppd_progress mtu ins outs err w qs rest \<longleftrightarrow>
     ins = concat (map pp_encode qs) @ rest \<and> (\<forall>q\<in>set qs. pp_valid mtu q) \<and>
     (if err then outs = qs \<and> (\<exists>n. announced rest = Some n \<and> mtu < int n)
      else \<exists>inp. ppd_output_mtu (fst w) = mtu \<and> ppd_inv w qs inp \<and> rest = ppd_pending (fst w) @ inp \<and>
        outs = ppd_given (ppi_state (ppd_output (fst w))) qs)"

lemma ppd_run_progress:
  "ppd_run w ins outs err w' \<Longrightarrow> ppd_inv w [] [] \<Longrightarrow> ppd_pending (fst w) = [] \<Longrightarrow>
   ppd_output_mtu (fst w) = mtu \<Longrightarrow> \<exists>qs rest. ppd_progress mtu ins outs err w' qs rest"
proof (induction rule: ppd_run.induct)
  case (ppd_nil w)
  then have "ppd_progress mtu [] [] False w [] []" by (simp add: ppd_progress_def ppd_given_def)
  then show ?case by blast
next
  case (ppd_snoc w ins outs w' i o' err w'')
  then obtain qs rest where "ppd_progress mtu ins outs False w' qs rest" by blast
  then obtain inp where P: "ins = concat (map pp_encode qs) @ rest" "\<forall>q\<in>set qs. pp_valid mtu q"
      "ppd_output_mtu (fst w') = mtu" "ppd_inv w' qs inp" "rest = ppd_pending (fst w') @ inp"
      "outs = ppd_given (ppi_state (ppd_output (fst w'))) qs"
    by (auto simp: ppd_progress_def)
  obtain qs' inp' where M: "ppd_moves w' qs inp i o' err w'' qs' inp'"
    using ppd_step_moves [OF ppd_snoc.hyps(2) P(4)] by blast
  show ?case
  proof (cases err)
    case True
    then have "ppd_progress mtu (ins @ i) (outs @ o') err w'' qs rest"
      using M P by (simp add: ppd_progress_def ppd_moves_def)
    then show ?thesis by blast
  next
    case False
    then have S: "ppd_inv w'' (qs @ qs') inp'" "ppd_output_mtu (fst w'') = mtu"
        "rest @ i = concat (map pp_encode qs') @ ppd_pending (fst w'') @ inp'"
        "outs @ o' = ppd_given (ppi_state (ppd_output (fst w''))) (qs @ qs')"
      using M P by (simp_all add: ppd_moves_def)
    then have "\<forall>q\<in>set (qs @ qs'). pp_valid mtu q" by (simp add: ppd_inv_def)
    then have "ppd_progress mtu (ins @ i) (outs @ o') err w'' (qs @ qs') (ppd_pending (fst w'') @ inp')"
      using S P(1) False by (simp add: ppd_progress_def)
    then show ?thesis by blast
  qed
qed

text \<open>An input and an output that are idle and have no jobs in the queue.\<close>

definition ppd_fresh :: "'j ppd_world \<Rightarrow> bool" where
  "ppd_fresh w \<longleftrightarrow>
     distinct (snd w) \<and> distinct (ppd_jobs (fst w)) \<and> set (ppd_jobs (fst w)) \<inter> set (snd w) = {} \<and>
     sri_state (ppd_input (fst w)) = STATE_NONE \<and> ppi_state (ppd_output (fst w)) = STATE_NONE \<and>
     0 \<le> ppi_mtu (ppd_output (fst w))"

definition decoder_mtu :: "'j ppd_world \<Rightarrow> int" where
  "decoder_mtu w = min (ppi_mtu (ppd_output (fst w))) 65535"

lemma ppd_init_inv:
  assumes "PacketProtoDecoder_Init malloc d js = Some w" and "ppd_fresh (d, js)"
    and malloc: "\<And>n m. malloc n = Some m \<Longrightarrow> int (length m) = n"
  shows "ppd_inv w [] [] \<and> ppd_pending (fst w) = [] \<and> ppd_output_mtu (fst w) = decoder_mtu (d, js)"
proof -
  define mtu where "mtu = decoder_mtu (d, js)"
  define i where "i = StreamRecvInterface_Receiver_Init (ppd_input d)"
  define out where "out = PacketPassInterface_Sender_Init (ppd_output d)"
  have mtu: "0 \<le> mtu" "mtu \<le> 65535" "bmin_int (PacketPassInterface_GetMTU out) PACKETPROTO_MAXPAYLOAD = mtu"
    using assms(2) by (auto simp: ppd_fresh_def mtu_def decoder_mtu_def bmin_int_def iface_defs out_def
        PACKETPROTO_MAXPAYLOAD_def min_def)
  obtain m where m: "malloc (2 + mtu) = Some m"
    and w: "w = (d\<lparr>ppd_input := i\<lparr>sri_job_operation_data := 0, sri_job_operation_len := 2 + mtu,
        sri_state := STATE_OPERATION_PENDING\<rparr>, ppd_output := out, ppd_output_mtu := mtu,
        ppd_buf_size := 2 + mtu, ppd_buf_start := 0, ppd_buf_used := 0, ppd_buf := m\<rparr>,
        BPending_Set (sri_job_operation i) js)"
    using assms(1) mtu(3)
    by (auto simp: PacketProtoDecoder_Init_def Let_def PACKETPROTO_ENCLEN_def sizeof_packetproto_header_def
        StreamRecvInterface_Receiver_Recv_def i_def out_def split: option.splits)
  have "ppd_queue (fst w) (snd w)"
    using assms(2) by (auto simp: w ppd_fresh_def ppd_queue_def ppd_jobs_def iface_defs i_def out_def job_simps)
  moreover have "ppd_wf (fst w)" using malloc [OF m] mtu by (simp add: w ppd_wf_def)
  moreover have pend: "ppd_pending (fst w) = []" by (simp add: w ppd_pending_def ppd_at_def)
  moreover have "receiving (fst w) []"
    using assms(2) mtu(1) pend
    by (simp add: receiving_def w ppd_fresh_def incomplete_def announced_def iface_defs out_def)
  ultimately show ?thesis by (simp add: ppd_inv_def mtu_def w)
qed

text \<open>A stream has at most one reading as encoded packets.\<close>

lemma pp_stream_unique:
  assumes "concat (map pp_encode qs) @ bs = concat (map pp_encode ps)"
    and "\<forall>q\<in>set qs. length q \<le> 65535" and "\<forall>p\<in>set ps. length p \<le> 65535"
  shows "\<exists>ps'. ps = qs @ ps' \<and> bs = concat (map pp_encode ps')"
  using assms
proof (induction qs arbitrary: ps)
  case (Cons q qs)
  then obtain p ps1 where ps: "ps = p # ps1"
    by (cases ps) (auto simp: pp_encode_def mem16_def)
  then have "q = p \<and> concat (map pp_encode qs) @ bs = concat (map pp_encode ps1)"
    using Cons.prems by (intro pp_encode_prefix) auto
  then show ?case using Cons.IH [of ps1] Cons.prems ps by auto
qed simp

lemma announced_append: "announced bs = Some n \<Longrightarrow> announced (bs @ cs) = Some n"
  by (auto simp: announced_def split: if_splits)

lemma announced_stream:
  assumes "announced (concat (map pp_encode ps)) = Some n" and "\<forall>p\<in>set ps. length p \<le> 65535"
  shows "\<exists>p ps'. ps = p # ps' \<and> n = length p"
  using assms announced_encode by (cases ps) (auto simp: announced_def)

text \<open>C8. The decoder on any stream and any interleaving of its providers: the bytes received are
  the encodings of valid packets followed by a rest; the packets given to the output are these
  packets in order, but for the last one while it waits to be given.  The error handler is called
  only when the next header announces more than the MTU, and while the decoder waits for bytes
  every complete packet has been given to the output.\<close>

theorem packetproto_decoder_sound:
  assumes "PacketProtoDecoder_Init malloc d js = Some w" and "ppd_fresh (d, js)"
    and "\<And>n m. malloc n = Some m \<Longrightarrow> int (length m) = n"
    and "ppd_run w ins outs err w'"
  shows "\<exists>qs rest. ins = concat (map pp_encode qs) @ rest \<and> (\<forall>q\<in>set qs. pp_valid (decoder_mtu (d, js)) q) \<and>
    (outs = qs \<or> outs = butlast qs \<and> ppi_state (ppd_output (fst w')) = STATE_OPERATION_PENDING) \<and>
    (err \<longrightarrow> (\<exists>n. announced rest = Some n \<and> decoder_mtu (d, js) < int n)) \<and>
    (\<not> err \<and> sri_state (ppd_input (fst w')) = STATE_BUSY \<longrightarrow>
       outs = qs \<and> incomplete (decoder_mtu (d, js)) rest)"
proof -
  obtain qs rest where "ppd_progress (decoder_mtu (d, js)) ins outs err w' qs rest"
    using ppd_run_progress [OF assms(4)] ppd_init_inv [OF assms(1-3)] by blast
  then show ?thesis
    by (intro exI [of _ qs] exI [of _ rest])
      (auto simp: ppd_progress_def ppd_inv_def ppd_given_def receiving_def sending_def split: if_splits)
qed

text \<open>C2. Decoding inverts encoding: when the bytes received so far are the beginning of the encodings
  of packets that fit the MTU, there is no error, the packets given to the output are the first of
  them, and when all bytes have come and the decoder waits for more they are all of them.\<close>

theorem packetproto_roundtrip:
  assumes "PacketProtoDecoder_Init malloc d js = Some w" and "ppd_fresh (d, js)"
    and "\<And>n m. malloc n = Some m \<Longrightarrow> int (length m) = n"
    and "ppd_run w ins outs err w'"
    and "ins @ later = concat (map pp_encode ps)" and "\<forall>p\<in>set ps. pp_valid (decoder_mtu (d, js)) p"
  shows "\<not> err \<and> (\<exists>ps'. ps = outs @ ps' \<and>
    (later = [] \<and> sri_state (ppd_input (fst w')) = STATE_BUSY \<longrightarrow> ps' = []))"
proof -
  define mtu where "mtu = decoder_mtu (d, js)"
  obtain qs rest where P: "ppd_progress mtu ins outs err w' qs rest"
    using ppd_run_progress [OF assms(4)] ppd_init_inv [OF assms(1-3)] by (auto simp: mtu_def)
  then obtain ps1 where ps1: "ps = qs @ ps1" "rest @ later = concat (map pp_encode ps1)"
    using pp_stream_unique [of qs "rest @ later" ps] assms(5,6) by (auto simp: ppd_progress_def pp_valid_def)
  have fits: "\<forall>p\<in>set ps1. length p \<le> 65535 \<and> int (length p) \<le> mtu"
    using assms(6) ps1(1) by (auto simp: pp_valid_def mtu_def)
  have "\<not> err"
  proof
    assume err
    then obtain n where "announced (rest @ later) = Some n" "mtu < int n"
      using P announced_append by (auto simp: ppd_progress_def)
    then show False using announced_stream [of ps1 n] ps1(2) fits by auto
  qed
  moreover have "\<exists>ps'. ps = outs @ ps' \<and> (outs = qs \<longrightarrow> ps' = ps1)"
    using P \<open>\<not> err\<close> ps1(1)
    by (cases qs rule: rev_cases) (auto simp: ppd_progress_def ppd_given_def)
  moreover have "outs = qs \<and> ps1 = []" if "later = []" "sri_state (ppd_input (fst w')) = STATE_BUSY"
  proof -
    have q: "outs = qs" and inc: "incomplete mtu rest"
      using P \<open>\<not> err\<close> that(2)
      by (auto simp: ppd_progress_def ppd_inv_def ppd_given_def receiving_def sending_def split: if_splits)
    have "ps1 = []"
    proof (cases ps1)
      case (Cons p ps2)
      then have "rest = pp_encode p @ concat (map pp_encode ps2)" using ps1(2) that(1) by simp
      then show ?thesis using inc fits announced_encode [of p] Cons
        by (simp add: incomplete_def length_pp_encode)
    qed
    with q show ?thesis by simp
  qed
  ultimately show ?thesis by blast
qed

text \<open>C24. The encoder frames a packet: asked for a packet at \<open>data\<close>, it has its input put the payload
  behind the header, and once the payload is there the memory at \<open>data\<close> holds the encoding of the
  packet, nothing else has changed, and the user is told the length of the encoding.\<close>

theorem packetproto_encoder_frames:
  assumes "ppe_output_handler_recv data enc js = (enc1, js1)" and "0 \<le> data"
    and "length p \<le> 65535" and "nat data + 2 + length p \<le> length m"
    and "m1 = splice (nat (pri_job_operation_data (ppe_input enc1))) p m"
    and "ppe_input_handler_done (int (length p)) (enc1\<lparr>ppe_input := i\<rparr>) m1 js2 = (enc2, m2, js3)"
  shows "m2 = splice (nat data) (pp_encode p) m \<and>
    pri_job_done_len (ppe_output enc2) = int (length (pp_encode p)) \<and>
    pri_state (ppe_output enc2) = STATE_DONE_PENDING \<and>
    js3 = BPending_Set (pri_job_done (ppe_output enc)) js2 \<and> ppe_output_packet enc2 = None"
proof -
  have e1: "ppe_output_packet enc1 = Some data" "pri_job_operation_data (ppe_input enc1) = data + 2"
    "ppe_output enc1 = ppe_output enc"
    using assms(1) by (auto simp: ppe_output_handler_recv_def Let_def sizeof_packetproto_header_def
        PacketRecvInterface_Receiver_Recv_def split: prod.splits)
  have "m2 = splice (nat data) (mem16 (htol16 (of_nat (length p)))) m1"
    and rest: "pri_job_done_len (ppe_output enc2) = 2 + int (length p)"
    "pri_state (ppe_output enc2) = STATE_DONE_PENDING"
    "js3 = BPending_Set (pri_job_done (ppe_output enc)) js2" "ppe_output_packet enc2 = None"
    using assms(6) e1
    by (auto simp: ppe_input_handler_done_def packetproto_header_bytes_def PACKETPROTO_ENCLEN_def
        sizeof_packetproto_header_def PacketRecvInterface_Done_def Let_def)
  moreover have "splice (nat data) h (splice (nat data + 2) p m) = splice (nat data) (h @ p) m"
    if "length h = 2" for h :: "byte list"
    using assms(4) that
    by (auto simp: splice_def min_def ac_simps intro!: arg_cong2 [where f = append])
  ultimately show ?thesis
    using assms(2,5) e1(2) by (simp add: pp_encode_def nat_add_distrib)
qed

text \<open>A decoder for packets of up to two bytes that receives the encoding of the packet \<open>[7]\<close>.\<close>

definition example_ppd :: "nat PacketProtoDecoder" where
  "example_ppd = \<lparr>ppd_input = \<lparr>sri_handler_done = False, sri_job_operation = 0, sri_job_operation_data = 0,
      sri_job_operation_len = 0, sri_job_done = 1, sri_job_done_len = 0, sri_state = STATE_NONE\<rparr>,
    ppd_output = \<lparr>ppi_mtu = 2, ppi_handler_requestcancel = False, ppi_handler_done = False,
      ppi_job_operation = 2, ppi_job_operation_data = 0, ppi_job_operation_len = 0,
      ppi_job_requestcancel = 3, ppi_job_done = 4, ppi_state = STATE_NONE, ppi_cancel_requested = False\<rparr>,
    ppd_output_mtu = 0, ppd_buf_size = 0, ppd_buf_start = 0, ppd_buf_used = 0, ppd_buf = []\<rparr>"

definition example_ppd_malloc :: "int \<Rightarrow> byte list option" where
  "example_ppd_malloc n = (if n < 0 then None else Some (replicate (nat n) 0))"

lemma example_ppd_fresh: "ppd_fresh (example_ppd, [])"
  by (simp add: ppd_fresh_def example_ppd_def ppd_jobs_def)

lemma example_ppd_malloc: "example_ppd_malloc n = Some m \<Longrightarrow> int (length m) = n"
  by (auto simp: example_ppd_malloc_def split: if_splits)

lemma example_ppd_run:
  "\<exists>w w'. PacketProtoDecoder_Init example_ppd_malloc example_ppd [] = Some w \<and>
     ppd_run w [1, 0, 7] [[7]] False w'"
proof -
  define d0 where "d0 = example_ppd\<lparr>ppd_input := (ppd_input example_ppd)\<lparr>sri_handler_done := True,
      sri_job_operation_len := 4, sri_state := STATE_OPERATION_PENDING\<rparr>,
    ppd_output := (ppd_output example_ppd)\<lparr>ppi_handler_done := True\<rparr>,
    ppd_output_mtu := 2, ppd_buf_size := 4, ppd_buf := [0, 0, 0, 0]\<rparr>"
  have init: "PacketProtoDecoder_Init example_ppd_malloc example_ppd [] = Some (d0, [0])"
    by (simp add: PacketProtoDecoder_Init_def d0_def example_ppd_def example_ppd_malloc_def iface_defs
        bmin_int_def PACKETPROTO_MAXPAYLOAD_def PACKETPROTO_ENCLEN_def sizeof_packetproto_header_def
        BPending_Set_def eval_nat_numeral)
  define d1 where "d1 = d0\<lparr>ppd_input := (ppd_input d0)\<lparr>sri_state := STATE_BUSY\<rparr>\<rparr>"
  define d2 where "d2 = d1\<lparr>ppd_buf := [1, 0, 7, 0]\<rparr>"
  define d3 where "d3 = d2\<lparr>ppd_input := (ppd_input d2)\<lparr>sri_job_done_len := 3, sri_state := STATE_DONE_PENDING\<rparr>\<rparr>"
  define d4 where "d4 = d3\<lparr>ppd_input := (ppd_input d3)\<lparr>sri_state := STATE_NONE\<rparr>, ppd_buf_start := 3,
    ppd_output := (ppd_output d3)\<lparr>ppi_job_operation_data := 2, ppi_job_operation_len := 1,
      ppi_state := STATE_OPERATION_PENDING, ppi_cancel_requested := False\<rparr>\<rparr>"
  define d5 where "d5 = d4\<lparr>ppd_output := (ppd_output d4)\<lparr>ppi_state := STATE_BUSY\<rparr>\<rparr>"
  note defs = d5_def d4_def d3_def d2_def d1_def d0_def example_ppd_def
  have s1: "ppd_step (d0, [0]) [] [] False (d1, [])"
    using input_op [of d0 "ppd_input d1" 0 4 "[]"] by (simp add: defs iface_defs)
  have s2: "ppd_step (d1, []) [] [] False (d2, [])"
    using input_store [of d1 "[1, 0, 7, 0]" "[]"] by (simp add: defs splice_def)
  have s3: "ppd_step (d2, []) [1, 0, 7] [] False (d3, [1])"
    using input_ready [of d2 3 "[]" "ppd_input d3" "[1]"]
    by (simp add: defs iface_defs ppd_at_def slice_def BPending_Set_def)
  have len: "(of_mem [1, 0] :: u16) = 1" by (simp add: of_mem.simps)
  have s4: "ppd_step (d3, [1]) [] [] False (d4, [2])"
    using input_done [of d3 "(ppd_input d3)\<lparr>sri_state := STATE_NONE\<rparr>" 3 "[]" d4 "[2]" False]
    by (simp add: defs iface_defs ppd_input_handler_done_def process_data_def sizeof_packetproto_header_def
        packetproto_header_load_def slice_def len ltoh16_def htol16_def BPending_Set_def)
  have s5: "ppd_step (d4, [2]) [] [[7]] False (d5, [])"
    using output_op [of d4 "ppd_output d5" 2 1 "[]"] by (simp add: defs iface_defs ppd_at_def slice_def)
  have "ppd_run (d0, [0]) [1, 0, 7] [[7]] False (d5, [])"
    using ppd_snoc [OF ppd_snoc [OF ppd_snoc [OF ppd_snoc [OF ppd_snoc [OF ppd_nil s1] s2] s3] s4] s5] by simp
  then show ?thesis using init by blast
qed

theorem packetproto_decoder_sound_witness:
  "\<exists>w w'. PacketProtoDecoder_Init example_ppd_malloc example_ppd [] = Some w \<and>
     ppd_run w [1, 0, 7] [[7]] False w' \<and>
     (\<exists>qs rest. [1, 0, 7] = concat (map pp_encode qs) @ rest \<and> ([[7]] = qs \<or> [[7]] = butlast qs))"
proof -
  obtain w w' where *: "PacketProtoDecoder_Init example_ppd_malloc example_ppd [] = Some w"
      "ppd_run w [1, 0, 7] [[7]] False w'" using example_ppd_run by blast
  show ?thesis
    using * packetproto_decoder_sound [OF *(1) example_ppd_fresh example_ppd_malloc *(2)] by blast
qed

theorem packetproto_roundtrip_witness:
  "\<exists>w w'. PacketProtoDecoder_Init example_ppd_malloc example_ppd [] = Some w \<and>
     ppd_run w [1, 0, 7] [[7]] False w' \<and> concat (map pp_encode [[7]]) = [1, 0, 7] \<and>
     (\<exists>ps'. [[7]] = [[7]] @ (ps' :: byte list list))"
proof -
  obtain w w' where *: "PacketProtoDecoder_Init example_ppd_malloc example_ppd [] = Some w"
      "ppd_run w [1, 0, 7] [[7]] False w'" using example_ppd_run by blast
  have enc: "concat (map pp_encode [[7]]) = [1, 0, 7]"
    by (simp add: pp_encode_def mem16_def mem_byte_def htol16_def)
  have valid: "\<forall>p\<in>set [[7]]. pp_valid (decoder_mtu (example_ppd, [])) (p :: byte list)"
    by (simp add: pp_valid_def decoder_mtu_def example_ppd_def)
  have "[1, 0, 7] @ [] = concat (map pp_encode [[7]])" using enc by simp
  from packetproto_roundtrip [OF *(1) example_ppd_fresh example_ppd_malloc *(2) this valid]
  show ?thesis using * enc by blast
qed

definition example_ppe :: "nat PacketProtoEncoder" where
  "example_ppe = (let i = \<lparr>pri_mtu = 4, pri_handler_done = True, pri_job_operation = 0,
      pri_job_operation_data = 0, pri_job_done = 1, pri_job_done_len = 0, pri_state = STATE_NONE\<rparr>
    in \<lparr>ppe_input = i, ppe_output = i\<lparr>pri_mtu := 6, pri_job_operation := 2, pri_job_done := 3,
      pri_state := STATE_BUSY\<rparr>, ppe_output_packet = None\<rparr>)"

theorem packetproto_encoder_frames_witness:
  "\<exists>enc1 enc2 m2 js1 js3. ppe_output_handler_recv 1 example_ppe [] = (enc1, js1) \<and>
     ppe_input_handler_done 2 enc1 (splice 3 [8, 9] [0, 0, 0, 0, 0]) [] = (enc2, m2, js3) \<and>
     m2 = [0, 2, 0, 8, 9]"
proof -
  obtain enc1 js1 where 1: "ppe_output_handler_recv 1 example_ppe [] = (enc1, js1)"
    by (cases "ppe_output_handler_recv 1 example_ppe []")
  have d: "pri_job_operation_data (ppe_input enc1) = 3"
    using 1 by (auto simp: ppe_output_handler_recv_def iface_defs example_ppe_def
        sizeof_packetproto_header_def Let_def)
  obtain enc2 m2 js3 where 2: "ppe_input_handler_done 2 enc1 (splice 3 [8, 9] [0, 0, 0, 0, 0]) [] = (enc2, m2, js3)"
    by (cases "ppe_input_handler_done 2 enc1 (splice 3 [8, 9] [0, 0, 0, 0, 0]) []")
  have "m2 = splice 1 (pp_encode [8, 9]) [0, 0, 0, 0, 0]"
    using packetproto_encoder_frames [OF 1, of "[8, 9]" "[0, 0, 0, 0, 0]" _ "ppe_input enc1"] 2 d by simp
  also have "\<dots> = [0, 2, 0, 8, 9]"
    by (simp add: splice_def pp_encode_def mem16_def mem_byte_def htol16_def)
  finally show ?thesis using 1 2 by blast
qed

end
