(* ===== verification/ParseNumber.thy ===== *)
theory ParseNumber
  imports Prelude
begin

text \<open>
  \<open>misc/memref.h\<close> and \<open>misc/parse_number.h\<close>.  A \<open>MemRef\<close> is the string it refers to; that an index
  lies inside it is the assertion of the code.  \<open>uintmax_t\<close> has 64 bits.  The references are the
  usual values of digit strings; the lemmas show that the parsers accept exactly the digit strings
  whose value fits, and that printing is inverted by parsing.
\<close>

section \<open>memref.h\<close>

type_synonym MemRef = string

definition MemRef_Make :: "string \<Rightarrow> nat \<Rightarrow> MemRef" where
  "MemRef_Make p len = take len p"

definition MemRef_At :: "MemRef \<Rightarrow> nat \<Rightarrow> char" where
  "MemRef_At r pos = r ! pos"

definition MemRef_SubFrom :: "MemRef \<Rightarrow> nat \<Rightarrow> MemRef" where
  "MemRef_SubFrom r off = MemRef_Make (drop off r) (length r - off)"

definition MemRef_SubTo :: "MemRef \<Rightarrow> nat \<Rightarrow> MemRef" where
  "MemRef_SubTo r len = MemRef_Make r len"

definition MemRef_Sub :: "MemRef \<Rightarrow> nat \<Rightarrow> nat \<Rightarrow> MemRef" where
  "MemRef_Sub r off len = MemRef_Make (drop off r) len"

text \<open>\<open>memcmp\<close> of two regions of the same size: the sign of its result.\<close>

fun memcmp :: "nat list \<Rightarrow> nat list \<Rightarrow> int" where
  "memcmp (x # xs) (y # ys) = (if x < y then -1 else if y < x then 1 else memcmp xs ys)"
| "memcmp _ _ = 0"

definition MemRef_Equal :: "MemRef \<Rightarrow> MemRef \<Rightarrow> bool" where
  "MemRef_Equal r other \<longleftrightarrow> length r = length other \<and> memcmp (map of_char r) (map of_char other) = 0"

fun find_char_from :: "nat \<Rightarrow> char \<Rightarrow> string \<Rightarrow> nat option" where
  "find_char_from i ch [] = None"
| "find_char_from i ch (c # cs) = (if c = ch then Some i else find_char_from (Suc i) ch cs)"

definition MemRef_FindChar :: "MemRef \<Rightarrow> char \<Rightarrow> nat option" where
  "MemRef_FindChar r ch = find_char_from 0 ch r"

definition b_find_char_bin :: "string \<Rightarrow> char \<Rightarrow> nat option" where
  "b_find_char_bin str c = find_char_from 0 c str"

lemma memcmp_eq_0: "length xs = length ys \<Longrightarrow> memcmp xs ys = 0 \<longleftrightarrow> xs = ys"
  by (induction xs ys rule: memcmp.induct) auto

lemma MemRef_Equal_iff: "MemRef_Equal r s \<longleftrightarrow> r = s"
proof -
  have "inj (of_char :: char \<Rightarrow> nat)" by (rule injI) simp
  then show ?thesis by (auto simp: MemRef_Equal_def memcmp_eq_0)
qed

lemma find_char_from_Some:
  "find_char_from i ch s = Some p \<longleftrightarrow>
     i \<le> p \<and> p - i < length s \<and> s ! (p - i) = ch \<and> ch \<notin> set (take (p - i) s)"
proof (induction s arbitrary: i)
  case (Cons c s)
  show ?case
  proof (cases "p = i")
    case True
    then show ?thesis using Cons.IH [of "Suc i"] by auto
  next
    case False
    then show ?thesis
      by (cases "i < p") (auto simp: Cons.IH nth_Cons' take_Cons' Suc_diff_Suc)
  qed
qed simp

lemma find_char_from_None: "find_char_from i ch s = None \<longleftrightarrow> ch \<notin> set s"
  by (induction s arbitrary: i) auto


section \<open>parse_number.h\<close>

definition decode_decimal_digit :: "char \<Rightarrow> int" where
  "decode_decimal_digit c =
     (if c = CHR ''0'' then 0 else if c = CHR ''1'' then 1 else if c = CHR ''2'' then 2
      else if c = CHR ''3'' then 3 else if c = CHR ''4'' then 4 else if c = CHR ''5'' then 5
      else if c = CHR ''6'' then 6 else if c = CHR ''7'' then 7 else if c = CHR ''8'' then 8
      else if c = CHR ''9'' then 9 else -1)"

definition decode_hex_digit :: "char \<Rightarrow> int" where
  "decode_hex_digit c =
     (if c = CHR ''0'' then 0 else if c = CHR ''1'' then 1 else if c = CHR ''2'' then 2
      else if c = CHR ''3'' then 3 else if c = CHR ''4'' then 4 else if c = CHR ''5'' then 5
      else if c = CHR ''6'' then 6 else if c = CHR ''7'' then 7 else if c = CHR ''8'' then 8
      else if c = CHR ''9'' then 9
      else if c = CHR ''A'' \<or> c = CHR ''a'' then 10 else if c = CHR ''B'' \<or> c = CHR ''b'' then 11
      else if c = CHR ''C'' \<or> c = CHR ''c'' then 12 else if c = CHR ''D'' \<or> c = CHR ''d'' then 13
      else if c = CHR ''E'' \<or> c = CHR ''e'' then 14 else if c = CHR ''F'' \<or> c = CHR ''f'' then 15
      else -1)"

definition uintmax_max_str :: string where
  "uintmax_max_str = ''18446744073709551615''"

abbreviation UINTMAX_MAX :: u64 where "UINTMAX_MAX \<equiv> 18446744073709551615"

fun parse_no_overflow :: "string \<Rightarrow> u64 \<Rightarrow> u64 option" where
  "parse_no_overflow [] n = Some n"
| "parse_no_overflow (c # s) n =
     (if (of_char c :: nat) < of_char (CHR ''0'') \<or> (of_char c :: nat) > of_char (CHR ''9'') then None
      else parse_no_overflow s (10 * n + of_nat (of_char c - of_char (CHR ''0''))))"

definition parse_unsigned_integer :: "MemRef \<Rightarrow> u64 option" where
  "parse_unsigned_integer str =
     (if length str = 0 then None
      else let str = dropWhile (\<lambda>c. c = CHR ''0'') str in
      if length str > length uintmax_max_str \<or>
         (length str = length uintmax_max_str \<and>
          memcmp (map of_char str) (map of_char uintmax_max_str) > 0) then None
      else parse_no_overflow str 0)"

fun parse_hex_loop :: "string \<Rightarrow> u64 \<Rightarrow> u64 option" where
  "parse_hex_loop [] n = Some n"
| "parse_hex_loop (c # s) n =
     (let digit = decode_hex_digit c in
      if digit < 0 then None
      else if n > UINTMAX_MAX div 16 then None
      else let n = n * 16 in
      if of_int digit > UINTMAX_MAX - n then None
      else parse_hex_loop s (n + of_int digit))"

definition parse_unsigned_hex_integer :: "MemRef \<Rightarrow> u64 option" where
  "parse_unsigned_hex_integer str = (if length str = 0 then None else parse_hex_loop str 0)"

definition parse_signmag_integer :: "MemRef \<Rightarrow> (int \<times> u64) option" where
  "parse_signmag_integer str =
     (let (sign, str) =
            (if length str > 0 \<and> (str ! 0 = CHR ''+'' \<or> str ! 0 = CHR ''-'')
             then (1 - 2 * (if str ! 0 = CHR ''-'' then 1 else 0), drop 1 str) else (1, str))
      in case parse_unsigned_integer str of None \<Rightarrow> None | Some mag \<Rightarrow> Some (sign, mag))"

function repr_size_loop :: "u64 \<Rightarrow> int \<Rightarrow> int" where
  "repr_size_loop x n =
     (let n = n + 1; x = x div 10 in if x > 0 then repr_size_loop x n else n)"
  by auto
termination
  by (relation "measure (\<lambda>(x, n). unat x)")
    (auto simp: word_greater_zero_iff unat_div word_less_nat_alt unat_gt_0 div_greater_zero_iff)

definition compute_decimal_repr_size :: "u64 \<Rightarrow> int" where
  "compute_decimal_repr_size x = repr_size_loop x 0"

text \<open>\<open>out\<close> is the position after the one written next.\<close>

function decimal_repr_loop :: "u64 \<Rightarrow> string \<Rightarrow> nat \<Rightarrow> string" where
  "decimal_repr_loop x buf out =
     (let out = out - 1;
          buf = buf[out := char_of (of_char (CHR ''0'') + unat (x mod 10))];
          x = x div 10
      in if x > 0 then decimal_repr_loop x buf out else buf)"
  by auto
termination
  by (relation "measure (\<lambda>(x, buf, out). unat x)")
    (auto simp: unat_div word_less_nat_alt unat_gt_0 div_greater_zero_iff)

definition generate_decimal_repr :: "u64 \<Rightarrow> string \<Rightarrow> int \<Rightarrow> string" where
  "generate_decimal_repr x buf repr_size = decimal_repr_loop x buf (nat repr_size)"

definition generate_decimal_repr_string :: "u64 \<Rightarrow> string \<Rightarrow> string \<times> int" where
  "generate_decimal_repr_string x buf =
     (let repr_size = compute_decimal_repr_size x;
          buf = generate_decimal_repr x buf repr_size
      in (buf[nat repr_size := CHR 0x00], repr_size))"

declare repr_size_loop.simps [simp del] decimal_repr_loop.simps [simp del]


section \<open>Values of digit strings\<close>

definition is_digit :: "char \<Rightarrow> bool" where
  "is_digit c \<longleftrightarrow> 48 \<le> (of_char c :: nat) \<and> (of_char c :: nat) \<le> 57"

definition digit_val :: "char \<Rightarrow> nat" where
  "digit_val c = of_char c - 48"

primrec dec_value :: "string \<Rightarrow> nat" where
  "dec_value [] = 0"
| "dec_value (c # s) = digit_val c * 10 ^ length s + dec_value s"

lemma digit_val_less: "is_digit c \<Longrightarrow> digit_val c \<le> 9"
  by (auto simp: is_digit_def digit_val_def)

lemma dec_value_less: "\<forall>c\<in>set s. is_digit c \<Longrightarrow> dec_value s < 10 ^ length s"
proof (induction s)
  case (Cons c s)
  then have "digit_val c * 10 ^ length s \<le> 9 * 10 ^ length s" "dec_value s < 10 ^ length s"
    using digit_val_less by auto
  then show ?case unfolding dec_value.simps list.size power_Suc add_0_right add_Suc_right by linarith
qed simp

lemma dec_value_append: "dec_value (s @ t) = dec_value s * 10 ^ length t + dec_value t"
  by (induction s) (auto simp: algebra_simps power_add)

lemma parse_no_overflow_Cons:
  "parse_no_overflow (c # s) n =
     (if is_digit c then parse_no_overflow s (10 * n + of_nat (digit_val c)) else None)"
proof -
  have "(of_char (CHR ''0'') :: nat) = 48" "(of_char (CHR ''9'') :: nat) = 57" by simp_all
  then show ?thesis by (simp only: parse_no_overflow.simps is_digit_def digit_val_def) auto
qed

declare parse_no_overflow.simps(2) [simp del]

lemma parse_no_overflow_value:
  "parse_no_overflow s (of_nat k) =
     (if \<forall>c\<in>set s. is_digit c then Some (of_nat (k * 10 ^ length s + dec_value s)) else None)"
proof (induction s arbitrary: k)
  case (Cons c s)
  have "10 * of_nat k + of_nat (digit_val c) = (of_nat (10 * k + digit_val c) :: u64)" by simp
  then show ?case using Cons.IH [of "10 * k + digit_val c"]
    by (simp add: parse_no_overflow_Cons algebra_simps)
qed simp

lemma dec_value_strip: "dec_value (dropWhile (\<lambda>c. c = CHR ''0'') s) = dec_value s"
  by (induction s) (auto simp: digit_val_def)

lemma digits_strip:
  "(\<forall>c\<in>set (dropWhile (\<lambda>c. c = CHR ''0'') s). is_digit c) \<longleftrightarrow> (\<forall>c\<in>set s. is_digit c)"
  by (induction s) (auto simp: is_digit_def)

lemma dec_value_long:
  assumes "\<forall>c\<in>set s. is_digit c" and "s \<noteq> []" and "hd s \<noteq> CHR ''0''"
  shows "10 ^ (length s - 1) \<le> dec_value s"
proof (cases s)
  case (Cons c t)
  have "of_char c \<noteq> (48 :: nat)"
  proof
    assume "of_char c = (48 :: nat)"
    then have "(of_char c :: nat) = of_char (CHR ''0'')" by simp
    then show False using assms(3) Cons by (simp only: of_char_eq_iff) simp
  qed
  then have "1 \<le> digit_val c" using assms(1) Cons by (auto simp: is_digit_def digit_val_def)
  then have "1 * 10 ^ length t \<le> digit_val c * 10 ^ length t" by (rule mult_le_mono1)
  then have "10 ^ length t \<le> dec_value s" unfolding Cons dec_value.simps by linarith
  then show ?thesis using Cons by simp
qed (use assms in simp)

text \<open>Digit strings of the same length compare as their values do.\<close>

lemma memcmp_dec:
  "length s = length t \<Longrightarrow> \<forall>c\<in>set s. is_digit c \<Longrightarrow> \<forall>c\<in>set t. is_digit c \<Longrightarrow>
   memcmp (map of_char s) (map of_char t) > 0 \<longleftrightarrow> dec_value t < dec_value s"
proof (induction s t rule: list_induct2')
  case (4 c s d t)
  have v: "dec_value s < 10 ^ length t" "dec_value t < 10 ^ length t"
    using dec_value_less [of s] dec_value_less [of t] 4 by auto
  consider "digit_val c < digit_val d" | "digit_val c = digit_val d" | "digit_val d < digit_val c" by linarith
  then show ?case
  proof cases
    case 1
    then have "(digit_val c + 1) * 10 ^ length t \<le> digit_val d * 10 ^ length t" by (intro mult_le_mono1) simp
    then show ?thesis using 1 v 4 by (auto simp: is_digit_def digit_val_def)
  next
    case 2
    then show ?thesis using 4 by (auto simp: is_digit_def digit_val_def)
  next
    case 3
    then have "(digit_val d + 1) * 10 ^ length t \<le> digit_val c * 10 ^ length t" by (intro mult_le_mono1) simp
    then show ?thesis using 3 v 4 by (auto simp: is_digit_def digit_val_def)
  qed
qed auto

lemma dec_value_max: "dec_value uintmax_max_str = 2 ^ 64 - 1"
  by (simp add: uintmax_max_str_def digit_val_def)

lemma max_str_digits: "\<forall>c\<in>set uintmax_max_str. is_digit c"
  by (simp add: uintmax_max_str_def is_digit_def)

lemma length_max_str: "length uintmax_max_str = 20"
  by (simp add: uintmax_max_str_def)

text \<open>The overflow test of \<open>parse_unsigned_integer\<close>, on a digit string without leading zeros.\<close>

lemma overflow_test:
  assumes "\<forall>c\<in>set s. is_digit c" and "s = [] \<or> hd s \<noteq> CHR ''0''"
  shows "(length s > length uintmax_max_str \<or> length s = length uintmax_max_str \<and>
    memcmp (map of_char s) (map of_char uintmax_max_str) > 0) \<longleftrightarrow> 2 ^ 64 \<le> dec_value s"
proof -
  have pow: "(10 :: nat) ^ 19 < 2 ^ 64" "(2 :: nat) ^ 64 \<le> 10 ^ 20" by simp_all
  consider "length s > 20" | "length s = 20" | "length s < 20" by linarith
  then show ?thesis
  proof cases
    case 1
    then have "(10 :: nat) ^ 20 \<le> 10 ^ (length s - 1)" by (intro power_increasing) auto
    then have "2 ^ 64 \<le> dec_value s" using dec_value_long [of s] assms 1 pow(2) by fastforce
    then show ?thesis using 1 by (simp add: length_max_str)
  next
    case 2
    then show ?thesis using memcmp_dec [OF _ assms(1) max_str_digits]
      by (simp add: length_max_str dec_value_max) linarith
  next
    case 3
    then have "(10 :: nat) ^ length s \<le> 10 ^ 19" by (intro power_increasing) auto
    then have "dec_value s < 2 ^ 64" using dec_value_less [OF assms(1)] pow(1) by linarith
    then show ?thesis using 3 by (simp add: length_max_str)
  qed
qed

lemma parse_digits:
  assumes "list_all is_digit s"
  shows "parse_unsigned_integer s =
    (if s = [] \<or> 2 ^ 64 \<le> dec_value s then None else Some (of_nat (dec_value s)))"
proof -
  define t where "t = dropWhile (\<lambda>c. c = CHR ''0'') s"
  have t: "t = [] \<or> hd t \<noteq> CHR ''0''" using hd_dropWhile [of "\<lambda>c. c = CHR ''0''" s] by (auto simp: t_def)
  have v: "dec_value t = dec_value s" "\<forall>c\<in>set t. is_digit c"
    using dec_value_strip digits_strip assms by (auto simp: t_def list_all_iff)
  have "parse_no_overflow t 0 = Some (of_nat (dec_value s))"
    using parse_no_overflow_value [of t 0] v by simp
  then show ?thesis
    using overflow_test [OF v(2) t] v(1) unfolding parse_unsigned_integer_def Let_def t_def [symmetric]
    by simp
qed

lemma parse_non_digits:
  assumes "\<not> list_all is_digit s"
  shows "parse_unsigned_integer s = None"
proof -
  have "parse_no_overflow (dropWhile (\<lambda>c. c = CHR ''0'') s) 0 = None"
    using assms parse_no_overflow_value [of "dropWhile (\<lambda>c. c = CHR ''0'') s" 0] digits_strip [of s]
    by (simp add: list_all_iff)
  then show ?thesis by (simp add: parse_unsigned_integer_def Let_def)
qed

text \<open>C25. \<open>parse_unsigned_integer\<close> accepts exactly the non-empty digit strings, leading zeros or not,
  whose value fits \<open>uintmax_t\<close>, and returns that value; its test for overflow by length and
  lexicographic order is exact.\<close>

theorem parse_unsigned_integer_exact:
  "parse_unsigned_integer s =
     (if s \<noteq> [] \<and> list_all is_digit s \<and> dec_value s < 2 ^ 64 then Some (of_nat (dec_value s)) else None)"
  by (cases "list_all is_digit s") (auto simp: parse_digits parse_non_digits)

text \<open>Hexadecimal digits by their ASCII codes: \<open>0\<close> to \<open>9\<close>, \<open>A\<close> to \<open>F\<close> and \<open>a\<close> to \<open>f\<close>.\<close>

definition is_hex :: "char \<Rightarrow> bool" where
  "is_hex c \<longleftrightarrow> (let n = of_char c :: nat in 48 \<le> n \<and> n \<le> 57 \<or> 65 \<le> n \<and> n \<le> 70 \<or> 97 \<le> n \<and> n \<le> 102)"

definition hex_val :: "char \<Rightarrow> nat" where
  "hex_val c = (let n = of_char c :: nat in if n \<le> 57 then n - 48 else if n \<le> 70 then n - 65 + 10 else n - 97 + 10)"

primrec hex_value :: "string \<Rightarrow> nat" where
  "hex_value [] = 0"
| "hex_value (c # s) = hex_val c * 16 ^ length s + hex_value s"

lemma decode_hex_digit_val: "decode_hex_digit c = (if is_hex c then int (hex_val c) else -1)"
proof -
  have e: "c = d \<longleftrightarrow> (of_char c :: nat) = of_char d" for d by simp
  show ?thesis unfolding decode_hex_digit_def e by (simp add: is_hex_def hex_val_def Let_def, presburger)
qed

lemma hex_val_less: "is_hex c \<Longrightarrow> hex_val c \<le> 15"
  by (auto simp: is_hex_def hex_val_def Let_def)

lemma parse_hex_loop_value:
  "parse_hex_loop s n =
     (if list_all is_hex s \<and> unat n * 16 ^ length s + hex_value s < 2 ^ 64
      then Some (of_nat (unat n * 16 ^ length s + hex_value s)) else None)"
proof (induction s arbitrary: n)
  case (Cons c s)
  show ?case
  proof (cases "is_hex c \<and> unat n * 16 + hex_val c < 2 ^ 64")
    case True
    have d: "unat (of_int (decode_hex_digit c) :: u64) = hex_val c"
      using True hex_val_less [of c] by (simp add: decode_hex_digit_val unsigned_of_nat take_bit_nat_eq_self)
    have n16: "unat (n * 16) = unat n * 16" using True by (simp add: unat_word_ariths)
    have sum: "unat (n * 16 + of_int (decode_hex_digit c)) = unat n * 16 + hex_val c"
      using True by (simp add: unat_word_ariths n16 d)
    have "\<not> n > UINTMAX_MAX div 16" "\<not> of_int (decode_hex_digit c) > UINTMAX_MAX - n * 16"
      using True d n16 by (simp_all add: word_less_nat_alt unat_sub word_le_nat_alt) linarith
    then have "parse_hex_loop (c # s) n = parse_hex_loop s (n * 16 + of_int (decode_hex_digit c))"
      using True by (simp add: Let_def decode_hex_digit_val)
    then show ?thesis using Cons.IH [of "n * 16 + of_int (decode_hex_digit c)"] sum True
      by (simp add: algebra_simps)
  next
    case False
    have "parse_hex_loop (c # s) n = None"
    proof (rule ccontr)
      assume *: "parse_hex_loop (c # s) n \<noteq> None"
      then have a: "is_hex c" "\<not> n > UINTMAX_MAX div 16" "\<not> of_int (decode_hex_digit c) > UINTMAX_MAX - n * 16"
        by (auto simp: Let_def decode_hex_digit_val split: if_splits)
      have d: "unat (of_int (decode_hex_digit c) :: u64) = hex_val c"
        using a(1) hex_val_less [of c] by (simp add: decode_hex_digit_val unsigned_of_nat take_bit_nat_eq_self)
      have n: "unat n < 2 ^ 60" using a(2) by (simp add: word_less_nat_alt)
      then have n16: "unat (n * 16) = unat n * 16" by (simp add: unat_word_ariths)
      have "hex_val c \<le> 2 ^ 64 - 1 - unat n * 16"
        using a(3) d n16 n by (simp add: word_less_nat_alt unat_sub word_le_nat_alt)
      then show False using False a(1) n by simp
    qed
    moreover have "2 ^ 64 \<le> unat n * 16 ^ length (c # s) + hex_value (c # s)" if "is_hex c"
    proof -
      have "2 ^ 64 * 1 \<le> (unat n * 16 + hex_val c) * 16 ^ length s"
        using False that by (intro mult_le_mono) auto
      then show ?thesis by (simp add: algebra_simps)
    qed
    ultimately show ?thesis by auto
  qed
qed (use unsigned_less [where ?'a = nat and ?'b = 64] in simp)

text \<open>C40. \<open>parse_unsigned_hex_integer\<close> accepts exactly the non-empty strings of hexadecimal digits whose
  value fits \<open>uintmax_t\<close>, and returns that value.\<close>

theorem parse_unsigned_hex_integer_exact:
  "parse_unsigned_hex_integer s =
     (if s \<noteq> [] \<and> list_all is_hex s \<and> hex_value s < 2 ^ 64 then Some (of_nat (hex_value s)) else None)"
  by (auto simp: parse_unsigned_hex_integer_def parse_hex_loop_value)


section \<open>Decimal representations\<close>

definition digit_char :: "nat \<Rightarrow> char" where
  "digit_char d = char_of (48 + d)"

fun dec_str :: "nat \<Rightarrow> string" where
  "dec_str n = (if n < 10 then [digit_char n] else dec_str (n div 10) @ [digit_char (n mod 10)])"

declare dec_str.simps [simp del]

lemma of_char_digit: "d < 10 \<Longrightarrow> of_char (digit_char d) = 48 + d"
  by (simp add: digit_char_def)

lemma dec_str_not_Nil: "dec_str n \<noteq> []"
  by (simp add: dec_str.simps [of n])

lemma dec_str_digits: "list_all is_digit (dec_str n)"
proof (induction n rule: dec_str.induct)
  case (1 n)
  show ?case
  proof (cases "n < 10")
    case True
    then show ?thesis by (simp add: dec_str.simps [of n] is_digit_def of_char_digit)
  next
    case False
    have "n mod 10 < 10" by simp
    then show ?thesis using 1 False by (simp add: dec_str.simps [of n] is_digit_def of_char_digit)
  qed
qed

lemma dec_value_dec_str: "dec_value (dec_str n) = n"
proof (induction n rule: dec_str.induct)
  case (1 n)
  show ?case
  proof (cases "n < 10")
    case True
    then show ?thesis by (simp add: dec_str.simps [of n] digit_val_def of_char_digit)
  next
    case False
    have "n mod 10 < 10" by simp
    then show ?thesis using 1 False
      by (simp add: dec_str.simps [of n] digit_val_def of_char_digit dec_value_append)
  qed
qed

lemma parse_dec_str: "n < 2 ^ 64 \<Longrightarrow> parse_unsigned_integer (dec_str n) = Some (of_nat n)"
  using parse_digits [OF dec_str_digits [of n]] by (simp add: dec_str_not_Nil dec_value_dec_str)

lemma length_dec_str: "n < 10 ^ k \<Longrightarrow> 0 < k \<Longrightarrow> length (dec_str n) \<le> k"
proof (induction n arbitrary: k rule: dec_str.induct)
  case (1 n)
  show ?case
  proof (cases "n < 10")
    case False
    then obtain k' where k: "k = Suc k'" "0 < k'" using 1(2,3) by (cases k; cases "k - 1") auto
    then have "n div 10 < 10 ^ k'" using 1(2) by (simp add: div_less_iff_less_mult mult.commute)
    then show ?thesis using 1(1) [OF False, of k'] False k by (simp add: dec_str.simps [of n])
  qed (use 1 in \<open>simp add: dec_str.simps [of n]\<close>)
qed

lemma repr_size_loop_eq: "repr_size_loop x n = n + int (length (dec_str (unat x)))"
proof (induction x n rule: repr_size_loop.induct)
  case (1 x n)
  have "x div 10 > 0 \<longleftrightarrow> \<not> unat x < 10" by (simp add: word_less_nat_alt unat_div div_greater_zero_iff not_less)
  then show ?case using 1
    by (simp add: repr_size_loop.simps [of x] dec_str.simps [of "unat x"] Let_def unat_div)
qed

lemma decimal_repr_loop_eq:
  "length (dec_str (unat x)) \<le> out \<Longrightarrow> out \<le> length buf \<Longrightarrow>
   decimal_repr_loop x buf out = splice (out - length (dec_str (unat x))) (dec_str (unat x)) buf"
proof (induction x buf out rule: decimal_repr_loop.induct)
  case (1 x buf out)
  have more: "x div 10 > 0 \<longleftrightarrow> \<not> unat x < 10"
    by (simp add: word_less_nat_alt unat_div div_greater_zero_iff not_less)
  have out: "0 < out" using 1(2) dec_str_not_Nil [of "unat x"] by (cases out) auto
  have c: "char_of (of_char (CHR ''0'') + unat (x mod 10)) = digit_char (unat x mod 10)"
    by (simp add: digit_char_def unat_mod)
  show ?case
  proof (cases "unat x < 10")
    case True
    then show ?thesis using 1(2,3) more out c
      by (simp add: decimal_repr_loop.simps [of x] dec_str.simps [of "unat x"] Let_def splice_def
          upd_conv_take_nth_drop)
  next
    case False
    define d where "d = dec_str (unat x div 10)"
    have str: "dec_str (unat x) = d @ [digit_char (unat x mod 10)]"
      using False by (simp add: dec_str.simps [of "unat x"] d_def)
    have "decimal_repr_loop x buf out = splice (out - 1 - length d) d (buf[out - 1 := digit_char (unat x mod 10)])"
      using 1(1) [OF refl refl refl] 1(2,3) more False c str
      by (simp add: decimal_repr_loop.simps [of x] Let_def unat_div d_def)
    then show ?thesis using 1(2,3) str out
      by (auto simp: splice_def upd_conv_take_nth_drop min_def drop_Cons')
  qed
qed

text \<open>C26. Printing and parsing are inverse: \<open>generate_decimal_repr_string\<close> writes the decimal digits of
  the number, zero-terminated, without touching the rest of the buffer, and
  \<open>parse_unsigned_integer\<close> reads the number back.\<close>

theorem decimal_repr_roundtrip:
  assumes "generate_decimal_repr_string x buf = (buf', n)" and "compute_decimal_repr_size x < int (length buf)"
  shows "parse_unsigned_integer (take (nat n) buf') = Some x \<and> buf' ! nat n = CHR 0x00 \<and>
    drop (nat n + 1) buf' = drop (nat n + 1) buf"
proof -
  define d where "d = dec_str (unat x)"
  have size: "compute_decimal_repr_size x = int (length d)"
    by (simp add: compute_decimal_repr_size_def repr_size_loop_eq d_def)
  have "decimal_repr_loop x buf (length d) = splice 0 d buf"
    using decimal_repr_loop_eq [of x "length d" buf] assms(2) size by (simp add: d_def)
  then have "buf' = (splice 0 d buf)[length d := CHR 0x00]" "n = int (length d)"
    using assms(1) size by (auto simp: generate_decimal_repr_string_def generate_decimal_repr_def Let_def)
  moreover have "parse_unsigned_integer d = Some x"
    using parse_dec_str [of "unat x"] unsigned_less [of x, where ?'a = nat] by (simp add: d_def)
  ultimately show ?thesis using assms(2) size by (simp add: splice_def)
qed

theorem decimal_repr_roundtrip_witness:
  "\<exists>buf'. generate_decimal_repr_string 205 ''xxxxxx'' = (buf', 3) \<and>
     parse_unsigned_integer (take 3 buf') = Some 205 \<and> drop 4 buf' = ''xx''"
proof -
  have size: "compute_decimal_repr_size 205 = 3"
    by (simp add: compute_decimal_repr_size_def repr_size_loop.simps)
  obtain buf' where "generate_decimal_repr_string 205 ''xxxxxx'' = (buf', 3)"
    by (simp add: generate_decimal_repr_string_def size)
  with decimal_repr_roundtrip [OF this] size show ?thesis by simp
qed

end
