(* ===== verification/IpAddr.thy ===== *)
theory IpAddr
  imports ParseNumber Bytes
begin

text \<open>
  \<open>misc/ipaddr.h\<close>: IPv4 addresses, prefixes and interface addresses as text, and network masks.  An
  address is the \<open>uint32_t\<close> of the code, in network byte order, so its first byte in memory is the
  first number of the dotted notation.  The lemmas show that parsing inverts printing, that only
  four numbers below 256 are accepted, and that masks and prefixes correspond.
\<close>

section \<open>ipaddr.h\<close>

record ipv4_ifaddr =
  i4_addr :: u32
  i4_prefix :: int

text \<open>The first \<open>j\<close> with \<open>j = name.len\<close> or \<open>name.ptr[j] = '.'\<close>.\<close>

fun dot_pos :: "string \<Rightarrow> nat" where
  "dot_pos [] = 0"
| "dot_pos (c # s) = (if c = CHR ''.'' then 0 else Suc (dot_pos s))"

text \<open>The loop of \<open>ipaddr_parse_ipv4_addr\<close>; \<open>out\<close> are the bytes of \<open>*out_addr\<close>.\<close>

function parse_ipv4_loop :: "nat \<Rightarrow> string \<Rightarrow> byte list \<Rightarrow> byte list option" where
  "parse_ipv4_loop i name out =
     (let j = dot_pos name in
      if (j = length name \<and> i < 3) \<or> (j < length name \<and> i = 3) then None
      else if j < 1 \<or> j > 3 then None
      else case parse_unsigned_integer (MemRef_SubTo name j) of
        None \<Rightarrow> None
      | Some d \<Rightarrow>
          if d > 255 then None
          else let out = out[i := ucast d] in
          if i = 3 then Some out
          else parse_ipv4_loop (Suc i) (drop (j + 1) name) out)"
  by auto
termination
proof (relation "measure (\<lambda>(i, name, out). length name)")
  have "dot_pos s \<le> length s" for s by (induction s) auto
  then have "0 < dot_pos s \<Longrightarrow> length s - Suc (dot_pos s) < length s" for s
    by (metis diff_less less_le_trans zero_less_Suc)
  then show "((Suc i, drop (j + 1) name, out'), i, name, out) \<in> measure (\<lambda>(i, name, out). length name)"
    if "j = dot_pos name" "\<not> (j < 1 \<or> 3 < j)" for i j name and out out' :: "byte list"
    using that by auto
qed simp

declare parse_ipv4_loop.simps [simp del]

definition ipaddr_parse_ipv4_addr :: "MemRef \<Rightarrow> u32 \<Rightarrow> u32 option" where
  "ipaddr_parse_ipv4_addr name out_addr =
     (case parse_ipv4_loop 0 name (mem32 out_addr) of None \<Rightarrow> None | Some bs \<Rightarrow> Some (of_mem bs))"

definition ipaddr_parse_ipv4_prefix :: "MemRef \<Rightarrow> int option" where
  "ipaddr_parse_ipv4_prefix str =
     (case parse_unsigned_integer str of
        None \<Rightarrow> None
      | Some d \<Rightarrow> if d > 32 then None else Some (uint d))"

definition ipaddr_parse_ipv4_ifaddr :: "MemRef \<Rightarrow> ipv4_ifaddr \<Rightarrow> ipv4_ifaddr option" where
  "ipaddr_parse_ipv4_ifaddr str out =
     (case MemRef_FindChar str (CHR ''/'') of
        None \<Rightarrow> None
      | Some slash_pos \<Rightarrow>
          (case ipaddr_parse_ipv4_addr (MemRef_SubTo str slash_pos) (i4_addr out) of
             None \<Rightarrow> None
           | Some a \<Rightarrow>
               (case ipaddr_parse_ipv4_prefix (MemRef_SubFrom str (slash_pos + 1)) of
                  None \<Rightarrow> None
                | Some p \<Rightarrow> Some \<lparr>i4_addr = a, i4_prefix = p\<rparr>)))"

text \<open>The loop of \<open>ipaddr_ipv4_mask_from_prefix\<close>, from \<open>i\<close> on, \<open>k\<close> rounds.\<close>

primrec mask_loop :: "nat \<Rightarrow> nat \<Rightarrow> u32 \<Rightarrow> u32" where
  "mask_loop 0 i t = t"
| "mask_loop (Suc k) i t = mask_loop k (Suc i) (t OR push_bit (32 - i - 1) 1)"

definition ipaddr_ipv4_mask_from_prefix :: "int \<Rightarrow> u32" where
  "ipaddr_ipv4_mask_from_prefix prefix = hton32 (mask_loop (nat prefix) 0 0)"

text \<open>The loop of \<open>ipaddr_ipv4_prefix_from_mask\<close>: \<open>k\<close> is \<open>33 - i\<close>.\<close>

primrec prefix_loop :: "nat \<Rightarrow> u32 \<Rightarrow> nat \<Rightarrow> u32 \<Rightarrow> nat option" where
  "prefix_loop 0 msk i t = None"
| "prefix_loop (Suc k) msk i t =
     (if ntoh32 msk = t then Some i
      else prefix_loop k msk (Suc i) (if i < 32 then t OR push_bit (32 - i - 1) 1 else t))"

definition ipaddr_ipv4_prefix_from_mask :: "u32 \<Rightarrow> int option" where
  "ipaddr_ipv4_prefix_from_mask msk =
     (case prefix_loop 33 msk 0 0 of None \<Rightarrow> None | Some i \<Rightarrow> Some (int i))"

definition ipaddr_ipv4_ifaddr_from_addr_mask :: "u32 \<Rightarrow> u32 \<Rightarrow> ipv4_ifaddr option" where
  "ipaddr_ipv4_ifaddr_from_addr_mask addr msk =
     (case ipaddr_ipv4_prefix_from_mask msk of
        None \<Rightarrow> None
      | Some p \<Rightarrow> Some \<lparr>i4_addr = addr, i4_prefix = p\<rparr>)"

definition ipaddr_ipv4_addrs_in_network :: "u32 \<Rightarrow> u32 \<Rightarrow> int \<Rightarrow> bool" where
  "ipaddr_ipv4_addrs_in_network addr1 addr2 netprefix =
     (let msk = ipaddr_ipv4_mask_from_prefix netprefix in addr1 AND msk = addr2 AND msk)"

text \<open>The strings that \<open>sprintf\<close> leaves in \<open>out\<close>.\<close>

definition sprint_u8 :: "byte \<Rightarrow> string" where
  "sprint_u8 b = dec_str (unat b)"

definition ipaddr_print_addr :: "u32 \<Rightarrow> string" where
  "ipaddr_print_addr addr =
     (let b = mem32 addr in
      sprint_u8 (b ! 0) @ ''.'' @ sprint_u8 (b ! 1) @ ''.'' @ sprint_u8 (b ! 2) @ ''.'' @ sprint_u8 (b ! 3))"

definition ipaddr_print_ifaddr :: "ipv4_ifaddr \<Rightarrow> string" where
  "ipaddr_print_ifaddr ifaddr =
     (let b = mem32 (i4_addr ifaddr) in
      sprint_u8 (b ! 0) @ ''.'' @ sprint_u8 (b ! 1) @ ''.'' @ sprint_u8 (b ! 2) @ ''.'' @ sprint_u8 (b ! 3) @
      ''/'' @ dec_str (nat (i4_prefix ifaddr)))"


section \<open>Addresses as text\<close>

text \<open>A number of a dotted address.\<close>

definition octet :: "string \<Rightarrow> bool" where
  "octet s \<longleftrightarrow> 1 \<le> length s \<and> length s \<le> 3 \<and> list_all is_digit s \<and> dec_value s \<le> 255"

lemma dot_pos_takeWhile: "dot_pos s = length (takeWhile (\<lambda>c. c \<noteq> CHR ''.'') s)"
  by (induction s) auto

lemma dot_pos_le: "dot_pos s \<le> length s"
  by (simp add: dot_pos_takeWhile length_takeWhile_le)

lemma dot_pos_split: "dot_pos s < length s \<Longrightarrow> s = take (dot_pos s) s @ ''.'' @ drop (Suc (dot_pos s)) s"
  by (induction s) auto

lemma dot_pos_append: "CHR ''.'' \<notin> set s \<Longrightarrow> dot_pos (s @ ''.'' @ r) = length s"
  by (induction s) auto

lemma dot_pos_none: "CHR ''.'' \<notin> set s \<Longrightarrow> dot_pos s = length s"
  by (induction s) auto

lemma octet_no_dot: "octet s \<Longrightarrow> CHR ''.'' \<notin> set s"
  by (auto simp: octet_def list_all_iff is_digit_def)

lemma octet_parse:
  assumes "1 \<le> length s" and "length s \<le> 3"
  shows "(case parse_unsigned_integer s of None \<Rightarrow> None | Some d \<Rightarrow> if d > 255 then None else Some d) =
    (if octet s then Some (of_nat (dec_value s)) else None)"
proof (cases "list_all is_digit s")
  case True
  have "dec_value s < 10 ^ length s" using dec_value_less [of s] True by (simp add: list_all_iff)
  also have "(10 :: nat) ^ length s \<le> 10 ^ 3" using assms(2) by (intro power_increasing) auto
  finally have v: "dec_value s < 1000" by simp
  then have "of_nat (dec_value s) > (255 :: u64) \<longleftrightarrow> dec_value s > 255"
    by (simp add: word_less_nat_alt unsigned_of_nat take_bit_nat_eq_self)
  then show ?thesis using parse_digits [OF True] assms True v by (auto simp: octet_def)
next
  case False
  then show ?thesis using parse_non_digits [OF False] by (simp add: octet_def)
qed

lemma octet_ucast: "octet s \<Longrightarrow> ucast (of_nat (dec_value s) :: u64) = (of_nat (dec_value s) :: byte)"
  by (simp add: octet_def unsigned_of_nat take_bit_nat_eq_self)

text \<open>What one round of the parser accepts.\<close>

lemma parse_ipv4_last:
  "parse_ipv4_loop 3 name out = (if octet name then Some (out[3 := of_nat (dec_value name)]) else None)"
proof (cases "dot_pos name = length name \<and> 1 \<le> length name \<and> length name \<le> 3")
  case True
  note O = octet_parse [of name]
  have "ucast (of_nat (dec_value name) :: u64) = (of_nat (dec_value name) :: byte)" if "octet name"
    using that by (rule octet_ucast)
  then show ?thesis using True O
    by (auto simp: parse_ipv4_loop.simps [of 3] Let_def MemRef_SubTo_def MemRef_Make_def
        split: option.splits if_splits)
next
  case False
  then have "\<not> octet name" using octet_no_dot dot_pos_none by (auto simp: octet_def)
  then show ?thesis using False dot_pos_le [of name]
    by (auto simp: parse_ipv4_loop.simps [of 3] Let_def Suc_le_eq)
qed

lemma parse_ipv4_more:
  assumes "i < 3"
  shows "parse_ipv4_loop i name out = Some bs \<longleftrightarrow>
    (\<exists>s r. name = s @ ''.'' @ r \<and> octet s \<and> parse_ipv4_loop (Suc i) r (out[i := of_nat (dec_value s)]) = Some bs)"
proof
  define j where "j = dot_pos name"
  assume *: "parse_ipv4_loop i name out = Some bs"
  then have j: "j < length name" "1 \<le> j" "j \<le> 3"
    using assms dot_pos_le [of name]
    by (auto simp: parse_ipv4_loop.simps [of i] Let_def j_def split: if_splits)
  have o: "octet (take j name)"
    using * j assms octet_parse [of "take j name"]
    by (auto simp: parse_ipv4_loop.simps [of i] Let_def j_def MemRef_SubTo_def MemRef_Make_def
        split: if_splits option.splits)
  then have "ucast (of_nat (dec_value (take j name)) :: u64) = (of_nat (dec_value (take j name)) :: byte)"
    by (rule octet_ucast)
  then have "parse_ipv4_loop (Suc i) (drop (Suc j) name) (out[i := of_nat (dec_value (take j name))]) = Some bs"
    using * j assms o octet_parse [of "take j name"]
    by (auto simp: parse_ipv4_loop.simps [of i] Let_def j_def [symmetric] MemRef_SubTo_def MemRef_Make_def
        split: if_splits option.splits)
  then show "\<exists>s r. name = s @ ''.'' @ r \<and> octet s \<and>
      parse_ipv4_loop (Suc i) r (out[i := of_nat (dec_value s)]) = Some bs"
    using o dot_pos_split [of name] j(1) by (auto simp: j_def)
next
  assume "\<exists>s r. name = s @ ''.'' @ r \<and> octet s \<and>
      parse_ipv4_loop (Suc i) r (out[i := of_nat (dec_value s)]) = Some bs"
  then obtain s r where s: "name = s @ ''.'' @ r" "octet s"
      "parse_ipv4_loop (Suc i) r (out[i := of_nat (dec_value s)]) = Some bs" by blast
  have d: "dot_pos name = length s" using s octet_no_dot dot_pos_append by simp
  have "ucast (of_nat (dec_value s) :: u64) = (of_nat (dec_value s) :: byte)"
    using s(2) by (rule octet_ucast)
  then show "parse_ipv4_loop i name out = Some bs"
    using s assms d octet_parse [of s]
    by (auto simp: parse_ipv4_loop.simps [of i] Let_def MemRef_SubTo_def MemRef_Make_def octet_def
        split: if_splits option.splits)
qed

lemma mem32_all: "length out = 4 \<Longrightarrow> out[0 := a, Suc 0 := b, 2 := c, 3 := d] = [a, b, c, d]"
  by (rule nth_equalityI) (auto simp: less_Suc_eq numeral_eq_Suc nth_list_update nth_Cons')

lemma length_parse_ipv4_loop: "parse_ipv4_loop i name out = Some bs \<Longrightarrow> length bs = length out"
proof (induction i name out rule: parse_ipv4_loop.induct)
  case (1 i name out)
  then show ?case by (auto simp: parse_ipv4_loop.simps [of i] Let_def split: if_splits option.splits)
qed

lemma parse_ipv4_moreI:
  "i < 3 \<Longrightarrow> octet s \<Longrightarrow> j = Suc i \<Longrightarrow> parse_ipv4_loop j r (out[i := of_nat (dec_value s)]) = Some bs \<Longrightarrow>
   parse_ipv4_loop i (s @ ''.'' @ r) out = Some bs"
  by (subst parse_ipv4_more) blast+

lemma parse_ipv4_addrI:
  assumes "list_all octet [s0, s1, s2, s3]" and "mem32 a = map (\<lambda>s. of_nat (dec_value s)) [s0, s1, s2, s3]"
  shows "ipaddr_parse_ipv4_addr (s0 @ ''.'' @ s1 @ ''.'' @ s2 @ ''.'' @ s3) out = Some a"
proof -
  have "parse_ipv4_loop 3 s3 ((mem32 out)[0 := of_nat (dec_value s0), Suc 0 := of_nat (dec_value s1),
      2 := of_nat (dec_value s2)]) = Some (mem32 a)"
    using assms by (simp add: parse_ipv4_last mem32_all)
  then have "parse_ipv4_loop 0 (s0 @ ''.'' @ s1 @ ''.'' @ s2 @ ''.'' @ s3) (mem32 out) = Some (mem32 a)"
    using assms(1)
    by (intro parse_ipv4_moreI [where j = "Suc 0"] parse_ipv4_moreI [where j = 2] parse_ipv4_moreI [where j = 3])
      simp_all
  then show ?thesis by (simp add: ipaddr_parse_ipv4_addr_def of_mem_mem32)
qed

lemma parse_ipv4_addrD:
  assumes "ipaddr_parse_ipv4_addr name out = Some a"
  shows "\<exists>s0 s1 s2 s3. name = s0 @ ''.'' @ s1 @ ''.'' @ s2 @ ''.'' @ s3 \<and> list_all octet [s0, s1, s2, s3] \<and>
    mem32 a = map (\<lambda>s. of_nat (dec_value s)) [s0, s1, s2, s3]"
proof -
  obtain bs where bs: "parse_ipv4_loop 0 name (mem32 out) = Some bs" "a = of_mem bs"
    using assms by (auto simp: ipaddr_parse_ipv4_addr_def split: option.splits)
  have a: "bs = mem32 a" using bs length_parse_ipv4_loop [OF bs(1)] by (simp add: mem32_of_mem)
  obtain s0 r0 where 0: "name = s0 @ ''.'' @ r0" "octet s0"
      "parse_ipv4_loop 1 r0 ((mem32 out)[0 := of_nat (dec_value s0)]) = Some bs"
    using bs(1) parse_ipv4_more [of 0] by auto
  obtain s1 r1 where 1: "r0 = s1 @ ''.'' @ r1" "octet s1"
      "parse_ipv4_loop 2 r1 ((mem32 out)[0 := of_nat (dec_value s0), 1 := of_nat (dec_value s1)]) = Some bs"
    using 0(3) parse_ipv4_more [of 1] by (auto simp: numeral_2_eq_2)
  obtain s2 r2 where 2: "r1 = s2 @ ''.'' @ r2" "octet s2" "parse_ipv4_loop 3 r2
      ((mem32 out)[0 := of_nat (dec_value s0), 1 := of_nat (dec_value s1), 2 := of_nat (dec_value s2)]) = Some bs"
    using 1(3) parse_ipv4_more [of 2] by (auto simp: eval_nat_numeral)
  from 2(3) have "octet r2" "bs = map (\<lambda>s. of_nat (dec_value s)) [s0, s1, s2, r2]"
    by (auto simp: parse_ipv4_last mem32_all split: if_splits)
  then show ?thesis using 0 1 2 a by (intro exI [of _ s0] exI [of _ s1] exI [of _ s2] exI [of _ r2]) simp
qed

text \<open>C28. \<open>ipaddr_parse_ipv4_addr\<close> accepts exactly the strings of four numbers of one to three digits
  and at most 255, separated by dots, and returns the address whose bytes in memory, that is in
  network byte order, are these numbers.\<close>

theorem ipv4_addr_parse_exact:
  "ipaddr_parse_ipv4_addr name out = Some a \<longleftrightarrow>
     (\<exists>s0 s1 s2 s3. name = s0 @ ''.'' @ s1 @ ''.'' @ s2 @ ''.'' @ s3 \<and> list_all octet [s0, s1, s2, s3] \<and>
        mem32 a = map (\<lambda>s. of_nat (dec_value s)) [s0, s1, s2, s3])"
  using parse_ipv4_addrD [of name out a] parse_ipv4_addrI [of _ _ _ _ a out] by blast

lemma octet_print: "octet (sprint_u8 b) \<and> of_nat (dec_value (sprint_u8 b)) = b"
  using unsigned_less [of b, where ?'a = nat] length_dec_str [of "unat b" 3] dec_str_not_Nil [of "unat b"]
  by (auto simp: octet_def sprint_u8_def dec_str_digits dec_value_dec_str Suc_le_eq)

lemma print_addr_parse: "ipaddr_parse_ipv4_addr (ipaddr_print_addr a) out = Some a"
proof -
  have "mem32 a = map (\<lambda>s. of_nat (dec_value s)) (map sprint_u8 [mem32 a ! 0, mem32 a ! 1, mem32 a ! 2, mem32 a ! 3])"
    using octet_print by (simp add: mem32_def)
  then show ?thesis using octet_print unfolding ipaddr_print_addr_def Let_def
    by (intro parse_ipv4_addrI) simp_all
qed

lemma print_addr_set: "c \<in> set (ipaddr_print_addr a) \<Longrightarrow> is_digit c \<or> c = CHR ''.''"
  using dec_str_digits by (auto simp: ipaddr_print_addr_def sprint_u8_def Let_def list_all_iff)

lemma print_addr_chars:
  "CHR ''/'' \<notin> set (ipaddr_print_addr a)" "CHR '':'' \<notin> set (ipaddr_print_addr a)"
  "hd (ipaddr_print_addr a) \<noteq> CHR ''[''"
proof -
  have "ipaddr_print_addr a \<noteq> []" by (simp add: ipaddr_print_addr_def Let_def)
  then show "hd (ipaddr_print_addr a) \<noteq> CHR ''[''"
    using print_addr_set [of "hd (ipaddr_print_addr a)" a] by (auto simp: is_digit_def)
qed (use print_addr_set in \<open>fastforce simp: is_digit_def\<close>)+

text \<open>C27. Parsing inverts printing, for addresses and for interface addresses with a valid prefix.\<close>

theorem ipv4_ifaddr_roundtrip:
  assumes "0 \<le> p" and "p \<le> 32"
  shows "ipaddr_parse_ipv4_addr (ipaddr_print_addr a) out = Some a \<and>
    ipaddr_parse_ipv4_ifaddr (ipaddr_print_ifaddr \<lparr>i4_addr = a, i4_prefix = p\<rparr>) out' =
      Some \<lparr>i4_addr = a, i4_prefix = p\<rparr>"
proof -
  define s where "s = ipaddr_print_ifaddr \<lparr>i4_addr = a, i4_prefix = p\<rparr>"
  have s: "s = ipaddr_print_addr a @ ''/'' @ dec_str (nat p)"
    by (simp add: s_def ipaddr_print_ifaddr_def ipaddr_print_addr_def Let_def)
  have "find_char_from 0 (CHR ''/'') s = Some (length (ipaddr_print_addr a))"
    using print_addr_chars(1) by (simp add: find_char_from_Some s)
  moreover have "ipaddr_parse_ipv4_prefix (dec_str (nat p)) = Some p"
  proof -
    have "uint (word_of_int p :: u64) = p" using assms by (simp add: unsigned_of_int take_bit_int_eq_self)
    then show ?thesis using assms parse_dec_str [of "nat p"]
      by (simp add: ipaddr_parse_ipv4_prefix_def word_less_def)
  qed
  ultimately have "ipaddr_parse_ipv4_ifaddr s out' = Some \<lparr>i4_addr = a, i4_prefix = p\<rparr>"
    using print_addr_parse
    by (simp add: ipaddr_parse_ipv4_ifaddr_def MemRef_FindChar_def MemRef_SubTo_def MemRef_SubFrom_def
        MemRef_Make_def s)
  then show ?thesis using print_addr_parse by (simp add: s_def)
qed

theorem ipv4_ifaddr_roundtrip_witness:
  "ipaddr_parse_ipv4_ifaddr (ipaddr_print_ifaddr \<lparr>i4_addr = 0x0100000A, i4_prefix = 24\<rparr>) \<lparr>i4_addr = 0, i4_prefix = 0\<rparr> =
     Some \<lparr>i4_addr = 0x0100000A, i4_prefix = 24\<rparr>"
  using ipv4_ifaddr_roundtrip [of 24 "0x0100000A" 0 "\<lparr>i4_addr = 0, i4_prefix = 0\<rparr>"] by simp


section \<open>Masks and prefixes\<close>

lemma bit_hton32: "bit (hton32 x) n \<longleftrightarrow> n < 32 \<and> bit x (8 * (3 - n div 8) + n mod 8)"
proof (cases "n < 32")
  case True
  then have "n div 8 = 0 \<or> n div 8 = 1 \<or> n div 8 = 2 \<or> n div 8 = 3" by linarith
  then show ?thesis using True by (auto simp: hton32_def badvpn_reverse32_def bit_of_mem)
qed (auto dest: bit_imp_le_length)

lemma hton32_hton32: "hton32 (hton32 x) = x"
proof (rule bit_word_eqI)
  fix n assume "n < LENGTH(32)"
  then have "8 * (3 - n div 8) + n mod 8 < 32" "8 * (3 - (3 - n div 8)) + n mod 8 = n" by simp_all
  then show "bit (hton32 (hton32 x)) n = bit x n" using \<open>n < LENGTH(32)\<close> by (simp add: bit_hton32)
qed

lemma hton32_and: "hton32 (x AND y) = hton32 x AND hton32 y"
  by (rule bit_word_eqI) (simp add: bit_hton32 bit_and_iff)

lemma hton32_eq_iff: "hton32 x = hton32 y \<longleftrightarrow> x = y"
  by (metis hton32_hton32)

lemma bit_one_shift: "k < 32 \<Longrightarrow> bit (push_bit k (1 :: u32)) n \<longleftrightarrow> n = k"
  by (auto simp: bit_exp_iff possible_bit_def)

lemma drop_bit_eq_iff:
  "drop_bit k (x :: 'a::len word) = drop_bit k y \<longleftrightarrow> (\<forall>n. k \<le> n \<and> n < LENGTH('a) \<longrightarrow> bit x n = bit y n)"
proof
  assume *: "drop_bit k x = drop_bit k y"
  have "bit x n = bit y n" if "k \<le> n" for n
    using arg_cong [OF *, where f = "\<lambda>z. bit z (n - k)"] that by (simp add: bit_drop_bit_eq)
  then show "\<forall>n. k \<le> n \<and> n < LENGTH('a) \<longrightarrow> bit x n = bit y n" by blast
next
  assume *: "\<forall>n. k \<le> n \<and> n < LENGTH('a) \<longrightarrow> bit x n = bit y n"
  show "drop_bit k x = drop_bit k y"
  proof (rule bit_word_eqI)
    show "bit (drop_bit k x) n = bit (drop_bit k y) n" for n
      using * by (cases "k + n < LENGTH('a)") (auto simp: bit_drop_bit_eq dest: bit_imp_le_length)
  qed
qed

lemma bit_mask_loop:
  "i + k \<le> 32 \<Longrightarrow> bit (mask_loop k i t) n \<longleftrightarrow> bit t n \<or> 32 - i - k \<le> n \<and> n < 32 - i"
proof (induction k arbitrary: i t)
  case (Suc k)
  have "bit (push_bit (32 - i - 1) (1 :: u32)) n \<longleftrightarrow> n = 32 - i - 1"
    using Suc.prems by (intro bit_one_shift) simp
  moreover have "(n = 32 - i - 1 \<or> 32 - Suc i - k \<le> n \<and> n < 32 - Suc i) \<longleftrightarrow> 32 - i - Suc k \<le> n \<and> n < 32 - i"
    using Suc.prems by arith
  ultimately show ?case using Suc.IH [of "Suc i"] Suc.prems by (simp add: bit_or_iff del: push_bit_of_1)
qed auto

definition host_mask :: "nat \<Rightarrow> u32" where
  "host_mask p = mask_loop p 0 0"

lemma bit_host_mask: "p \<le> 32 \<Longrightarrow> bit (host_mask p) n \<longleftrightarrow> 32 - p \<le> n \<and> n < 32"
  by (simp add: host_mask_def bit_mask_loop)

lemma host_mask_Suc: "p < 32 \<Longrightarrow> host_mask p OR push_bit (32 - p - 1) 1 = host_mask (Suc p)"
  by (rule bit_word_eqI) (auto simp: bit_or_iff bit_one_shift bit_host_mask simp del: push_bit_of_1)

lemma host_mask_inject: "p \<le> 32 \<Longrightarrow> q \<le> 32 \<Longrightarrow> host_mask p = host_mask q \<longleftrightarrow> p = q"
proof (induction p q rule: linorder_wlog)
  case (le p q)
  show ?case
  proof (cases "p = q")
    case False
    then have "bit (host_mask q) (32 - q) \<noteq> bit (host_mask p) (32 - q)" using le by (simp add: bit_host_mask)
    then show ?thesis using False by auto
  qed simp
qed metis

lemma prefix_loop_iff:
  "i + k = 33 \<Longrightarrow> prefix_loop k msk i (host_mask (min i 32)) = Some p \<longleftrightarrow>
     i \<le> p \<and> p \<le> 32 \<and> ntoh32 msk = host_mask p"
proof (induction k arbitrary: i)
  case (Suc k)
  then have i: "i \<le> 32" by simp
  have next_mask: "(if i < 32 then host_mask i OR push_bit (32 - i - 1) 1 else host_mask i) = host_mask (min (Suc i) 32)"
    using i host_mask_Suc by (simp add: min_def)
  show ?case
  proof (cases "ntoh32 msk = host_mask i")
    case True
    then show ?thesis using i host_mask_inject [of i p] by (auto simp: min_def)
  next
    case False
    then have "prefix_loop (Suc k) msk i (host_mask (min i 32)) = prefix_loop k msk (Suc i) (host_mask (min (Suc i) 32))"
      using i next_mask by (simp add: min_def)
    moreover have "\<dots> = Some p \<longleftrightarrow> Suc i \<le> p \<and> p \<le> 32 \<and> ntoh32 msk = host_mask p"
      using Suc.prems by (intro Suc.IH) simp
    moreover have "i \<noteq> p" if "ntoh32 msk = host_mask p" using that False by auto
    ultimately show ?thesis by (auto simp: Suc_le_eq)
  qed
qed auto

lemma prefix_from_mask_iff:
  "ipaddr_ipv4_prefix_from_mask msk = Some p \<longleftrightarrow>
     0 \<le> p \<and> p \<le> 32 \<and> msk = ipaddr_ipv4_mask_from_prefix p"
proof -
  have "host_mask 0 = 0" by (simp add: host_mask_def)
  then have "prefix_loop 33 msk 0 0 = Some q \<longleftrightarrow> q \<le> 32 \<and> msk = hton32 (host_mask q)" for q
    using prefix_loop_iff [of 0 33 msk q] hton32_hton32 by (simp add: ntoh32_def) metis
  moreover have "ipaddr_ipv4_prefix_from_mask msk = Some p \<longleftrightarrow> (\<exists>q. p = int q \<and> prefix_loop 33 msk 0 0 = Some q)"
    by (auto simp: ipaddr_ipv4_prefix_from_mask_def split: option.splits)
  ultimately have "ipaddr_ipv4_prefix_from_mask msk = Some p \<longleftrightarrow>
      (\<exists>q. p = int q \<and> q \<le> 32 \<and> msk = hton32 (host_mask q))" by simp
  also have "\<dots> \<longleftrightarrow> 0 \<le> p \<and> p \<le> 32 \<and> msk = hton32 (host_mask (nat p))" by (cases p) auto
  finally show ?thesis by (simp add: ipaddr_ipv4_mask_from_prefix_def host_mask_def)
qed

text \<open>C29. Masks and prefixes correspond: \<open>ipaddr_ipv4_prefix_from_mask\<close> returns a prefix exactly for the
  masks that \<open>ipaddr_ipv4_mask_from_prefix\<close> makes of the prefixes 0 to 32, namely that prefix, and
  the mask has the bits above the prefix's complement set.\<close>

theorem ipv4_mask_prefix_inverse:
  "(ipaddr_ipv4_prefix_from_mask msk = Some p \<longleftrightarrow> 0 \<le> p \<and> p \<le> 32 \<and> msk = ipaddr_ipv4_mask_from_prefix p) \<and>
   (bit (ntoh32 (ipaddr_ipv4_mask_from_prefix (int (min q 32)))) n \<longleftrightarrow> 32 - min q 32 \<le> n \<and> n < 32)"
  using prefix_from_mask_iff bit_host_mask [of "min q 32" n]
  by (simp add: ipaddr_ipv4_mask_from_prefix_def ntoh32_def hton32_hton32 host_mask_def)

text \<open>C30. Two addresses are in one network exactly when the leading bits of their numbers agree.\<close>

theorem ipv4_addrs_in_network_iff:
  assumes "0 \<le> p" and "p \<le> 32"
  shows "ipaddr_ipv4_addrs_in_network a b p \<longleftrightarrow>
    drop_bit (32 - nat p) (ntoh32 a) = drop_bit (32 - nat p) (ntoh32 b)"
proof -
  have m: "bit (host_mask (nat p)) n \<longleftrightarrow> 32 - nat p \<le> n \<and> n < 32" for n
    using assms by (intro bit_host_mask) simp
  have "ipaddr_ipv4_addrs_in_network a b p \<longleftrightarrow>
      hton32 a AND host_mask (nat p) = hton32 b AND host_mask (nat p)"
    by (metis hton32_and hton32_hton32 host_mask_def ipaddr_ipv4_addrs_in_network_def
        ipaddr_ipv4_mask_from_prefix_def)
  also have "\<dots> \<longleftrightarrow> (\<forall>n. 32 - nat p \<le> n \<and> n < 32 \<longrightarrow> bit (hton32 a) n = bit (hton32 b) n)"
    by (auto simp: bit_eq_iff bit_and_iff m)
  also have "\<dots> \<longleftrightarrow> drop_bit (32 - nat p) (hton32 a) = drop_bit (32 - nat p) (hton32 b)"
    by (simp add: drop_bit_eq_iff)
  finally show ?thesis by (simp add: ntoh32_def)
qed

theorem ipv4_addrs_in_network_iff_witness:
  "ipaddr_ipv4_addrs_in_network (hton32 0x0A000001) (hton32 0x0A0000FF) 24 \<longleftrightarrow>
     drop_bit 8 (0x0A000001 :: u32) = drop_bit 8 0x0A0000FF"
  using ipv4_addrs_in_network_iff [of 24 "hton32 0x0A000001" "hton32 0x0A0000FF"]
  by (simp add: ntoh32_def hton32_hton32)

end
