(* ===== verification/Addr.thy ===== *)
theory Addr
  imports IpAddr
begin

text \<open>
  \<open>system/BAddr.h\<close>: IP addresses and socket addresses.  The tagged unions are datatypes; ports and
  IPv4 addresses are in network byte order, an IPv6 address is its sixteen bytes.
  \<open>getaddrinfo\<close> is a parameter, \<open>strtol\<close> and \<open>sprintf\<close> are modelled as far as the code uses them.
  The lemmas show that the order used as a search tree key is a total order and agrees with the
  comparison for equality, and that printing and parsing are inverse.
\<close>

section \<open>Addresses\<close>

datatype BIPAddr =
  BIPADDR_NONE
| BIPADDR_IPV4 u32
| BIPADDR_IPV6 "byte list"

datatype BAddr =
  BADDR_NONE
| BADDR_IPV4 u32 u16
| BADDR_IPV6 "byte list" u16
| BADDR_PACKET u16 int int int "byte list"

fun BIPAddr_type :: "BIPAddr \<Rightarrow> int" where
  "BIPAddr_type BIPADDR_NONE = 0"
| "BIPAddr_type (BIPADDR_IPV4 ip) = 1"
| "BIPAddr_type (BIPADDR_IPV6 ip) = 2"

fun BAddr_type :: "BAddr \<Rightarrow> int" where
  "BAddr_type BADDR_NONE = 0"
| "BAddr_type (BADDR_IPV4 ip port) = 1"
| "BAddr_type (BADDR_IPV6 ip port) = 2"
| "BAddr_type (BADDR_PACKET proto idx ht pt addr) = 5"

text \<open>An IPv6 address has sixteen bytes.\<close>

fun BIPAddr_wf :: "BIPAddr \<Rightarrow> bool" where
  "BIPAddr_wf (BIPADDR_IPV6 ip) = (length ip = 16)"
| "BIPAddr_wf _ = True"

fun BAddr_wf :: "BAddr \<Rightarrow> bool" where
  "BAddr_wf (BADDR_IPV6 ip port) = (length ip = 16)"
| "BAddr_wf _ = True"

definition BIPAddr_InitInvalid :: BIPAddr where "BIPAddr_InitInvalid = BIPADDR_NONE"
definition BIPAddr_InitIPv4 :: "u32 \<Rightarrow> BIPAddr" where "BIPAddr_InitIPv4 ip = BIPADDR_IPV4 ip"
definition BIPAddr_InitIPv6 :: "byte list \<Rightarrow> BIPAddr" where "BIPAddr_InitIPv6 ip = BIPADDR_IPV6 (take 16 ip)"

definition BIPAddr_IsInvalid :: "BIPAddr \<Rightarrow> bool" where
  "BIPAddr_IsInvalid addr \<longleftrightarrow> BIPAddr_type addr = 0"

text \<open>\<open>!memcmp(x, y, n)\<close> on bytes.\<close>

definition mem_eq :: "byte list \<Rightarrow> byte list \<Rightarrow> bool" where
  "mem_eq x y \<longleftrightarrow> memcmp (map unat x) (map unat y) = 0"

fun BIPAddr_Compare :: "BIPAddr \<Rightarrow> BIPAddr \<Rightarrow> bool" where
  "BIPAddr_Compare (BIPADDR_IPV4 ip1) (BIPADDR_IPV4 ip2) = (ip1 = ip2)"
| "BIPAddr_Compare (BIPADDR_IPV6 ip1) (BIPADDR_IPV6 ip2) = mem_eq ip1 ip2"
| "BIPAddr_Compare _ _ = False"

fun BAddr_GetPort :: "BAddr \<Rightarrow> u16" where
  "BAddr_GetPort (BADDR_IPV4 ip port) = port"
| "BAddr_GetPort (BADDR_IPV6 ip port) = port"
| "BAddr_GetPort _ = 0"

fun BAddr_GetIPAddr :: "BAddr \<Rightarrow> BIPAddr" where
  "BAddr_GetIPAddr (BADDR_IPV4 ip port) = BIPAddr_InitIPv4 ip"
| "BAddr_GetIPAddr (BADDR_IPV6 ip port) = BIPAddr_InitIPv6 ip"
| "BAddr_GetIPAddr _ = BIPAddr_InitInvalid"

fun BAddr_SetPort :: "u16 \<Rightarrow> BAddr \<Rightarrow> BAddr" where
  "BAddr_SetPort p (BADDR_IPV4 ip port) = BADDR_IPV4 ip p"
| "BAddr_SetPort p (BADDR_IPV6 ip port) = BADDR_IPV6 ip p"
| "BAddr_SetPort p addr = addr"

definition BAddr_MakeNone :: BAddr where "BAddr_MakeNone = BADDR_NONE"
definition BAddr_MakeIPv4 :: "u32 \<Rightarrow> u16 \<Rightarrow> BAddr" where "BAddr_MakeIPv4 ip port = BADDR_IPV4 ip port"
definition BAddr_MakeIPv6 :: "byte list \<Rightarrow> u16 \<Rightarrow> BAddr" where
  "BAddr_MakeIPv6 ip port = BADDR_IPV6 (take 16 ip) port"

fun BAddr_MakeFromIpaddrAndPort :: "BIPAddr \<Rightarrow> u16 \<Rightarrow> BAddr" where
  "BAddr_MakeFromIpaddrAndPort BIPADDR_NONE port = BAddr_MakeNone"
| "BAddr_MakeFromIpaddrAndPort (BIPADDR_IPV4 ip) port = BAddr_MakeIPv4 ip port"
| "BAddr_MakeFromIpaddrAndPort (BIPADDR_IPV6 ip) port = BAddr_MakeIPv6 ip port"

definition BAddr_InitNone :: BAddr where "BAddr_InitNone = BAddr_MakeNone"
definition BAddr_InitIPv4 :: "u32 \<Rightarrow> u16 \<Rightarrow> BAddr" where "BAddr_InitIPv4 ip port = BAddr_MakeIPv4 ip port"
definition BAddr_InitIPv6 :: "byte list \<Rightarrow> u16 \<Rightarrow> BAddr" where "BAddr_InitIPv6 ip port = BAddr_MakeIPv6 ip port"
definition BAddr_InitFromIpaddrAndPort :: "BIPAddr \<Rightarrow> u16 \<Rightarrow> BAddr" where
  "BAddr_InitFromIpaddrAndPort ipaddr port = BAddr_MakeFromIpaddrAndPort ipaddr port"

definition BAddr_InitPacket :: "u16 \<Rightarrow> int \<Rightarrow> int \<Rightarrow> int \<Rightarrow> byte list \<Rightarrow> byte list \<Rightarrow> BAddr" where
  "BAddr_InitPacket phys_proto interface_index header_type packet_type phys_addr old =
     BADDR_PACKET phys_proto interface_index header_type packet_type (splice 0 (take 6 phys_addr) old)"

definition BAddr_IsInvalid :: "BAddr \<Rightarrow> bool" where
  "BAddr_IsInvalid addr \<longleftrightarrow> BAddr_type addr = 0"

fun BAddr_Compare :: "BAddr \<Rightarrow> BAddr \<Rightarrow> bool" where
  "BAddr_Compare (BADDR_IPV4 ip1 port1) (BADDR_IPV4 ip2 port2) = (ip1 = ip2 \<and> port1 = port2)"
| "BAddr_Compare (BADDR_IPV6 ip1 port1) (BADDR_IPV6 ip2 port2) = (mem_eq ip1 ip2 \<and> port1 = port2)"
| "BAddr_Compare _ _ = False"

text \<open>The macro \<open>B_COMPARE\<close>.\<close>

definition B_COMPARE :: "'a::linorder \<Rightarrow> 'a \<Rightarrow> int" where
  "B_COMPARE a b = (if b < a then 1 else 0) - (if a < b then 1 else 0)"

fun BAddr_CompareOrder :: "BAddr \<Rightarrow> BAddr \<Rightarrow> int" where
  "BAddr_CompareOrder addr1 addr2 =
     (let cmp = B_COMPARE (BAddr_type addr1) (BAddr_type addr2) in
      if cmp \<noteq> 0 then cmp
      else case (addr1, addr2) of
        (BADDR_IPV4 ip1 port1, BADDR_IPV4 ip2 port2) \<Rightarrow>
          (let cmp = B_COMPARE (ntoh32 ip1) (ntoh32 ip2) in
           if cmp \<noteq> 0 then cmp else B_COMPARE (ntoh16 port1) (ntoh16 port2))
      | (BADDR_IPV6 ip1 port1, BADDR_IPV6 ip2 port2) \<Rightarrow>
          (let cmp = memcmp (map unat ip1) (map unat ip2) in
           if cmp \<noteq> 0 then B_COMPARE cmp 0 else B_COMPARE (ntoh16 port1) (ntoh16 port2))
      | _ \<Rightarrow> 0)"

declare BAddr_CompareOrder.simps [simp del]


section \<open>Addresses as text\<close>

text \<open>The string \<open>sprintf\<close> prints for \<open>PRIx16\<close>: lower case, no leading zeros.\<close>

definition hex_char :: "nat \<Rightarrow> char" where
  "hex_char d = (if d < 10 then char_of (48 + d) else char_of (87 + d))"

fun hex_str :: "nat \<Rightarrow> string" where
  "hex_str n = (if n < 16 then [hex_char n] else hex_str (n div 16) @ [hex_char (n mod 16)])"

declare hex_str.simps [simp del]

definition sprint_x16 :: "u16 \<Rightarrow> string" where
  "sprint_x16 x = hex_str (unat x)"

fun BIPAddr_Print :: "BIPAddr \<Rightarrow> string" where
  "BIPAddr_Print BIPADDR_NONE = ''(none)''"
| "BIPAddr_Print (BIPADDR_IPV4 ip) =
     (let b = mem32 ip in
      sprint_u8 (b ! 0) @ ''.'' @ sprint_u8 (b ! 1) @ ''.'' @ sprint_u8 (b ! 2) @ ''.'' @ sprint_u8 (b ! 3))"
| "BIPAddr_Print (BIPADDR_IPV6 ip) =
     sprint_x16 (badvpn_read_be16 ip) @ '':'' @ sprint_x16 (badvpn_read_be16 (drop 2 ip)) @ '':'' @
     sprint_x16 (badvpn_read_be16 (drop 4 ip)) @ '':'' @ sprint_x16 (badvpn_read_be16 (drop 6 ip)) @ '':'' @
     sprint_x16 (badvpn_read_be16 (drop 8 ip)) @ '':'' @ sprint_x16 (badvpn_read_be16 (drop 10 ip)) @ '':'' @
     sprint_x16 (badvpn_read_be16 (drop 12 ip)) @ '':'' @ sprint_x16 (badvpn_read_be16 (drop 14 ip))"

text \<open>\<open>strtol\<close> in base 10 on a short string: the number, and the rest of the string.\<close>

definition is_space :: "char \<Rightarrow> bool" where
  "is_space c \<longleftrightarrow> (of_char c :: nat) = 32 \<or> 9 \<le> (of_char c :: nat) \<and> (of_char c :: nat) \<le> 13"

definition strtol10 :: "string \<Rightarrow> int \<times> string" where
  "strtol10 s =
     (let t = dropWhile is_space s;
          (sign, u) = (if t \<noteq> [] \<and> hd t = CHR ''-'' then (-1, tl t)
                       else if t \<noteq> [] \<and> hd t = CHR ''+'' then (1, tl t) else (1, t));
          ds = takeWhile is_digit u
      in if ds = [] then (0, s) else (sign * int (dec_value ds), dropWhile is_digit u))"

text \<open>
  \<open>getaddrinfo\<close> with \<open>hints.ai_family\<close> and \<open>AI_NUMERICHOST\<close>: the bytes of the first address.
\<close>

datatype ai_family = AF_INET | AF_INET6

type_synonym getaddrinfo = "string \<Rightarrow> ai_family \<Rightarrow> bool \<Rightarrow> byte list option"

definition BIPAddr_Resolve :: "getaddrinfo \<Rightarrow> string \<Rightarrow> bool \<Rightarrow> BIPAddr option" where
  "BIPAddr_Resolve getaddrinfo str noresolve =
     (let len = length str;
          (family, addr_str) =
            (if len \<ge> 1 \<and> str ! 0 = CHR ''['' \<and> str ! (len - 1) = CHR '']''
             then (AF_INET6, take (len - 2) (drop 1 str)) else (AF_INET, str))
      in if length addr_str > 128 then None
         else case getaddrinfo addr_str family noresolve of
           None \<Rightarrow> None
         | Some b \<Rightarrow>
             (case family of
                AF_INET6 \<Rightarrow> Some (BIPADDR_IPV6 (take 16 b))
              | AF_INET \<Rightarrow> Some (BIPADDR_IPV4 (of_mem (take 4 b)))))"

text \<open>How \<open>BAddr_Parse2\<close> splits its argument: the family, the address and the port.\<close>

definition split_addr_port :: "string \<Rightarrow> (ai_family \<times> string \<times> string) option" where
  "split_addr_port str =
     (let len = length str in
      if str ! 0 = CHR ''['' then
        case find_char_from 1 (CHR '']'') (drop 1 str) of
          None \<Rightarrow> None
        | Some i \<Rightarrow>
            if i + 1 \<ge> len \<or> str ! (i + 1) \<noteq> CHR '':'' then None
            else Some (AF_INET6, take (i - 1) (drop 1 str), drop (i + 2) str)
      else
        case find_char_from 0 (CHR '':'') str of
          None \<Rightarrow> None
        | Some i \<Rightarrow> Some (AF_INET, take i str, drop (i + 1) str))"

text \<open>\<open>name_len\<close> is the size of the \<open>name\<close> buffer, if there is one.\<close>

definition BAddr_Parse2 :: "getaddrinfo \<Rightarrow> string \<Rightarrow> nat option \<Rightarrow> bool \<Rightarrow> (BAddr \<times> string option) option" where
  "BAddr_Parse2 getaddrinfo str name_len noresolve =
     (let len = length str in
      if len < 1 \<or> len > 1000 then None
      else (case split_addr_port str of
        None \<Rightarrow> None
      | Some (family, addr_str, port_str) \<Rightarrow>
          (if length addr_str \<ge> 128 \<or> length port_str \<ge> 6 then None
           else let (conv_res, err) = strtol10 port_str in
           if port_str = [] \<or> err \<noteq> [] then None
           else if conv_res < 0 \<or> conv_res > UINT16_MAX then None
           else let port = hton16 (of_int conv_res) in
           (case getaddrinfo addr_str family noresolve of
              None \<Rightarrow> None
            | Some b \<Rightarrow>
                (let addr = (case family of
                       AF_INET6 \<Rightarrow> BADDR_IPV6 (take 16 b) port
                     | AF_INET \<Rightarrow> BADDR_IPV4 (of_mem (take 4 b)) port)
                 in (case name_len of
                       None \<Rightarrow> Some (addr, None)
                     | Some n \<Rightarrow> (if length addr_str \<ge> n then None else Some (addr, Some addr_str))))))))"

definition BAddr_Parse :: "getaddrinfo \<Rightarrow> string \<Rightarrow> nat option \<Rightarrow> (BAddr \<times> string option) option" where
  "BAddr_Parse getaddrinfo str name_len = BAddr_Parse2 getaddrinfo str name_len False"

text \<open>\<open>%d\<close> and \<open>%02x\<close>.\<close>

definition sprint_d :: "int \<Rightarrow> string" where
  "sprint_d n = (if n < 0 then ''-'' @ dec_str (nat (- n)) else dec_str (nat n))"

definition sprint_02x :: "byte \<Rightarrow> string" where
  "sprint_02x b = [hex_char (unat b div 16), hex_char (unat b mod 16)]"

fun BAddr_Print :: "BAddr \<Rightarrow> string" where
  "BAddr_Print BADDR_NONE = ''(none)''"
| "BAddr_Print (BADDR_IPV4 ip port) = BIPAddr_Print (BIPAddr_InitIPv4 ip) @ '':'' @ dec_str (unat (ntoh16 port))"
| "BAddr_Print (BADDR_IPV6 ip port) = BIPAddr_Print (BIPAddr_InitIPv6 ip) @ '':'' @ dec_str (unat (ntoh16 port))"
| "BAddr_Print (BADDR_PACKET phys_proto interface_index header_type packet_type a) =
     ''proto='' @ dec_str (unat phys_proto) @ '',ifindex='' @ sprint_d interface_index @
     '',htype=eth,ptype='' @ sprint_d packet_type @ '',addr='' @
     sprint_02x (a ! 0) @ '':'' @ sprint_02x (a ! 1) @ '':'' @ sprint_02x (a ! 2) @ '':'' @
     sprint_02x (a ! 3) @ '':'' @ sprint_02x (a ! 4) @ '':'' @ sprint_02x (a ! 5)"


section \<open>The order of addresses\<close>

lemma B_COMPARE_simps:
  "B_COMPARE a b = 0 \<longleftrightarrow> a = b" "B_COMPARE a b < 0 \<longleftrightarrow> a < b" "0 < B_COMPARE a b \<longleftrightarrow> b < a"
  "- B_COMPARE a b = B_COMPARE b a"
  by (auto simp: B_COMPARE_def)

lemma memcmp_antisym: "length xs = length ys \<Longrightarrow> memcmp ys xs = - memcmp xs ys"
  by (induction xs ys rule: list_induct2) auto

lemma memcmp_trans:
  "length xs = length ys \<Longrightarrow> length ys = length zs \<Longrightarrow> memcmp xs ys \<le> 0 \<Longrightarrow> memcmp ys zs \<le> 0 \<Longrightarrow>
   memcmp xs zs \<le> 0 \<and> (memcmp xs zs = 0 \<longrightarrow> memcmp xs ys = 0 \<and> memcmp ys zs = 0)"
  by (induction xs ys zs rule: list_induct3) (auto split: if_splits)

lemma bit_hton16: "bit (hton16 x) n \<longleftrightarrow> n < 16 \<and> bit x (8 * (1 - n div 8) + n mod 8)"
proof (cases "n < 16")
  case True
  then have "n div 8 = 0 \<or> n div 8 = 1" by linarith
  then show ?thesis using True by (auto simp: hton16_def badvpn_reverse16_def bit_of_mem)
qed (auto dest: bit_imp_le_length)

lemma hton16_hton16: "hton16 (hton16 x) = x"
proof (rule bit_word_eqI)
  fix n assume n: "n < LENGTH(16)"
  then have "8 * (1 - n div 8) + n mod 8 < 16" "8 * (1 - (1 - n div 8)) + n mod 8 = n" by simp_all
  then show "bit (hton16 (hton16 x)) n = bit x n" using n by (simp add: bit_hton16)
qed

lemma ntoh_inject: "ntoh32 a = ntoh32 b \<longleftrightarrow> a = b" "ntoh16 p = ntoh16 q \<longleftrightarrow> p = q"
  by (metis ntoh32_def hton32_hton32) (metis ntoh16_def hton16_hton16)

text \<open>An address that may be a key: not a data link address, and of the right size.\<close>

definition BAddr_key :: "BAddr \<Rightarrow> bool" where
  "BAddr_key a \<longleftrightarrow> BAddr_wf a \<and> BAddr_type a \<noteq> 5"

lemma map_unat_eq: "map unat x = map unat y \<longleftrightarrow> x = (y :: byte list)"
  by (rule inj_map_eq_map) (rule inj_unsigned)

lemma mem_eq_iff: "length x = length y \<Longrightarrow> mem_eq x y \<longleftrightarrow> x = y"
  by (simp add: mem_eq_def memcmp_eq_0 map_unat_eq)

lemma compare_order_eqs:
  "BAddr_type a \<noteq> BAddr_type b \<Longrightarrow> BAddr_CompareOrder a b = B_COMPARE (BAddr_type a) (BAddr_type b)"
  "BAddr_CompareOrder BADDR_NONE BADDR_NONE = 0"
  "BAddr_CompareOrder (BADDR_IPV4 i p) (BADDR_IPV4 j q) =
     (if i = j then B_COMPARE (ntoh16 p) (ntoh16 q) else B_COMPARE (ntoh32 i) (ntoh32 j))"
  "length x = length y \<Longrightarrow> BAddr_CompareOrder (BADDR_IPV6 x p) (BADDR_IPV6 y q) =
     (if x = y then B_COMPARE (ntoh16 p) (ntoh16 q) else B_COMPARE (memcmp (map unat x) (map unat y)) 0)"
  by (simp_all add: BAddr_CompareOrder.simps Let_def B_COMPARE_simps ntoh_inject memcmp_eq_0 map_unat_eq)

text \<open>Two keys of the same kind.\<close>

lemma BAddr_key_cases:
  assumes "BAddr_key a" and "BAddr_key b" and "BAddr_type a = BAddr_type b"
  obtains (none) "a = BADDR_NONE" "b = BADDR_NONE"
  | (ipv4) i p j q where "a = BADDR_IPV4 i p" "b = BADDR_IPV4 j q"
  | (ipv6) x p y q where "a = BADDR_IPV6 x p" "b = BADDR_IPV6 y q" "length x = 16" "length y = 16"
  using assms by (cases a; cases b) (auto simp: BAddr_key_def)

lemma compare_order_antisym:
  assumes "BAddr_key a" and "BAddr_key b"
  shows "BAddr_CompareOrder b a = - BAddr_CompareOrder a b"
proof (cases "BAddr_type a = BAddr_type b")
  case True
  from assms True show ?thesis
  proof (cases rule: BAddr_key_cases)
    case (ipv6 x p y q)
    then show ?thesis using memcmp_antisym [of "map unat x" "map unat y"]
      by (simp add: compare_order_eqs B_COMPARE_simps) (simp add: B_COMPARE_def)
  qed (auto simp: compare_order_eqs B_COMPARE_simps)
qed (simp add: compare_order_eqs B_COMPARE_simps)

lemma compare_order_0:
  assumes "BAddr_key a" and "BAddr_key b"
  shows "BAddr_CompareOrder a b = 0 \<longleftrightarrow> a = b"
proof (cases "BAddr_type a = BAddr_type b")
  case True
  from assms True show ?thesis
    by (cases rule: BAddr_key_cases)
      (auto simp: compare_order_eqs B_COMPARE_simps ntoh_inject memcmp_eq_0 map_unat_eq)
next
  case False
  then show ?thesis by (auto simp: compare_order_eqs B_COMPARE_simps)
qed

lemma compare_order_trans:
  assumes keys: "BAddr_key a" "BAddr_key b" "BAddr_key c"
    and le: "BAddr_CompareOrder a b \<le> 0" "BAddr_CompareOrder b c \<le> 0"
  shows "BAddr_CompareOrder a c \<le> 0"
proof -
  have types: "BAddr_type a \<le> BAddr_type b" "BAddr_type b \<le> BAddr_type c"
    using le compare_order_eqs(1) B_COMPARE_simps(3) by (metis not_less order.asym)+
  show ?thesis
  proof (cases "BAddr_type a = BAddr_type b \<and> BAddr_type b = BAddr_type c")
    case True
    from keys(1,2) conjunct1 [OF True] show ?thesis
    proof (cases rule: BAddr_key_cases)
      case none
      then show ?thesis using True keys(3) by (cases c) (auto simp: compare_order_eqs BAddr_key_def)
    next
      case (ipv4 i p j q)
      then obtain k r where c: "c = BADDR_IPV4 k r" using True by (cases c) auto
      show ?thesis using le unfolding ipv4 c compare_order_eqs
        by (auto simp: not_less [symmetric] B_COMPARE_simps ntoh_inject split: if_splits)
    next
      case (ipv6 x p y q)
      then obtain z r where c: "c = BADDR_IPV6 z r" "length z = 16" using True keys(3)
        by (cases c) (auto simp: BAddr_key_def)
      show ?thesis using le memcmp_trans [of "map unat x" "map unat y" "map unat z"] unfolding ipv6 c
        using ipv6 c
        by (auto simp: compare_order_eqs not_less [symmetric] B_COMPARE_simps memcmp_eq_0 map_unat_eq
            split: if_splits)
    qed
  next
    case False
    then have "BAddr_type a < BAddr_type c" using types by linarith
    then show ?thesis by (simp add: compare_order_eqs B_COMPARE_def)
  qed
qed

text \<open>C38. \<open>BAddr_CompareOrder\<close> is a total order on the addresses used as search tree keys, invalid addresses
  first, then IPv4 ordered by the numeric address and then port.  \<open>BAddr_Compare\<close> holds exactly for two
  addresses that are equal in this order and valid: it is false on two invalid addresses, which
  the order takes as equal.\<close>

theorem baddr_order_total:
  assumes "BAddr_key a" and "BAddr_key b" and "BAddr_key c"
  shows "BAddr_CompareOrder b a = - BAddr_CompareOrder a b \<and>
    (BAddr_CompareOrder a b = 0 \<longleftrightarrow> a = b) \<and>
    (BAddr_CompareOrder a b \<le> 0 \<and> BAddr_CompareOrder b c \<le> 0 \<longrightarrow> BAddr_CompareOrder a c \<le> 0) \<and>
    (BAddr_IsInvalid a \<longrightarrow> BAddr_CompareOrder a b \<le> 0) \<and>
    (\<forall>ip1 port1 ip2 port2. a = BADDR_IPV4 ip1 port1 \<longrightarrow> b = BADDR_IPV4 ip2 port2 \<longrightarrow>
       (BAddr_CompareOrder a b < 0 \<longleftrightarrow>
          ntoh32 ip1 < ntoh32 ip2 \<or> ntoh32 ip1 = ntoh32 ip2 \<and> ntoh16 port1 < ntoh16 port2)) \<and>
    (BAddr_Compare a b \<longleftrightarrow> BAddr_CompareOrder a b = 0 \<and> \<not> BAddr_IsInvalid a)"
proof -
  have "BAddr_Compare a b \<longleftrightarrow> a = b \<and> \<not> BAddr_IsInvalid a"
    using assms(1,2) by (cases a; cases b) (auto simp: BAddr_key_def BAddr_IsInvalid_def mem_eq_iff)
  moreover have "BAddr_IsInvalid a \<longrightarrow> BAddr_CompareOrder a b \<le> 0"
    by (cases a; cases b) (simp_all add: BAddr_IsInvalid_def BAddr_CompareOrder.simps B_COMPARE_def)
  moreover have "BAddr_CompareOrder (BADDR_IPV4 ip1 port1) (BADDR_IPV4 ip2 port2) < 0 \<longleftrightarrow>
      ntoh32 ip1 < ntoh32 ip2 \<or> ntoh32 ip1 = ntoh32 ip2 \<and> ntoh16 port1 < ntoh16 port2" for ip1 port1 ip2 port2
    by (auto simp: BAddr_CompareOrder.simps B_COMPARE_def Let_def)
  ultimately show ?thesis
    using compare_order_antisym [OF assms(1,2)] compare_order_0 [OF assms(1,2)] compare_order_trans [OF assms]
    by blast
qed

theorem baddr_order_total_witness:
  "BAddr_CompareOrder (BADDR_IPV4 0x0100007F 0x5000) (BADDR_IPV4 0x0200007F 0x5000) =
     - BAddr_CompareOrder (BADDR_IPV4 0x0200007F 0x5000) (BADDR_IPV4 0x0100007F 0x5000)"
  using baddr_order_total [of "BADDR_IPV4 0x0200007F 0x5000" "BADDR_IPV4 0x0100007F 0x5000" BADDR_NONE]
  by (simp add: BAddr_key_def)


section \<open>Parsing\<close>

lemma strtol10_dec_str: "strtol10 (dec_str n) = (int n, [])"
proof -
  have d: "list_all is_digit (dec_str n)" by (rule dec_str_digits)
  have "\<not> is_space c \<and> c \<noteq> CHR ''-'' \<and> c \<noteq> CHR ''+''" if "is_digit c" for c
    using that by (auto simp: is_digit_def is_space_def)
  then have h: "\<not> is_space (hd (dec_str n))" "hd (dec_str n) \<noteq> CHR ''-''" "hd (dec_str n) \<noteq> CHR ''+''"
    using d dec_str_not_Nil [of n] by (auto simp: list_all_iff)
  then have "dropWhile is_space (dec_str n) = dec_str n" by (cases "dec_str n") auto
  moreover have t: "takeWhile is_digit (dec_str n) = dec_str n" "dropWhile is_digit (dec_str n) = []"
    using d by (auto simp: list_all_iff)
  ultimately show ?thesis
    using h dec_str_not_Nil [of n] by (simp add: strtol10_def Let_def dec_value_dec_str t del: takeWhile_eq_all_conv)
qed

lemma parse2_port:
  assumes "split_addr_port str = Some (family, addr_str, dec_str p)" and "p \<le> 65535"
    and "str \<noteq> []" and "length addr_str < 128" and "length str \<le> 1000"
    and "getaddrinfo addr_str family noresolve = Some b"
  shows "BAddr_Parse2 getaddrinfo str None noresolve =
    Some (case family of AF_INET6 \<Rightarrow> BADDR_IPV6 (take 16 b) (hton16 (of_nat p))
      | AF_INET \<Rightarrow> BADDR_IPV4 (of_mem (take 4 b)) (hton16 (of_nat p)), None)"
proof -
  have "length (dec_str p) \<le> 5" using assms(2) by (intro length_dec_str) simp_all
  then show ?thesis using assms by (simp add: BAddr_Parse2_def Let_def strtol10_dec_str dec_str_not_Nil)
qed

text \<open>C39. \<open>BAddr_Parse2\<close> reads \<open>addr:port\<close> as an IPv4 and \<open>[addr]:port\<close> as an IPv6 socket address: the
  address is what \<open>getaddrinfo\<close> makes of the part before the port, the port is stored in network
  byte order; and what \<open>BAddr_Print\<close> prints for an IPv4 address is read back.\<close>

theorem baddr_parse_format:
  assumes "p \<le> 65535" and "length s < 128" and "getaddrinfo s family noresolve = Some b"
  shows "(family = AF_INET \<and> CHR '':'' \<notin> set s \<and> (s = [] \<or> hd s \<noteq> CHR ''['') \<longrightarrow>
      BAddr_Parse2 getaddrinfo (s @ '':'' @ dec_str p) None noresolve =
        Some (BADDR_IPV4 (of_mem (take 4 b)) (hton16 (of_nat p)), None)) \<and>
    (family = AF_INET6 \<and> CHR '']'' \<notin> set s \<longrightarrow>
      BAddr_Parse2 getaddrinfo (''['' @ s @ '']:'' @ dec_str p) None noresolve =
        Some (BADDR_IPV6 (take 16 b) (hton16 (of_nat p)), None)) \<and>
    (family = AF_INET \<and> s = ipaddr_print_addr ip \<and> b = mem32 ip \<longrightarrow>
      BAddr_Parse2 getaddrinfo (BAddr_Print (BADDR_IPV4 ip (hton16 (of_nat p)))) None noresolve =
        Some (BADDR_IPV4 ip (hton16 (of_nat p)), None))"
proof -
  have len: "length (dec_str p) \<le> 5" using assms(1) by (intro length_dec_str) simp_all
  have v4: "BAddr_Parse2 getaddrinfo (s @ '':'' @ dec_str p) None noresolve =
      Some (BADDR_IPV4 (of_mem (take 4 b)) (hton16 (of_nat p)), None)"
    if "family = AF_INET" "CHR '':'' \<notin> set s" "s = [] \<or> hd s \<noteq> CHR ''[''"
  proof -
    have "(s @ '':'' @ dec_str p) ! 0 \<noteq> CHR ''[''" using that(3) by (cases s) auto
    moreover have "find_char_from 0 (CHR '':'') (s @ '':'' @ dec_str p) = Some (length s)"
      using that(2) by (simp add: find_char_from_Some)
    ultimately have "split_addr_port (s @ '':'' @ dec_str p) = Some (AF_INET, s, dec_str p)"
      by (simp add: split_addr_port_def Let_def)
    from parse2_port [OF this assms(1)] show ?thesis using assms len that(1) by simp
  qed
  have v6: "BAddr_Parse2 getaddrinfo (''['' @ s @ '']:'' @ dec_str p) None noresolve =
      Some (BADDR_IPV6 (take 16 b) (hton16 (of_nat p)), None)"
    if "family = AF_INET6" "CHR '']'' \<notin> set s"
  proof -
    have "find_char_from 1 (CHR '']'') (s @ '']:'' @ dec_str p) = Some (Suc (length s))"
      using that(2) by (simp add: find_char_from_Some)
    then have "split_addr_port (''['' @ s @ '']:'' @ dec_str p) = Some (AF_INET6, s, dec_str p)"
      by (simp add: split_addr_port_def Let_def nth_append)
    from parse2_port [OF this assms(1)] show ?thesis using assms len that(1) by simp
  qed
  have pr: "BAddr_Print (BADDR_IPV4 ip (hton16 (of_nat p))) = ipaddr_print_addr ip @ '':'' @ dec_str p"
    using assms(1) by (simp add: BIPAddr_InitIPv4_def ipaddr_print_addr_def Let_def ntoh16_def hton16_hton16
        unsigned_of_nat take_bit_nat_eq_self)
  have no: "CHR '':'' \<notin> set (ipaddr_print_addr ip)" "hd (ipaddr_print_addr ip) \<noteq> CHR ''[''"
    by (simp_all add: print_addr_chars)
  show ?thesis using v4 v6 pr no by (auto simp: of_mem_mem32)
qed

definition example_getaddrinfo :: getaddrinfo where
  "example_getaddrinfo s family noresolve =
     (case family of AF_INET \<Rightarrow> map_option mem32 (ipaddr_parse_ipv4_addr s 0)
      | AF_INET6 \<Rightarrow> if s = ''::1'' then Some (replicate 15 0 @ [1]) else None)"

theorem baddr_parse_format_witness:
  "BAddr_Parse2 example_getaddrinfo ''[::1]:80'' None True = Some (BADDR_IPV6 (replicate 15 0 @ [1]) (hton16 80), None)"
proof -
  have "dec_str 80 = ''80''" by code_simp
  moreover have "example_getaddrinfo ''::1'' AF_INET6 True = Some (replicate 15 0 @ [1])"
    by (simp add: example_getaddrinfo_def)
  ultimately show ?thesis
    using baddr_parse_format [of 80 "''::1''" example_getaddrinfo AF_INET6 True] by simp
qed

end
