(* ===== verification/Connection.thy ===== *)
theory Connection
  imports FlowInterfaces Addr
begin

text \<open>
  The TCP connection of \<open>system/BConnection_unix.c\<close>: the asynchronous send and receive sides of a
  \<open>BConnection\<close> with their interfaces, and the part of the reactor they use
  (\<open>system/BReactor_badvpn.c\<close>: file descriptor events and limits).  A system call is represented by
  its result, a function of its arguments that is passed to the operation making the call.  Data
  pointers are offsets into the memory of the user of the interface.  The lemmas show that the connection keeps the contract of
  the two stream interfaces and that an operation in progress is always waiting for an event that
  is being monitored.
\<close>

section \<open>Reactor: file descriptors and limits\<close>

abbreviation (input) BREACTOR_READ :: u32 where "BREACTOR_READ \<equiv> 1"
abbreviation (input) BREACTOR_WRITE :: u32 where "BREACTOR_WRITE \<equiv> 2"
abbreviation (input) BREACTOR_ERROR :: u32 where "BREACTOR_ERROR \<equiv> 4"
abbreviation (input) BREACTOR_HUP :: u32 where "BREACTOR_HUP \<equiv> 8"

record BFileDescriptor =
  bfd_fd :: int
  bfd_active :: bool
  bfd_waitEvents :: u32

definition BFileDescriptor_Init :: "int \<Rightarrow> BFileDescriptor \<Rightarrow> BFileDescriptor" where
  "BFileDescriptor_Init fd bs = bs\<lparr>bfd_fd := fd, bfd_active := False\<rparr>"

text \<open>\<open>ok\<close> is whether \<open>epoll_ctl\<close> succeeds.\<close>

definition BReactor_AddFileDescriptor :: "bool \<Rightarrow> BFileDescriptor \<Rightarrow> BFileDescriptor option" where
  "BReactor_AddFileDescriptor ok bs =
     (if \<not> ok then None else Some (bs\<lparr>bfd_active := True, bfd_waitEvents := 0\<rparr>))"

definition BReactor_RemoveFileDescriptor :: "BFileDescriptor \<Rightarrow> BFileDescriptor" where
  "BReactor_RemoveFileDescriptor bs = bs\<lparr>bfd_active := False\<rparr>"

definition BReactor_SetFileDescriptorEvents :: "u32 \<Rightarrow> BFileDescriptor \<Rightarrow> BFileDescriptor" where
  "BReactor_SetFileDescriptorEvents events bs =
     (if bfd_waitEvents bs = events then bs else bs\<lparr>bfd_waitEvents := events\<rparr>)"

text \<open>A limit is on the reactor's list of active limits exactly when its count is positive.\<close>

record BReactorLimit =
  lim_limit :: int
  lim_count :: int

definition BReactorLimit_Init :: "int \<Rightarrow> BReactorLimit" where
  "BReactorLimit_Init limit = \<lparr>lim_limit = limit, lim_count = 0\<rparr>"

definition BReactorLimit_Increment :: "BReactorLimit \<Rightarrow> (BReactorLimit) option" where
  "BReactorLimit_Increment l =
     (if lim_count l \<ge> lim_limit l then None else Some (l\<lparr>lim_count := lim_count l + 1\<rparr>))"


section \<open>BConnection\<close>

datatype con_send_state = SEND_STATE_NOT_INITED | SEND_STATE_READY | SEND_STATE_BUSY

datatype con_recv_state =
  RECV_STATE_NOT_INITED | RECV_STATE_READY | RECV_STATE_BUSY | RECV_STATE_INITED_CLOSED
| RECV_STATE_NOT_INITED_CLOSED

datatype con_event = BCONNECTION_EVENT_ERROR | BCONNECTION_EVENT_RECVCLOSED

record 'j con_send =
  cs_limit :: BReactorLimit
  cs_iface :: "('j, int) spi"
  cs_job :: 'j
  cs_busy_data :: int
  cs_busy_data_len :: int
  cs_state :: con_send_state

record 'j con_recv =
  cr_limit :: BReactorLimit
  cr_iface :: "('j, int) sri"
  cr_job :: 'j
  cr_busy_data :: int
  cr_busy_data_avail :: int
  cr_state :: con_recv_state

record 'j BConnection =
  con_fd :: int
  con_close_fd :: bool
  con_is_hupd :: bool
  con_bfd :: BFileDescriptor
  con_wait_events :: u32
  con_send :: "'j con_send"
  con_recv :: "'j con_recv"

text \<open>
  The calls of \<open>read\<close> and \<open>write\<close> with their arguments, and the result of a call: a number of bytes,
  \<open>EAGAIN\<close>, or another error.
\<close>

datatype io_call = Sys_read int int int | Sys_write int int int

datatype io_result = IO_bytes int | IO_again | IO_error

type_synonym io_sys = "io_call \<Rightarrow> io_result"

text \<open>The connection, the jobs, and the event the handler of the user is called with.\<close>

type_synonym 'j con_result = "'j BConnection \<times> 'j jobs \<times> con_event option"

definition con_wait :: "u32 \<Rightarrow> 'j BConnection \<Rightarrow> 'j BConnection" where
  "con_wait ev c =
     (let c = c\<lparr>con_wait_events := con_wait_events c OR ev\<rparr>
      in c\<lparr>con_bfd := BReactor_SetFileDescriptorEvents (con_wait_events c) (con_bfd c)\<rparr>)"

definition con_send_write :: "io_sys \<Rightarrow> 'j BConnection \<Rightarrow> 'j jobs \<Rightarrow> 'j con_result" where
  "con_send_write sys c js =
     (case sys (Sys_write (con_fd c) (cs_busy_data (con_send c)) (cs_busy_data_len (con_send c))) of
        IO_again \<Rightarrow> if \<not> con_is_hupd c then (con_wait BREACTOR_WRITE c, js, None)
                     else (c, js, Some BCONNECTION_EVENT_ERROR)
      | IO_error \<Rightarrow> (c, js, Some BCONNECTION_EVENT_ERROR)
      | IO_bytes bytes \<Rightarrow>
          (let c = c\<lparr>con_send := (con_send c)\<lparr>cs_state := SEND_STATE_READY\<rparr>\<rparr>;
               (i, js) = StreamPassInterface_Done bytes (cs_iface (con_send c)) js
           in (c\<lparr>con_send := (con_send c)\<lparr>cs_iface := i\<rparr>\<rparr>, js, None)))"

definition connection_send :: "io_sys \<Rightarrow> 'j BConnection \<Rightarrow> 'j jobs \<Rightarrow> 'j con_result" where
  "connection_send sys c js =
     (if \<not> con_is_hupd c then
        (case BReactorLimit_Increment (cs_limit (con_send c)) of
           None \<Rightarrow> (con_wait BREACTOR_WRITE c, js, None)
         | Some l \<Rightarrow> con_send_write sys (c\<lparr>con_send := (con_send c)\<lparr>cs_limit := l\<rparr>\<rparr>) js)
      else con_send_write sys c js)"

definition con_recv_read :: "io_sys \<Rightarrow> 'j BConnection \<Rightarrow> 'j jobs \<Rightarrow> 'j con_result" where
  "con_recv_read sys c js =
     (case sys (Sys_read (con_fd c) (cr_busy_data (con_recv c)) (cr_busy_data_avail (con_recv c))) of
        IO_again \<Rightarrow> if \<not> con_is_hupd c then (con_wait BREACTOR_READ c, js, None)
                     else (c, js, Some BCONNECTION_EVENT_ERROR)
      | IO_error \<Rightarrow> (c, js, Some BCONNECTION_EVENT_ERROR)
      | IO_bytes bytes \<Rightarrow>
          if bytes = 0 then
            (c\<lparr>con_recv := (con_recv c)\<lparr>cr_state := RECV_STATE_INITED_CLOSED\<rparr>\<rparr>, js,
             Some BCONNECTION_EVENT_RECVCLOSED)
          else
            (let c = c\<lparr>con_recv := (con_recv c)\<lparr>cr_state := RECV_STATE_READY\<rparr>\<rparr>;
                 (i, js) = StreamRecvInterface_Done bytes (cr_iface (con_recv c)) js
             in (c\<lparr>con_recv := (con_recv c)\<lparr>cr_iface := i\<rparr>\<rparr>, js, None)))"

definition connection_recv :: "io_sys \<Rightarrow> 'j BConnection \<Rightarrow> 'j jobs \<Rightarrow> 'j con_result" where
  "connection_recv sys c js =
     (if \<not> con_is_hupd c then
        (case BReactorLimit_Increment (cr_limit (con_recv c)) of
           None \<Rightarrow> (con_wait BREACTOR_READ c, js, None)
         | Some l \<Rightarrow> con_recv_read sys (c\<lparr>con_recv := (con_recv c)\<lparr>cr_limit := l\<rparr>\<rparr>) js)
      else con_recv_read sys c js)"

text \<open>
  The first part of \<open>connection_fd_handler\<close>: the reported events are no longer waited for, and a
  hangup ends the monitoring.
\<close>

definition fd_cleared :: "u32 \<Rightarrow> 'j BConnection \<Rightarrow> 'j BConnection" where
  "fd_cleared events c =
     (let c = c\<lparr>con_wait_events := con_wait_events c AND NOT events\<rparr>;
          c = c\<lparr>con_bfd := BReactor_SetFileDescriptorEvents (con_wait_events c) (con_bfd c)\<rparr>
      in if events AND BREACTOR_HUP \<noteq> 0
         then c\<lparr>con_bfd := BReactor_RemoveFileDescriptor (con_bfd c), con_is_hupd := True\<rparr> else c)"

definition connection_fd_handler :: "u32 \<Rightarrow> io_sys \<Rightarrow> 'j BConnection \<Rightarrow> 'j jobs \<Rightarrow> 'j con_result" where
  "connection_fd_handler events sys c js =
     (let c = fd_cleared events c;
          have_send = (events AND BREACTOR_WRITE \<noteq> 0 \<or>
            events AND (BREACTOR_ERROR OR BREACTOR_HUP) \<noteq> 0 \<and> cs_state (con_send c) = SEND_STATE_BUSY);
          have_recv = (events AND BREACTOR_READ \<noteq> 0 \<or>
            events AND (BREACTOR_ERROR OR BREACTOR_HUP) \<noteq> 0 \<and> cr_state (con_recv c) = RECV_STATE_BUSY)
      in if have_send then
           (let js = (if have_recv then BPending_Set (cr_job (con_recv c)) js else js)
            in connection_send sys c js)
         else if have_recv then connection_recv sys c js
         else if \<not> con_is_hupd c then (c, js, Some BCONNECTION_EVENT_ERROR)
         else (c, js, None))"

definition connection_send_job_handler :: "io_sys \<Rightarrow> 'j BConnection \<Rightarrow> 'j jobs \<Rightarrow> 'j con_result" where
  "connection_send_job_handler sys c js = connection_send sys c js"

definition connection_recv_job_handler :: "io_sys \<Rightarrow> 'j BConnection \<Rightarrow> 'j jobs \<Rightarrow> 'j con_result" where
  "connection_recv_job_handler sys c js = connection_recv sys c js"

definition connection_send_if_handler_send ::
  "int \<Rightarrow> int \<Rightarrow> io_sys \<Rightarrow> 'j BConnection \<Rightarrow> 'j jobs \<Rightarrow> 'j con_result" where
  "connection_send_if_handler_send data data_len sys c js =
     (let c = c\<lparr>con_send := (con_send c)\<lparr>cs_busy_data := data, cs_busy_data_len := data_len\<rparr>\<rparr>;
          c = c\<lparr>con_send := (con_send c)\<lparr>cs_state := SEND_STATE_BUSY\<rparr>\<rparr>
      in connection_send sys c js)"

definition connection_recv_if_handler_recv ::
  "int \<Rightarrow> int \<Rightarrow> io_sys \<Rightarrow> 'j BConnection \<Rightarrow> 'j jobs \<Rightarrow> 'j con_result" where
  "connection_recv_if_handler_recv data data_avail sys c js =
     (let c = c\<lparr>con_recv := (con_recv c)\<lparr>cr_busy_data := data, cr_busy_data_avail := data_avail\<rparr>\<rparr>;
          c = c\<lparr>con_recv := (con_recv c)\<lparr>cr_state := RECV_STATE_BUSY\<rparr>\<rparr>
      in connection_recv sys c js)"

definition BConnection_SendAsync_Init :: "'j BConnection \<Rightarrow> 'j jobs \<Rightarrow> 'j BConnection \<times> 'j jobs" where
  "BConnection_SendAsync_Init c js =
     (let (i, js) = StreamPassInterface_Init (cs_iface (con_send c)) js;
          c = c\<lparr>con_send := (con_send c)\<lparr>cs_iface := i\<rparr>\<rparr>;
          js = BPending_Init (cs_job (con_send c)) js
      in (c\<lparr>con_send := (con_send c)\<lparr>cs_state := SEND_STATE_READY\<rparr>\<rparr>, js))"

definition BConnection_SendAsync_Free :: "'j BConnection \<Rightarrow> 'j jobs \<Rightarrow> 'j BConnection \<times> 'j jobs" where
  "BConnection_SendAsync_Free c js =
     (let c = (if \<not> con_is_hupd c then
                 (let c = c\<lparr>con_wait_events := con_wait_events c AND NOT BREACTOR_WRITE\<rparr>
                  in c\<lparr>con_bfd := BReactor_SetFileDescriptorEvents (con_wait_events c) (con_bfd c)\<rparr>)
               else c);
          js = BPending_Free (cs_job (con_send c)) js;
          js = StreamPassInterface_Free (cs_iface (con_send c)) js
      in (c\<lparr>con_send := (con_send c)\<lparr>cs_state := SEND_STATE_NOT_INITED\<rparr>\<rparr>, js))"

definition BConnection_RecvAsync_Init :: "'j BConnection \<Rightarrow> 'j jobs \<Rightarrow> 'j BConnection \<times> 'j jobs" where
  "BConnection_RecvAsync_Init c js =
     (let (i, js) = StreamRecvInterface_Init (cr_iface (con_recv c)) js;
          c = c\<lparr>con_recv := (con_recv c)\<lparr>cr_iface := i\<rparr>\<rparr>;
          js = BPending_Init (cr_job (con_recv c)) js
      in (c\<lparr>con_recv := (con_recv c)\<lparr>cr_state := RECV_STATE_READY\<rparr>\<rparr>, js))"

definition BConnection_RecvAsync_Free :: "'j BConnection \<Rightarrow> 'j jobs \<Rightarrow> 'j BConnection \<times> 'j jobs" where
  "BConnection_RecvAsync_Free c js =
     (let c = (if \<not> con_is_hupd c then
                 (let c = c\<lparr>con_wait_events := con_wait_events c AND NOT BREACTOR_READ\<rparr>
                  in c\<lparr>con_bfd := BReactor_SetFileDescriptorEvents (con_wait_events c) (con_bfd c)\<rparr>)
               else c);
          js = BPending_Free (cr_job (con_recv c)) js;
          js = StreamRecvInterface_Free (cr_iface (con_recv c)) js
      in (c\<lparr>con_recv := (con_recv c)\<lparr>cr_state := RECV_STATE_NOT_INITED\<rparr>\<rparr>, js))"


section \<open>Socket addresses\<close>

datatype sys_addr =
  Sockaddr_in u16 u32
| Sockaddr_in6 u16 u32 "byte list" u32
| Sockaddr_un int string
| Sockaddr_other int

text \<open>\<open>sun_path\<close> is 2 bytes into \<open>struct sockaddr_un\<close>; the length counts the terminating zero.\<close>

definition build_unix_address :: "string \<Rightarrow> sys_addr option" where
  "build_unix_address socket_path =
     (if length socket_path > 200 then None
      else Some (Sockaddr_un (2 + int (length socket_path) + 1) socket_path))"

fun addr_socket_to_sys :: "sys_addr \<Rightarrow> BAddr \<Rightarrow> sys_addr" where
  "addr_socket_to_sys out (BADDR_IPV4 ip port) = Sockaddr_in port ip"
| "addr_socket_to_sys out (BADDR_IPV6 ip port) = Sockaddr_in6 port 0 ip 0"
| "addr_socket_to_sys out _ = out"

fun addr_sys_to_socket :: "sys_addr \<Rightarrow> BAddr" where
  "addr_sys_to_socket (Sockaddr_in port ip) = BAddr_InitIPv4 ip port"
| "addr_sys_to_socket (Sockaddr_in6 port _ ip _) = BAddr_InitIPv6 ip port"
| "addr_sys_to_socket _ = BAddr_InitNone"

definition BConnection_AddressSupported :: "BAddr \<Rightarrow> bool" where
  "BConnection_AddressSupported addr \<longleftrightarrow> BAddr_type addr = 1 \<or> BAddr_type addr = 2"

datatype BLisCon_from = BLISCON_FROM_ADDR BAddr | BLISCON_FROM_UNIX string

definition BLisCon_from_addr :: "BAddr \<Rightarrow> BLisCon_from" where
  "BLisCon_from_addr addr = BLISCON_FROM_ADDR addr"

definition BLisCon_from_unix :: "string \<Rightarrow> BLisCon_from" where
  "BLisCon_from_unix socket_path = BLISCON_FROM_UNIX socket_path"


section \<open>Opening and closing\<close>

text \<open>The results of the system calls on sockets.\<close>

datatype connect_result = Connect_done | Connect_in_progress | Connect_failed

record sock_sys =
  sk_socket :: "sys_addr \<Rightarrow> int"
  sk_fcntl :: "int \<Rightarrow> int"
  sk_connect :: "int \<Rightarrow> sys_addr \<Rightarrow> connect_result"
  sk_unlink :: "string \<Rightarrow> bool"
  sk_bind :: "int \<Rightarrow> sys_addr \<Rightarrow> bool"
  sk_listen :: "int \<Rightarrow> bool"
  sk_accept :: "int \<Rightarrow> int \<times> sys_addr"
  sk_epoll_add :: "int \<Rightarrow> bool"
  sk_so_error :: "int \<Rightarrow> int option"
  sk_strdup :: "string \<Rightarrow> bool"

text \<open>
  The descriptors the process obtained from the kernel and the calls of \<open>close\<close> it made, in their
  order, so that a descriptor that is closed twice or never is seen.
\<close>

datatype fd_event = Fd_open int | Fd_close int

type_synonym fds = "fd_event list"

definition open_fd :: "int \<Rightarrow> fds \<Rightarrow> fds" where
  "open_fd fd fds = fds @ [Fd_open fd]"

definition close_fd :: "int \<Rightarrow> fds \<Rightarrow> fds" where
  "close_fd fd fds = fds @ [Fd_close fd]"

definition badvpn_set_nonblocking :: "sock_sys \<Rightarrow> int \<Rightarrow> bool" where
  "badvpn_set_nonblocking sys fd \<longleftrightarrow> \<not> sk_fcntl sys fd < 0"

record 'j BConnector =
  cn_job :: 'j
  cn_fd :: int
  cn_connected :: bool
  cn_have_bfd :: bool
  cn_bfd :: BFileDescriptor

record 'j BListener =
  ln_unix_socket_path :: "string option"
  ln_fd :: int
  ln_bfd :: BFileDescriptor
  ln_default_job :: 'j

text \<open>The address a socket is opened for: \<open>None\<close> when it cannot be used.\<close>

definition liscon_sysaddr :: "BLisCon_from \<Rightarrow> sys_addr option" where
  "liscon_sysaddr from =
     (case from of
        BLISCON_FROM_UNIX socket_path \<Rightarrow> build_unix_address socket_path
      | BLISCON_FROM_ADDR addr \<Rightarrow>
          if \<not> BConnection_AddressSupported addr then None
          else Some (addr_socket_to_sys (Sockaddr_other 0) addr))"

definition BConnector_InitFrom ::
  "sock_sys \<Rightarrow> BLisCon_from \<Rightarrow> 'j BConnector \<Rightarrow> 'j jobs \<Rightarrow> fds \<Rightarrow> 'j BConnector option \<times> 'j jobs \<times> fds" where
  "BConnector_InitFrom sys from o1 js fds =
     (case liscon_sysaddr from of
        None \<Rightarrow> (None, js, fds)
      | Some sysaddr \<Rightarrow>
          let js = BPending_Init (cn_job o1) js;
              fd = sk_socket sys sysaddr;
              o1 = o1\<lparr>cn_fd := fd\<rparr>
          in if fd < 0 then (None, BPending_Free (cn_job o1) js, fds)
          else
            let fds = open_fd fd fds;
                fail2 = (None, BPending_Free (cn_job o1) js, close_fd fd fds)
            in if \<not> badvpn_set_nonblocking sys fd then fail2
            else let connect_res = sk_connect sys fd sysaddr
            in if connect_res = Connect_failed then fail2
            else
              let o1 = o1\<lparr>cn_connected := False, cn_have_bfd := False\<rparr>
              in if connect_res = Connect_in_progress then
                   (case BReactor_AddFileDescriptor (sk_epoll_add sys fd) (BFileDescriptor_Init fd (cn_bfd o1)) of
                      None \<Rightarrow> fail2
                    | Some bfd \<Rightarrow>
                        (Some (o1\<lparr>cn_bfd := BReactor_SetFileDescriptorEvents BREACTOR_WRITE bfd,
                           cn_have_bfd := True\<rparr>), js, fds))
                 else (Some (o1\<lparr>cn_connected := True\<rparr>), BPending_Set (cn_job o1) js, fds))"

definition BConnector_Free :: "'j BConnector \<Rightarrow> 'j jobs \<Rightarrow> fds \<Rightarrow> 'j BConnector \<times> 'j jobs \<times> fds" where
  "BConnector_Free o1 js fds =
     (let o1 = (if cn_have_bfd o1 then o1\<lparr>cn_bfd := BReactor_RemoveFileDescriptor (cn_bfd o1)\<rparr> else o1);
          fds = (if cn_fd o1 \<noteq> -1 then close_fd (cn_fd o1) fds else fds)
      in (o1, BPending_Free (cn_job o1) js, fds))"

text \<open>The handlers of the connector return the argument \<open>is_error\<close> of the user's handler.\<close>

definition connector_fd_handler :: "sock_sys \<Rightarrow> u32 \<Rightarrow> 'j BConnector \<Rightarrow> 'j BConnector \<times> bool" where
  "connector_fd_handler sys events o1 =
     (let o1 = o1\<lparr>cn_bfd := BReactor_RemoveFileDescriptor (cn_bfd o1)\<rparr>;
          o1 = o1\<lparr>cn_have_bfd := False\<rparr>;
          o1 = (case sk_so_error sys (cn_fd o1) of
                  None \<Rightarrow> o1
                | Some result \<Rightarrow> if result \<noteq> 0 then o1 else o1\<lparr>cn_connected := True\<rparr>)
      in (o1, \<not> cn_connected o1))"

definition connector_job_handler :: "'j BConnector \<Rightarrow> 'j BConnector \<times> bool" where
  "connector_job_handler o1 = (o1, False)"

text \<open>
  Opening a listener.  The paths in \<open>paths\<close> are the bound unix sockets; the listening socket of a
  unix listener is removed from it when opening fails after \<open>bind\<close>.
\<close>

definition BListener_InitFrom ::
  "sock_sys \<Rightarrow> BLisCon_from \<Rightarrow> 'j BListener \<Rightarrow> 'j jobs \<Rightarrow> fds \<Rightarrow> string set \<Rightarrow>
   'j BListener option \<times> 'j jobs \<times> fds \<times> string set" where
  "BListener_InitFrom sys from o1 js fds paths =
     (let o1 = o1\<lparr>ln_unix_socket_path := None\<rparr>;
          fail0 = (None, js, fds, paths);
          path = (case from of BLISCON_FROM_UNIX socket_path \<Rightarrow> Some socket_path | BLISCON_FROM_ADDR _ \<Rightarrow> None)
      in if path \<noteq> None \<and> \<not> sk_strdup sys (the path) then fail0
      else let o1 = o1\<lparr>ln_unix_socket_path := path\<rparr>
      in case liscon_sysaddr from of
           None \<Rightarrow> fail0
         | Some sysaddr \<Rightarrow>
             let fd = sk_socket sys sysaddr;
                 o1 = o1\<lparr>ln_fd := fd\<rparr>
             in if fd < 0 then fail0
             else
               let fds = open_fd fd fds;
                   fail2 = (\<lambda>paths. (None, js, close_fd fd fds, paths))
               in if \<not> badvpn_set_nonblocking sys fd then fail2 paths
               else if path \<noteq> None \<and> \<not> sk_unlink sys (the path) then fail2 paths
               else
                 let paths = (case path of None \<Rightarrow> paths | Some p \<Rightarrow> paths - {p})
                 in if \<not> sk_bind sys fd sysaddr then fail2 paths
                 else
                   let paths = (case path of None \<Rightarrow> paths | Some p \<Rightarrow> insert p paths);
                       fail3 = fail2 (case path of None \<Rightarrow> paths
                         | Some p \<Rightarrow> if sk_unlink sys p then paths - {p} else paths)
                   in if \<not> sk_listen sys fd then fail3
                   else
                     (case BReactor_AddFileDescriptor (sk_epoll_add sys fd) (BFileDescriptor_Init fd (ln_bfd o1)) of
                        None \<Rightarrow> fail3
                      | Some bfd \<Rightarrow>
                          (Some (o1\<lparr>ln_bfd := BReactor_SetFileDescriptorEvents BREACTOR_READ bfd\<rparr>),
                           BPending_Init (ln_default_job o1) js, fds, paths)))"

definition BListener_Free ::
  "sock_sys \<Rightarrow> 'j BListener \<Rightarrow> 'j jobs \<Rightarrow> fds \<Rightarrow> string set \<Rightarrow> 'j BListener \<times> 'j jobs \<times> fds \<times> string set" where
  "BListener_Free sys o1 js fds paths =
     (let js = BPending_Free (ln_default_job o1) js;
          o1 = o1\<lparr>ln_bfd := BReactor_RemoveFileDescriptor (ln_bfd o1)\<rparr>;
          fds = close_fd (ln_fd o1) fds;
          paths = (case ln_unix_socket_path o1 of None \<Rightarrow> paths
                   | Some p \<Rightarrow> if sk_unlink sys p then paths - {p} else paths)
      in (o1, js, fds, paths))"

text \<open>The listener's handler is called after its default job is set.\<close>

definition listener_fd_handler :: "u32 \<Rightarrow> 'j BListener \<Rightarrow> 'j jobs \<Rightarrow> 'j jobs" where
  "listener_fd_handler events o1 js = BPending_Set (ln_default_job o1) js"

definition listener_default_job_handler :: "sock_sys \<Rightarrow> 'j BListener \<Rightarrow> fds \<Rightarrow> fds" where
  "listener_default_job_handler sys o1 fds =
     (let newfd = fst (sk_accept sys (ln_fd o1))
      in if newfd < 0 then fds else close_fd newfd (open_fd newfd fds))"

definition BConnector_Init where
  "BConnector_Init sys addr = BConnector_InitFrom sys (BLisCon_from_addr addr)"

definition BConnector_InitUnix where
  "BConnector_InitUnix sys socket_path = BConnector_InitFrom sys (BLisCon_from_unix socket_path)"

definition BListener_Init where
  "BListener_Init sys addr = BListener_InitFrom sys (BLisCon_from_addr addr)"

definition BListener_InitUnix where
  "BListener_InitUnix sys socket_path = BListener_InitFrom sys (BLisCon_from_unix socket_path)"

datatype BConnection_addr = BCONNECTION_ADDR_TYPE_BADDR BAddr | BCONNECTION_ADDR_TYPE_UNIX string

definition BConnector_InitGeneric ::
  "sock_sys \<Rightarrow> BConnection_addr \<Rightarrow> 'j BConnector \<Rightarrow> 'j jobs \<Rightarrow> fds \<Rightarrow> 'j BConnector option \<times> 'j jobs \<times> fds" where
  "BConnector_InitGeneric sys addr o1 js fds =
     (case addr of
        BCONNECTION_ADDR_TYPE_BADDR baddr \<Rightarrow> BConnector_Init sys baddr o1 js fds
      | BCONNECTION_ADDR_TYPE_UNIX path \<Rightarrow>
          if \<not> sk_strdup sys path then (None, js, fds) else BConnector_InitUnix sys path o1 js fds)"

definition BListener_InitGeneric ::
  "sock_sys \<Rightarrow> BConnection_addr \<Rightarrow> 'j BListener \<Rightarrow> 'j jobs \<Rightarrow> fds \<Rightarrow> string set \<Rightarrow>
   'j BListener option \<times> 'j jobs \<times> fds \<times> string set" where
  "BListener_InitGeneric sys addr o1 js fds paths =
     (case addr of
        BCONNECTION_ADDR_TYPE_BADDR baddr \<Rightarrow> BListener_Init sys baddr o1 js fds paths
      | BCONNECTION_ADDR_TYPE_UNIX path \<Rightarrow>
          if \<not> sk_strdup sys path then (None, js, fds, paths) else BListener_InitUnix sys path o1 js fds paths)"

text \<open>
  A connection takes its descriptor from a listener, a connector or the caller.  The sources are
  returned updated; a listener also returns the address of the peer.
\<close>

datatype 'j BConnection_source =
  BCONNECTION_SOURCE_TYPE_LISTENER "'j BListener"
| BCONNECTION_SOURCE_TYPE_CONNECTOR "'j BConnector"
| BCONNECTION_SOURCE_TYPE_PIPE int bool

text \<open>The descriptor (\<open>None\<close> when there is none), whether to close it, and whether it is usable.\<close>

definition source_fd ::
  "sock_sys \<Rightarrow> 'j BConnection_source \<Rightarrow> 'j jobs \<Rightarrow> fds \<Rightarrow>
   (int \<times> bool \<times> bool) option \<times> 'j BConnection_source \<times> BAddr option \<times> 'j jobs \<times> fds" where
  "source_fd sys source js fds =
     (case source of
        BCONNECTION_SOURCE_TYPE_LISTENER listener \<Rightarrow>
          (let js = BPending_Unset (ln_default_job listener) js;
               (fd, sysaddr) = sk_accept sys (ln_fd listener)
           in if fd < 0 then (None, source, None, js, fds)
              else if \<not> badvpn_set_nonblocking sys fd
              then (Some (fd, True, False), source, None, js, open_fd fd fds)
              else (Some (fd, True, True), source, Some (addr_sys_to_socket sysaddr), js, open_fd fd fds))
      | BCONNECTION_SOURCE_TYPE_CONNECTOR connector \<Rightarrow>
          (Some (cn_fd connector, True, True), BCONNECTION_SOURCE_TYPE_CONNECTOR (connector\<lparr>cn_fd := -1\<rparr>),
           None, js, fds)
      | BCONNECTION_SOURCE_TYPE_PIPE pipefd close_it \<Rightarrow>
          (Some (pipefd, close_it, badvpn_set_nonblocking sys pipefd), source, None, js, fds))"

definition BConnection_Init ::
  "sock_sys \<Rightarrow> 'j BConnection_source \<Rightarrow> 'j BConnection \<Rightarrow> 'j jobs \<Rightarrow> fds \<Rightarrow>
   'j BConnection option \<times> 'j BConnection_source \<times> BAddr option \<times> 'j jobs \<times> fds" where
  "BConnection_Init sys source c js fds =
     (let (src, source, out_addr, js, fds) = source_fd sys source js fds
      in case src of
           None \<Rightarrow> (None, source, out_addr, js, fds)
         | Some (fd, close_it, ok) \<Rightarrow>
             let c = c\<lparr>con_fd := fd, con_close_fd := close_it\<rparr>;
                 fail1 = (None, source, out_addr, js, if close_it then close_fd fd fds else fds)
             in if \<not> ok then fail1
             else let c = c\<lparr>con_is_hupd := False\<rparr>
             in (case BReactor_AddFileDescriptor (sk_epoll_add sys fd) (BFileDescriptor_Init fd (con_bfd c)) of
                  None \<Rightarrow> fail1
                | Some bfd \<Rightarrow>
                    (Some (c\<lparr>con_bfd := bfd, con_wait_events := 0,
                       con_send := (con_send c)\<lparr>cs_limit := BReactorLimit_Init 2, cs_state := SEND_STATE_NOT_INITED\<rparr>,
                       con_recv := (con_recv c)\<lparr>cr_limit := BReactorLimit_Init 2, cr_state := RECV_STATE_NOT_INITED\<rparr>\<rparr>),
                     source, out_addr, js, fds)))"

definition BConnection_Free :: "'j BConnection \<Rightarrow> fds \<Rightarrow> 'j BConnection \<times> fds" where
  "BConnection_Free c fds =
     (let c = (if \<not> con_is_hupd c then c\<lparr>con_bfd := BReactor_RemoveFileDescriptor (con_bfd c)\<rparr> else c)
      in (c, if con_close_fd c then close_fd (con_fd c) fds else fds))"


section \<open>Runs\<close>

text \<open>
  What the kernel promises: a successful \<open>write\<close> of a nonempty buffer takes at least one byte and no
  more than it was given, and a \<open>read\<close> returns no more than fits.
\<close>

definition io_ok :: "io_sys \<Rightarrow> bool" where
  "io_ok sys \<longleftrightarrow>
     (\<forall>fd p n m. 0 < n \<longrightarrow> sys (Sys_write fd p n) = IO_bytes m \<longrightarrow> 0 < m \<and> m \<le> n) \<and>
     (\<forall>fd p n m. sys (Sys_read fd p n) = IO_bytes m \<longrightarrow> 0 \<le> m \<and> m \<le> n)"

text \<open>
  The kernel as the connection sees it: the results its \<open>read\<close> and \<open>write\<close> can have, and the events it
  can report when it is asked for some events.
\<close>

record con_kernel =
  kn_io :: "io_sys \<Rightarrow> bool"
  kn_reports :: "u32 \<Rightarrow> u32 \<Rightarrow> bool"

definition kernel_io :: "con_kernel \<Rightarrow> bool" where
  "kernel_io K \<longleftrightarrow> (\<forall>sys. kn_io K sys \<longrightarrow> io_ok sys)"

text \<open>
  An error without a hangup is reported together with all the events that are waited for, as the
  kernel does for TCP sockets, whose both directions become ready when the socket has an error.
\<close>

definition error_complete :: "con_kernel \<Rightarrow> bool" where
  "error_complete K \<longleftrightarrow>
     (\<forall>waited events. kn_reports K waited events \<longrightarrow>
        events AND BREACTOR_ERROR \<noteq> 0 \<longrightarrow> events AND BREACTOR_HUP = 0 \<longrightarrow> waited AND NOT events = 0)"

text \<open>The connection, the pending jobs, and whether an error has been reported.\<close>

type_synonym 'j con_world = "'j BConnection \<times> 'j jobs \<times> bool"

definition con_finish :: "'j con_result \<Rightarrow> 'j con_world" where
  "con_finish = (\<lambda>(c, js, ev). (c, js, ev = Some BCONNECTION_EVENT_ERROR))"

abbreviation con_spi :: "'j BConnection \<Rightarrow> ('j, int) spi" where "con_spi c \<equiv> cs_iface (con_send c)"
abbreviation con_sri :: "'j BConnection \<Rightarrow> ('j, int) sri" where "con_sri c \<equiv> cr_iface (con_recv c)"

abbreviation set_spi :: "('j, int) spi \<Rightarrow> 'j BConnection \<Rightarrow> 'j BConnection" where
  "set_spi i c \<equiv> c\<lparr>con_send := (con_send c)\<lparr>cs_iface := i\<rparr>\<rparr>"
abbreviation set_sri :: "('j, int) sri \<Rightarrow> 'j BConnection \<Rightarrow> 'j BConnection" where
  "set_sri i c \<equiv> c\<lparr>con_recv := (con_recv c)\<lparr>cr_iface := i\<rparr>\<rparr>"

text \<open>
  The steps of a connection whose both sides are initialised: its user starts an operation, a
  pending job is executed, the reactor, when no job is pending, reports events on the descriptor
  that it was asked for or an error or hangup, or it resets the limits.
\<close>

inductive con_step :: "con_kernel \<Rightarrow> 'j con_world \<Rightarrow> 'j con_world \<Rightarrow> bool" for K where
  con_user_send: "spi_state (con_spi c) = STATE_NONE \<Longrightarrow> 0 < n \<Longrightarrow>
    StreamPassInterface_Sender_Send p n (con_spi c) js = (i, js') \<Longrightarrow>
    con_step K (c, js, False) (set_spi i c, js', False)"
| con_user_recv: "sri_state (con_sri c) = STATE_NONE \<Longrightarrow> 0 < n \<Longrightarrow>
    StreamRecvInterface_Receiver_Recv p n (con_sri c) js = (i, js') \<Longrightarrow>
    con_step K (c, js, False) (set_sri i c, js', False)"
| con_send_op: "StreamPassInterface_job_operation (con_spi c) = (i, p, n) \<Longrightarrow> kn_io K sys \<Longrightarrow>
    con_step K (c, spi_job_operation (con_spi c) # js, False)
      (con_finish (connection_send_if_handler_send p n sys (set_spi i c) js))"
| con_recv_op: "StreamRecvInterface_job_operation (con_sri c) = (i, p, n) \<Longrightarrow> kn_io K sys \<Longrightarrow>
    con_step K (c, sri_job_operation (con_sri c) # js, False)
      (con_finish (connection_recv_if_handler_recv p n sys (set_sri i c) js))"
| con_send_done: "StreamPassInterface_job_done (con_spi c) = (i, n) \<Longrightarrow>
    con_step K (c, spi_job_done (con_spi c) # js, False) (set_spi i c, js, False)"
| con_recv_done: "StreamRecvInterface_job_done (con_sri c) = (i, n) \<Longrightarrow>
    con_step K (c, sri_job_done (con_sri c) # js, False) (set_sri i c, js, False)"
| con_send_job: "kn_io K sys \<Longrightarrow>
    con_step K (c, cs_job (con_send c) # js, False) (con_finish (connection_send_job_handler sys c js))"
| con_recv_job: "kn_io K sys \<Longrightarrow>
    con_step K (c, cr_job (con_recv c) # js, False) (con_finish (connection_recv_job_handler sys c js))"
| con_fd: "bfd_active (con_bfd c) \<Longrightarrow> events \<noteq> 0 \<Longrightarrow>
    events AND NOT (bfd_waitEvents (con_bfd c) OR BREACTOR_ERROR OR BREACTOR_HUP) = 0 \<Longrightarrow>
    kn_reports K (bfd_waitEvents (con_bfd c)) events \<Longrightarrow> kn_io K sys \<Longrightarrow>
    con_step K (c, [], False) (con_finish (connection_fd_handler events sys c []))"
| con_limits: "con_step K (c, js, False)
    (c\<lparr>con_send := (con_send c)\<lparr>cs_limit := (cs_limit (con_send c))\<lparr>lim_count := 0\<rparr>\<rparr>,
       con_recv := (con_recv c)\<lparr>cr_limit := (cr_limit (con_recv c))\<lparr>lim_count := 0\<rparr>\<rparr>\<rparr>, js, False)"


section \<open>Invariant\<close>

definition con_jobs :: "'j BConnection \<Rightarrow> 'j list" where
  "con_jobs c = [spi_job_operation (con_spi c), spi_job_done (con_spi c), sri_job_operation (con_sri c),
     sri_job_done (con_sri c), cs_job (con_send c), cr_job (con_recv c)]"

definition con_queue :: "'j BConnection \<Rightarrow> 'j jobs \<Rightarrow> bool" where
  "con_queue c js \<longleftrightarrow>
     distinct js \<and> distinct (con_jobs c) \<and>
     (spi_job_operation (con_spi c) \<in> set js \<longleftrightarrow> spi_state (con_spi c) = STATE_OPERATION_PENDING) \<and>
     (spi_job_done (con_spi c) \<in> set js \<longleftrightarrow> spi_state (con_spi c) = STATE_DONE_PENDING) \<and>
     (sri_job_operation (con_sri c) \<in> set js \<longleftrightarrow> sri_state (con_sri c) = STATE_OPERATION_PENDING) \<and>
     (sri_job_done (con_sri c) \<in> set js \<longleftrightarrow> sri_state (con_sri c) = STATE_DONE_PENDING) \<and>
     cs_job (con_send c) \<notin> set js"

text \<open>The send side: the operation of the interface is the one being written.\<close>

definition con_send_inv :: "'j BConnection \<Rightarrow> bool" where
  "con_send_inv c \<longleftrightarrow>
     cs_state (con_send c) \<noteq> SEND_STATE_NOT_INITED \<and>
     (cs_state (con_send c) = SEND_STATE_BUSY \<longleftrightarrow> spi_state (con_spi c) = STATE_BUSY) \<and>
     (spi_state (con_spi c) \<noteq> STATE_NONE \<longrightarrow> 0 < spi_job_operation_len (con_spi c)) \<and>
     (spi_state (con_spi c) = STATE_BUSY \<longrightarrow>
        cs_busy_data (con_send c) = spi_job_operation_data (con_spi c) \<and>
        cs_busy_data_len (con_send c) = spi_job_operation_len (con_spi c)) \<and>
     (spi_state (con_spi c) = STATE_DONE_PENDING \<longrightarrow>
        0 < spi_job_done_len (con_spi c) \<and> spi_job_done_len (con_spi c) \<le> spi_job_operation_len (con_spi c))"

definition con_recv_inv :: "'j BConnection \<Rightarrow> bool" where
  "con_recv_inv c \<longleftrightarrow>
     cr_state (con_recv c) \<noteq> RECV_STATE_NOT_INITED \<and> cr_state (con_recv c) \<noteq> RECV_STATE_NOT_INITED_CLOSED \<and>
     (cr_state (con_recv c) = RECV_STATE_READY \<longleftrightarrow> sri_state (con_sri c) \<noteq> STATE_BUSY) \<and>
     (sri_state (con_sri c) \<noteq> STATE_NONE \<longrightarrow> 0 < sri_job_operation_len (con_sri c)) \<and>
     (sri_state (con_sri c) = STATE_BUSY \<longrightarrow>
        cr_busy_data (con_recv c) = sri_job_operation_data (con_sri c) \<and>
        cr_busy_data_avail (con_recv c) = sri_job_operation_len (con_sri c)) \<and>
     (sri_state (con_sri c) = STATE_DONE_PENDING \<longrightarrow>
        0 < sri_job_done_len (con_sri c) \<and> sri_job_done_len (con_sri c) \<le> sri_job_operation_len (con_sri c))"

text \<open>
  The events: the descriptor is monitored for exactly what is waited for until a hangup; what is
  waited for is in progress; and what is in progress is waited for: the send side if \<open>sl\<close>, the
  receive side if \<open>rl\<close>.
\<close>

definition con_wait_inv :: "bool \<Rightarrow> bool \<Rightarrow> 'j BConnection \<Rightarrow> 'j jobs \<Rightarrow> bool" where
  "con_wait_inv sl rl c js \<longleftrightarrow>
     bfd_active (con_bfd c) = (\<not> con_is_hupd c) \<and>
     (\<not> con_is_hupd c \<longrightarrow> bfd_waitEvents (con_bfd c) = con_wait_events c) \<and>
     (\<forall>n. bit (con_wait_events c) n \<longrightarrow> n = 0 \<or> n = 1) \<and>
     (\<not> con_is_hupd c \<longrightarrow> bit (con_wait_events c) 1 \<longrightarrow> cs_state (con_send c) = SEND_STATE_BUSY) \<and>
     (\<not> con_is_hupd c \<longrightarrow> bit (con_wait_events c) 0 \<longrightarrow>
        cr_state (con_recv c) = RECV_STATE_BUSY \<and> cr_job (con_recv c) \<notin> set js) \<and>
     (cr_job (con_recv c) \<in> set js \<longrightarrow> cr_state (con_recv c) = RECV_STATE_BUSY) \<and>
     (sl \<longrightarrow> cs_state (con_send c) = SEND_STATE_BUSY \<longrightarrow> \<not> con_is_hupd c \<and> bit (con_wait_events c) 1) \<and>
     (rl \<longrightarrow> cr_state (con_recv c) = RECV_STATE_BUSY \<longrightarrow>
        cr_job (con_recv c) \<in> set js \<or> \<not> con_is_hupd c \<and> bit (con_wait_events c) 0)"

definition con_inv :: "'j con_world \<Rightarrow> bool" where
  "con_inv = (\<lambda>(c, js, err).
     con_queue c js \<and> con_send_inv c \<and> con_recv_inv c \<and> con_wait_inv (\<not> err) (\<not> err) c js)"

text \<open>Event masks as bits.\<close>

lemma and_event [simp]:
  "(w :: u32) AND BREACTOR_READ = 0 \<longleftrightarrow> \<not> bit w 0"
  "(w :: u32) AND BREACTOR_WRITE = 0 \<longleftrightarrow> \<not> bit w 1"
  "(w :: u32) AND BREACTOR_ERROR = 0 \<longleftrightarrow> \<not> bit w 2"
  "(w :: u32) AND BREACTOR_HUP = 0 \<longleftrightarrow> \<not> bit w 3"
  "(w :: u32) AND 12 = 0 \<longleftrightarrow> \<not> bit w 2 \<and> \<not> bit w 3"
proof -
  note m = and_exp_eq_0_iff_not_bit [of w]
  show "(w :: u32) AND BREACTOR_READ = 0 \<longleftrightarrow> \<not> bit w 0" using m [of 0] by simp
  show "(w :: u32) AND BREACTOR_WRITE = 0 \<longleftrightarrow> \<not> bit w 1" using m [of 1] by simp
  show "(w :: u32) AND BREACTOR_ERROR = 0 \<longleftrightarrow> \<not> bit w 2" using m [of 2] by simp
  show "(w :: u32) AND BREACTOR_HUP = 0 \<longleftrightarrow> \<not> bit w 3" using m [of 3] by simp
  have "w AND 12 = (w AND 2 ^ 2) OR (w AND 2 ^ 3)"
    unfolding bit.conj_disj_distrib [symmetric] by simp
  then show "(w :: u32) AND 12 = 0 \<longleftrightarrow> \<not> bit w 2 \<and> \<not> bit w 3"
    using m [of 2] m [of 3] by (simp only: or_eq_0_iff)
qed

lemma bit_or_event [simp]:
  "bit ((w :: u32) OR BREACTOR_WRITE) n \<longleftrightarrow> bit w n \<or> n = 1"
  "bit ((w :: u32) OR BREACTOR_READ) n \<longleftrightarrow> bit w n \<or> n = 0"
proof -
  have m: "bit (w OR 2 ^ k) n \<longleftrightarrow> bit w n \<or> n = k" if "k < 32" for k
    using that unfolding bit_or_iff by (auto simp: bit_exp_iff possible_bit_def)
  show "bit ((w :: u32) OR BREACTOR_WRITE) n \<longleftrightarrow> bit w n \<or> n = 1" using m [of 1] by simp
  show "bit ((w :: u32) OR BREACTOR_READ) n \<longleftrightarrow> bit w n \<or> n = 0" using m [of 0] by simp
qed

lemmas con_simps = con_queue_def con_jobs_def con_send_inv_def con_recv_inv_def con_wait_inv_def

lemma SetEvents_simps [simp]:
  "bfd_waitEvents (BReactor_SetFileDescriptorEvents ev b) = ev"
  "bfd_active (BReactor_SetFileDescriptorEvents ev b) = bfd_active b"
  by (simp_all add: BReactor_SetFileDescriptorEvents_def)

lemma con_wait_write_inv:
  assumes "con_queue c js" "con_send_inv c" "con_recv_inv c" "con_wait_inv False True c js"
    and "cs_state (con_send c) = SEND_STATE_BUSY" and "\<not> con_is_hupd c"
  shows "con_inv (con_wait BREACTOR_WRITE c, js, False)"
proof -
  have "con_queue (con_wait BREACTOR_WRITE c) js" using assms(1) by (simp add: con_queue_def con_jobs_def con_wait_def Let_def)
  moreover have "con_send_inv (con_wait BREACTOR_WRITE c)" using assms(2) by (simp add: con_send_inv_def con_wait_def Let_def)
  moreover have "con_recv_inv (con_wait BREACTOR_WRITE c)" using assms(3) by (simp add: con_recv_inv_def con_wait_def Let_def)
  moreover have "con_wait_inv True True (con_wait BREACTOR_WRITE c) js"
    using assms(4-6) by (auto simp: con_wait_inv_def con_wait_def Let_def)
  ultimately show ?thesis by (simp add: con_inv_def)
qed

lemma con_wait_read_inv:
  assumes "con_queue c js" "con_send_inv c" "con_recv_inv c" "con_wait_inv True False c js"
    and "cr_state (con_recv c) = RECV_STATE_BUSY" and "\<not> con_is_hupd c" and "cr_job (con_recv c) \<notin> set js"
  shows "con_inv (con_wait BREACTOR_READ c, js, False)"
proof -
  have "con_queue (con_wait BREACTOR_READ c) js" using assms(1) by (simp add: con_queue_def con_jobs_def con_wait_def Let_def)
  moreover have "con_send_inv (con_wait BREACTOR_READ c)" using assms(2) by (simp add: con_send_inv_def con_wait_def Let_def)
  moreover have "con_recv_inv (con_wait BREACTOR_READ c)" using assms(3) by (simp add: con_recv_inv_def con_wait_def Let_def)
  moreover have "con_wait_inv True True (con_wait BREACTOR_READ c) js"
    using assms(4-7) by (auto simp: con_wait_inv_def con_wait_def Let_def)
  ultimately show ?thesis by (simp add: con_inv_def)
qed

text \<open>The write and the read of an operation in progress.\<close>

lemma con_send_write_inv:
  assumes "con_queue c js" "con_send_inv c" "con_recv_inv c" "con_wait_inv False True c js"
    and "cs_state (con_send c) = SEND_STATE_BUSY" and "\<not> con_is_hupd c \<longrightarrow> \<not> bit (con_wait_events c) 1" and "io_ok sys"
  shows "con_inv (con_finish (con_send_write sys c js))"
proof (cases "sys (Sys_write (con_fd c) (cs_busy_data (con_send c)) (cs_busy_data_len (con_send c)))")
  case (IO_bytes n)
  then have n: "0 < n" "n \<le> spi_job_operation_len (con_spi c)"
    using assms(2,5,7) by (auto simp: con_send_inv_def io_ok_def)
  define c' where "c' = c\<lparr>con_send := (con_send c)\<lparr>cs_state := SEND_STATE_READY, cs_iface :=
    (con_spi c)\<lparr>spi_job_done_len := n, spi_state := STATE_DONE_PENDING\<rparr>\<rparr>\<rparr>"
  define js' where "js' = BPending_Set (spi_job_done (con_spi c)) js"
  have r: "con_send_write sys c js = (c', js', None)"
    by (simp add: con_send_write_def IO_bytes StreamPassInterface_Done_def c'_def js'_def Let_def)
  have st: "spi_state (con_spi c) = STATE_BUSY" using assms(2,5) by (simp add: con_send_inv_def)
  have "con_queue c' js'" using assms(1) st by (auto simp: con_queue_def con_jobs_def c'_def js'_def job_simps)
  moreover have "con_send_inv c'" using assms(2) st n by (simp add: con_send_inv_def c'_def)
  moreover have "con_recv_inv c'" using assms(3) by (simp add: con_recv_inv_def c'_def)
  moreover have "cr_job (con_recv c) \<noteq> spi_job_done (con_spi c)"
    using assms(1) by (auto simp: con_queue_def con_jobs_def)
  then have "con_wait_inv True True c' js'"
    using assms(4,6) by (auto simp: con_wait_inv_def c'_def js'_def job_simps)
  ultimately show ?thesis by (simp add: r con_finish_def con_inv_def)
next
  case IO_again
  then show ?thesis
    using assms con_wait_write_inv [OF assms(1-5)]
    by (simp add: con_send_write_def con_finish_def con_inv_def con_wait_inv_def)
next
  case IO_error
  then show ?thesis using assms by (simp add: con_send_write_def con_finish_def con_inv_def con_wait_inv_def)
qed

lemma con_recv_read_inv:
  assumes "con_queue c js" "con_send_inv c" "con_recv_inv c" "con_wait_inv True False c js"
    and "cr_state (con_recv c) = RECV_STATE_BUSY" and "\<not> con_is_hupd c \<longrightarrow> \<not> bit (con_wait_events c) 0" and "io_ok sys"
    and "cr_job (con_recv c) \<notin> set js"
  shows "con_inv (con_finish (con_recv_read sys c js))"
proof (cases "sys (Sys_read (con_fd c) (cr_busy_data (con_recv c)) (cr_busy_data_avail (con_recv c)))")
  case (IO_bytes n)
  have st: "sri_state (con_sri c) = STATE_BUSY" using assms(3,5) by (auto simp: con_recv_inv_def)
  have n: "0 \<le> n" "n \<le> sri_job_operation_len (con_sri c)"
    using assms(3,7) st IO_bytes by (auto simp: con_recv_inv_def io_ok_def)
  show ?thesis
  proof (cases "n = 0")
    case True
    then have "con_recv_read sys c js = (c\<lparr>con_recv := (con_recv c)\<lparr>cr_state := RECV_STATE_INITED_CLOSED\<rparr>\<rparr>, js,
        Some BCONNECTION_EVENT_RECVCLOSED)"
      by (simp add: con_recv_read_def IO_bytes)
    then show ?thesis using assms st
      by (simp add: con_finish_def con_inv_def con_queue_def con_jobs_def con_send_inv_def con_recv_inv_def con_wait_inv_def)
  next
    case False
    define c' where "c' = c\<lparr>con_recv := (con_recv c)\<lparr>cr_state := RECV_STATE_READY, cr_iface :=
      (con_sri c)\<lparr>sri_job_done_len := n, sri_state := STATE_DONE_PENDING\<rparr>\<rparr>\<rparr>"
    define js' where "js' = BPending_Set (sri_job_done (con_sri c)) js"
    have r: "con_recv_read sys c js = (c', js', None)"
      by (simp add: con_recv_read_def IO_bytes False StreamRecvInterface_Done_def c'_def js'_def Let_def)
    have "con_queue c' js'" using assms(1) st by (auto simp: con_queue_def con_jobs_def c'_def js'_def job_simps)
    moreover have "con_send_inv c'" using assms(2) by (simp add: con_send_inv_def c'_def)
    moreover have "con_recv_inv c'" using assms(3) st n False by (simp add: con_recv_inv_def c'_def)
    moreover have "cr_job (con_recv c) \<noteq> sri_job_done (con_sri c)"
      using assms(1) by (auto simp: con_queue_def con_jobs_def)
    then have "con_wait_inv True True c' js'"
      using assms(4,6,8) by (auto simp: con_wait_inv_def c'_def js'_def job_simps)
    ultimately show ?thesis by (simp add: r con_finish_def con_inv_def)
  qed
next
  case IO_again
  then show ?thesis
    using assms con_wait_read_inv [OF assms(1-5)]
    by (simp add: con_recv_read_def con_finish_def con_inv_def con_wait_inv_def)
next
  case IO_error
  then show ?thesis using assms by (simp add: con_recv_read_def con_finish_def con_inv_def con_wait_inv_def)
qed

lemma con_limit_cong:
  "con_queue (c\<lparr>con_send := (con_send c)\<lparr>cs_limit := l\<rparr>\<rparr>) js = con_queue c js"
  "con_send_inv (c\<lparr>con_send := (con_send c)\<lparr>cs_limit := l\<rparr>\<rparr>) = con_send_inv c"
  "con_recv_inv (c\<lparr>con_send := (con_send c)\<lparr>cs_limit := l\<rparr>\<rparr>) = con_recv_inv c"
  "con_wait_inv sl rl (c\<lparr>con_send := (con_send c)\<lparr>cs_limit := l\<rparr>\<rparr>) js = con_wait_inv sl rl c js"
  "con_queue (c\<lparr>con_recv := (con_recv c)\<lparr>cr_limit := l\<rparr>\<rparr>) js = con_queue c js"
  "con_send_inv (c\<lparr>con_recv := (con_recv c)\<lparr>cr_limit := l\<rparr>\<rparr>) = con_send_inv c"
  "con_recv_inv (c\<lparr>con_recv := (con_recv c)\<lparr>cr_limit := l\<rparr>\<rparr>) = con_recv_inv c"
  "con_wait_inv sl rl (c\<lparr>con_recv := (con_recv c)\<lparr>cr_limit := l\<rparr>\<rparr>) js = con_wait_inv sl rl c js"
  by (simp_all add: con_simps)

lemma connection_send_inv:
  assumes "con_queue c js" "con_send_inv c" "con_recv_inv c" "con_wait_inv False True c js"
    and "cs_state (con_send c) = SEND_STATE_BUSY" and "\<not> con_is_hupd c \<longrightarrow> \<not> bit (con_wait_events c) 1" and "io_ok sys"
  shows "con_inv (con_finish (connection_send sys c js))"
proof (cases "con_is_hupd c")
  case True
  then show ?thesis using con_send_write_inv [OF assms] by (simp add: connection_send_def)
next
  case False
  then show ?thesis
    using con_wait_write_inv [OF assms(1-5)] con_send_write_inv [of "c\<lparr>con_send := (con_send c)\<lparr>cs_limit := l\<rparr>\<rparr>" js sys for l]
      assms by (simp add: connection_send_def con_limit_cong con_finish_def split: option.split)
qed

lemma connection_recv_inv:
  assumes "con_queue c js" "con_send_inv c" "con_recv_inv c" "con_wait_inv True False c js"
    and "cr_state (con_recv c) = RECV_STATE_BUSY" and "\<not> con_is_hupd c \<longrightarrow> \<not> bit (con_wait_events c) 0" and "io_ok sys"
    and "cr_job (con_recv c) \<notin> set js"
  shows "con_inv (con_finish (connection_recv sys c js))"
proof (cases "con_is_hupd c")
  case True
  then show ?thesis using con_recv_read_inv [OF assms] by (simp add: connection_recv_def)
next
  case False
  then show ?thesis
    using con_wait_read_inv [OF assms(1-5)] con_recv_read_inv [of "c\<lparr>con_recv := (con_recv c)\<lparr>cr_limit := l\<rparr>\<rparr>" js sys for l]
      assms by (simp add: connection_recv_def con_limit_cong con_finish_def split: option.split)
qed

lemma con_user_send_inv:
  assumes "con_inv (c, js, False)" and "spi_state (con_spi c) = STATE_NONE" and "0 < n"
    and "StreamPassInterface_Sender_Send p n (con_spi c) js = (i, js')"
  shows "con_inv (set_spi i c, js', False)"
proof -
  have i: "i = (con_spi c)\<lparr>spi_job_operation_data := p, spi_job_operation_len := n, spi_state := STATE_OPERATION_PENDING\<rparr>"
    "js' = BPending_Set (spi_job_operation (con_spi c)) js"
    using assms(4) by (auto simp: StreamPassInterface_Sender_Send_def)
  have I: "con_queue c js" "con_send_inv c" "con_recv_inv c" "con_wait_inv True True c js"
    using assms(1) by (simp_all add: con_inv_def)
  have "con_queue (set_spi i c) js'" using I(1) assms(2) by (auto simp: con_queue_def con_jobs_def i job_simps)
  moreover have "con_send_inv (set_spi i c)" using I(2) assms(2,3) by (simp add: con_send_inv_def i)
  moreover have "con_recv_inv (set_spi i c)" using I(3) by (simp add: con_recv_inv_def)
  moreover have "cr_job (con_recv c) \<noteq> spi_job_operation (con_spi c)"
    using I(1) by (auto simp: con_queue_def con_jobs_def)
  then have "con_wait_inv True True (set_spi i c) js'" using I(4) by (simp add: con_wait_inv_def i job_simps)
  ultimately show ?thesis by (simp add: con_inv_def)
qed

lemma con_user_recv_inv:
  assumes "con_inv (c, js, False)" and "sri_state (con_sri c) = STATE_NONE" and "0 < n"
    and "StreamRecvInterface_Receiver_Recv p n (con_sri c) js = (i, js')"
  shows "con_inv (set_sri i c, js', False)"
proof -
  have i: "i = (con_sri c)\<lparr>sri_job_operation_data := p, sri_job_operation_len := n, sri_state := STATE_OPERATION_PENDING\<rparr>"
    "js' = BPending_Set (sri_job_operation (con_sri c)) js"
    using assms(4) by (auto simp: StreamRecvInterface_Receiver_Recv_def)
  have I: "con_queue c js" "con_send_inv c" "con_recv_inv c" "con_wait_inv True True c js"
    using assms(1) by (simp_all add: con_inv_def)
  have "con_queue (set_sri i c) js'" using I(1) assms(2) by (auto simp: con_queue_def con_jobs_def i job_simps)
  moreover have "con_send_inv (set_sri i c)" using I(2) by (simp add: con_send_inv_def)
  moreover have "con_recv_inv (set_sri i c)" using I(3) assms(2,3) by (simp add: con_recv_inv_def i)
  moreover have "cr_job (con_recv c) \<noteq> sri_job_operation (con_sri c)"
    using I(1) by (auto simp: con_queue_def con_jobs_def)
  then have "con_wait_inv True True (set_sri i c) js'" using I(4) by (simp add: con_wait_inv_def i job_simps)
  ultimately show ?thesis by (simp add: con_inv_def)
qed

lemma con_send_op_inv:
  assumes "con_inv (c, spi_job_operation (con_spi c) # js, False)" and "io_ok sys"
    and "StreamPassInterface_job_operation (con_spi c) = (i, p, n)"
  shows "con_inv (con_finish (connection_send_if_handler_send p n sys (set_spi i c) js))"
proof -
  have i: "i = (con_spi c)\<lparr>spi_state := STATE_BUSY\<rparr>" "p = spi_job_operation_data (con_spi c)"
      "n = spi_job_operation_len (con_spi c)"
    using assms(3) by (auto simp: StreamPassInterface_job_operation_def)
  define js0 where "js0 = spi_job_operation (con_spi c) # js"
  have I: "con_queue c js0" "con_send_inv c" "con_recv_inv c" "con_wait_inv True True c js0"
    using assms(1) by (simp_all add: con_inv_def js0_def)
  have st: "spi_state (con_spi c) = STATE_OPERATION_PENDING" using I(1) by (simp add: con_queue_def js0_def)
  then have rdy: "cs_state (con_send c) = SEND_STATE_READY"
    using I(2) by (cases "cs_state (con_send c)") (simp_all add: con_send_inv_def)
  define c' where "c' = c\<lparr>con_send := (con_send c)\<lparr>cs_iface := i, cs_busy_data := p, cs_busy_data_len := n,
    cs_state := SEND_STATE_BUSY\<rparr>\<rparr>"
  have r: "connection_send_if_handler_send p n sys (set_spi i c) js = connection_send sys c' js"
    by (simp add: connection_send_if_handler_send_def c'_def Let_def)
  have q: "con_queue c' js" using I(1) st by (auto simp: con_queue_def con_jobs_def i c'_def js0_def)
  have s: "con_send_inv c'" using I(2) st by (simp add: con_send_inv_def i c'_def)
  have rc: "con_recv_inv c'" using I(3) by (simp add: con_recv_inv_def c'_def)
  have ne: "cr_job (con_recv c) \<noteq> spi_job_operation (con_spi c)"
    using I(1) by (auto simp: con_queue_def con_jobs_def)
  have w: "con_wait_inv False True c' js" using I(4) rdy ne by (simp add: con_wait_inv_def c'_def js0_def)
  have "\<not> con_is_hupd c' \<longrightarrow> \<not> bit (con_wait_events c') 1" using I(4) rdy by (simp add: con_wait_inv_def c'_def)
  with connection_send_inv [OF q s rc w _ _ assms(2)] r show ?thesis by (simp add: c'_def)
qed

lemma con_recv_op_inv:
  assumes "con_inv (c, sri_job_operation (con_sri c) # js, False)" and "io_ok sys"
    and "StreamRecvInterface_job_operation (con_sri c) = (i, p, n)"
  shows "con_inv (con_finish (connection_recv_if_handler_recv p n sys (set_sri i c) js))"
proof -
  have i: "i = (con_sri c)\<lparr>sri_state := STATE_BUSY\<rparr>" "p = sri_job_operation_data (con_sri c)"
      "n = sri_job_operation_len (con_sri c)"
    using assms(3) by (auto simp: StreamRecvInterface_job_operation_def)
  define js0 where "js0 = sri_job_operation (con_sri c) # js"
  have I: "con_queue c js0" "con_send_inv c" "con_recv_inv c" "con_wait_inv True True c js0"
    using assms(1) by (simp_all add: con_inv_def js0_def)
  have st: "sri_state (con_sri c) = STATE_OPERATION_PENDING" using I(1) by (simp add: con_queue_def js0_def)
  then have rdy: "cr_state (con_recv c) = RECV_STATE_READY" using I(3) by (simp add: con_recv_inv_def)
  define c' where "c' = c\<lparr>con_recv := (con_recv c)\<lparr>cr_iface := i, cr_busy_data := p, cr_busy_data_avail := n,
    cr_state := RECV_STATE_BUSY\<rparr>\<rparr>"
  have r: "connection_recv_if_handler_recv p n sys (set_sri i c) js = connection_recv sys c' js"
    by (simp add: connection_recv_if_handler_recv_def c'_def Let_def)
  have q: "con_queue c' js" using I(1) st by (auto simp: con_queue_def con_jobs_def i c'_def js0_def)
  have s: "con_send_inv c'" using I(2) by (simp add: con_send_inv_def c'_def)
  have rc: "con_recv_inv c'" using I(3) st by (simp add: con_recv_inv_def i c'_def)
  have nj: "cr_job (con_recv c) \<notin> set js" using I(4) rdy by (auto simp: con_wait_inv_def js0_def)
  have w: "con_wait_inv True False c' js" using I(4) rdy nj by (simp add: con_wait_inv_def c'_def js0_def)
  have "\<not> con_is_hupd c' \<longrightarrow> \<not> bit (con_wait_events c') 0" using I(4) rdy by (simp add: con_wait_inv_def c'_def)
  with connection_recv_inv [OF q s rc w _ _ assms(2)] r nj show ?thesis by (simp add: c'_def)
qed

lemma con_send_done_inv:
  assumes "con_inv (c, spi_job_done (con_spi c) # js, False)"
  shows "con_inv (set_spi ((con_spi c)\<lparr>spi_state := STATE_NONE\<rparr>) c, js, False)"
proof -
  define js0 where "js0 = spi_job_done (con_spi c) # js"
  have I: "con_queue c js0" "con_send_inv c" "con_recv_inv c" "con_wait_inv True True c js0"
    using assms(1) by (simp_all add: con_inv_def js0_def)
  have st: "spi_state (con_spi c) = STATE_DONE_PENDING" using I(1) by (simp add: con_queue_def js0_def)
  define c' where "c' = set_spi ((con_spi c)\<lparr>spi_state := STATE_NONE\<rparr>) c"
  have "con_queue c' js" using I(1) st by (auto simp: con_queue_def con_jobs_def c'_def js0_def)
  moreover have "con_send_inv c'" using I(2) st by (simp add: con_send_inv_def c'_def)
  moreover have "con_recv_inv c'" using I(3) by (simp add: con_recv_inv_def c'_def)
  moreover have "cr_job (con_recv c) \<noteq> spi_job_done (con_spi c)" using I(1) by (auto simp: con_queue_def con_jobs_def)
  then have "con_wait_inv True True c' js" using I(4) by (simp add: con_wait_inv_def c'_def js0_def)
  ultimately show ?thesis by (simp add: con_inv_def c'_def)
qed

lemma con_recv_done_inv:
  assumes "con_inv (c, sri_job_done (con_sri c) # js, False)"
  shows "con_inv (set_sri ((con_sri c)\<lparr>sri_state := STATE_NONE\<rparr>) c, js, False)"
proof -
  define js0 where "js0 = sri_job_done (con_sri c) # js"
  have I: "con_queue c js0" "con_send_inv c" "con_recv_inv c" "con_wait_inv True True c js0"
    using assms(1) by (simp_all add: con_inv_def js0_def)
  have st: "sri_state (con_sri c) = STATE_DONE_PENDING" using I(1) by (simp add: con_queue_def js0_def)
  define c' where "c' = set_sri ((con_sri c)\<lparr>sri_state := STATE_NONE\<rparr>) c"
  have "con_queue c' js" using I(1) st by (auto simp: con_queue_def con_jobs_def c'_def js0_def)
  moreover have "con_send_inv c'" using I(2) by (simp add: con_send_inv_def c'_def)
  moreover have "con_recv_inv c'" using I(3) st by (simp add: con_recv_inv_def c'_def)
  moreover have "cr_job (con_recv c) \<noteq> sri_job_done (con_sri c)" using I(1) by (auto simp: con_queue_def con_jobs_def)
  then have "con_wait_inv True True c' js" using I(4) by (simp add: con_wait_inv_def c'_def js0_def)
  ultimately show ?thesis by (simp add: con_inv_def c'_def)
qed

lemma con_recv_job_inv:
  assumes "con_inv (c, cr_job (con_recv c) # js, False)" and "io_ok sys"
  shows "con_inv (con_finish (connection_recv_job_handler sys c js))"
proof -
  define js0 where "js0 = cr_job (con_recv c) # js"
  have I: "con_queue c js0" "con_send_inv c" "con_recv_inv c" "con_wait_inv True True c js0"
    using assms(1) by (simp_all add: con_inv_def js0_def)
  have "con_queue c js" using I(1) by (auto simp: con_queue_def con_jobs_def js0_def)
  moreover have nj: "cr_job (con_recv c) \<notin> set js" using I(1) by (simp add: con_queue_def js0_def)
  moreover have "con_wait_inv True False c js" using I(4) nj by (auto simp: con_wait_inv_def js0_def)
  moreover have "cr_state (con_recv c) = RECV_STATE_BUSY" "\<not> con_is_hupd c \<longrightarrow> \<not> bit (con_wait_events c) 0"
    using I(4) by (auto simp: con_wait_inv_def js0_def)
  ultimately show ?thesis
    using connection_recv_inv [of c js sys] I(2,3) assms(2) by (simp add: connection_recv_job_handler_def)
qed

lemma con_limits_inv:
  assumes "con_inv (c, js, False)"
  shows "con_inv (c\<lparr>con_send := (con_send c)\<lparr>cs_limit := l\<rparr>, con_recv := (con_recv c)\<lparr>cr_limit := l'\<rparr>\<rparr>, js, False)"
proof -
  define c1 where "c1 = c\<lparr>con_send := (con_send c)\<lparr>cs_limit := l\<rparr>\<rparr>"
  have "con_recv c1 = con_recv c" by (simp add: c1_def)
  with assms con_limit_cong(1-4) [where c = c and l = l] con_limit_cong(5-8) [where c = c1 and l = l']
  have "con_inv (c1\<lparr>con_recv := (con_recv c)\<lparr>cr_limit := l'\<rparr>\<rparr>, js, False)" by (simp add: con_inv_def c1_def)
  then show ?thesis by (simp add: c1_def)
qed

lemma bit_and_not_event: "bit ((w :: u32) AND NOT e) n \<longleftrightarrow> bit w n \<and> \<not> bit e n"
  using bit_imp_possible_bit [of w n] by (auto simp: bit_and_iff bit_not_iff)

lemma and_not_0_bits: "(w :: u32) AND NOT e = 0 \<Longrightarrow> bit w n \<Longrightarrow> bit e n"
  using bit_and_not_event [of w e n] by simp

lemma fd_events_bits:
  assumes "(events :: u32) AND NOT (w OR BREACTOR_ERROR OR BREACTOR_HUP) = 0" and "bit events n"
  shows "bit w n \<or> n = 2 \<or> n = 3"
proof -
  have "bit (w OR (2 ^ 2 OR 2 ^ 3)) n" using and_not_0_bits [OF assms] by simp
  then show ?thesis unfolding bit_or_iff bit_exp_iff by blast
qed

lemma fd_cleared_inv:
  assumes "con_inv (c, [], False)" and act: "bfd_active (con_bfd c)"
    and ev: "events AND NOT (bfd_waitEvents (con_bfd c) OR BREACTOR_ERROR OR BREACTOR_HUP) = 0"
    and ec: "error_complete K" "kn_reports K (bfd_waitEvents (con_bfd c)) events"
  defines "c' \<equiv> fd_cleared events c"
  defines "sd \<equiv> bit events 1 \<or> (bit events 2 \<or> bit events 3) \<and> cs_state (con_send c) = SEND_STATE_BUSY"
    and "rv \<equiv> bit events 0 \<or> (bit events 2 \<or> bit events 3) \<and> cr_state (con_recv c) = RECV_STATE_BUSY"
  shows "con_queue c' []" and "con_send_inv c'" and "con_recv_inv c'" and "con_wait_inv (\<not> sd) (\<not> rv) c' []"
    and "sd \<Longrightarrow> cs_state (con_send c') = SEND_STATE_BUSY \<and> (\<not> con_is_hupd c' \<longrightarrow> \<not> bit (con_wait_events c') 1)"
    and "rv \<Longrightarrow> cr_state (con_recv c') = RECV_STATE_BUSY \<and> (\<not> con_is_hupd c' \<longrightarrow> \<not> bit (con_wait_events c') 0)"
proof -
  have I: "con_queue c []" "con_send_inv c" "con_recv_inv c" "con_wait_inv True True c []"
    using assms(1) by (simp_all add: con_inv_def)
  have up: "\<not> con_is_hupd c" "bfd_waitEvents (con_bfd c) = con_wait_events c"
    using I(4) act by (simp_all add: con_wait_inv_def)
  have c': "con_send c' = con_send c" "con_recv c' = con_recv c" "con_is_hupd c' = bit events 3"
    "con_wait_events c' = con_wait_events c AND NOT events" "bfd_active (con_bfd c') = (\<not> bit events 3)"
    "\<not> bit events 3 \<Longrightarrow> bfd_waitEvents (con_bfd c') = con_wait_events c AND NOT events"
    using up act by (simp_all add: c'_def fd_cleared_def Let_def BReactor_RemoveFileDescriptor_def)
  show "con_queue c' []" "con_send_inv c'" "con_recv_inv c'"
    using I(1-3) by (simp_all add: con_queue_def con_jobs_def con_send_inv_def con_recv_inv_def c')
  have busy: "bit (con_wait_events c) 1 \<longleftrightarrow> cs_state (con_send c) = SEND_STATE_BUSY"
    "bit (con_wait_events c) 0 \<longleftrightarrow> cr_state (con_recv c) = RECV_STATE_BUSY"
    using I(4) up by (auto simp: con_wait_inv_def)
  have e: "bit events 1 \<Longrightarrow> bit (con_wait_events c) 1" "bit events 0 \<Longrightarrow> bit (con_wait_events c) 0"
    using fd_events_bits [OF ev, of 1] fd_events_bits [OF ev, of 0] up(2) by simp_all
  have err: "bit events n" if "bit events 2" "\<not> bit events 3" "bit (con_wait_events c) n" for n
    using and_not_0_bits [of "con_wait_events c" events n] ec that up by (auto simp: error_complete_def)
  have w: "\<forall>n. bit (con_wait_events c') n \<longrightarrow> n = 0 \<or> n = 1"
    using I(4) by (simp add: con_wait_inv_def c' bit_and_not_event)
  show "con_wait_inv (\<not> sd) (\<not> rv) c' []"
    unfolding con_wait_inv_def
  proof (intro conjI)
    show "\<not> sd \<longrightarrow> cs_state (con_send c') = SEND_STATE_BUSY \<longrightarrow> \<not> con_is_hupd c' \<and> bit (con_wait_events c') 1"
      using busy(1) by (auto simp: c' sd_def bit_and_not_event)
    show "\<not> rv \<longrightarrow> cr_state (con_recv c') = RECV_STATE_BUSY \<longrightarrow>
        cr_job (con_recv c') \<in> set [] \<or> \<not> con_is_hupd c' \<and> bit (con_wait_events c') 0"
      using busy(2) by (auto simp: c' rv_def bit_and_not_event)
  qed (use w busy in \<open>simp_all add: c' bit_and_not_event\<close>)
  show "cs_state (con_send c') = SEND_STATE_BUSY \<and> (\<not> con_is_hupd c' \<longrightarrow> \<not> bit (con_wait_events c') 1)" if sd
    using that busy e(1) err [of 1] by (auto simp: sd_def c' bit_and_not_event)
  show "cr_state (con_recv c') = RECV_STATE_BUSY \<and> (\<not> con_is_hupd c' \<longrightarrow> \<not> bit (con_wait_events c') 0)" if rv
    using that busy e(2) err [of 0] by (auto simp: rv_def c' bit_and_not_event)
qed

lemma con_wait_inv_weaken: "con_wait_inv sl rl c js \<Longrightarrow> con_wait_inv False False c js"
  unfolding con_wait_inv_def by blast

lemma con_wait_inv_job:
  assumes "con_wait_inv sl False c js" and "cr_state (con_recv c) = RECV_STATE_BUSY"
    and "\<not> con_is_hupd c \<longrightarrow> \<not> bit (con_wait_events c) 0"
  shows "con_wait_inv sl True c (BPending_Set (cr_job (con_recv c)) js)"
  using assms unfolding con_wait_inv_def BPending_Set_set by blast

lemma con_fd_inv:
  assumes "con_inv (c, [], False)" and "bfd_active (con_bfd c)" and "io_ok sys"
    and "events AND NOT (bfd_waitEvents (con_bfd c) OR BREACTOR_ERROR OR BREACTOR_HUP) = 0"
    and "error_complete K" and "kn_reports K (bfd_waitEvents (con_bfd c)) events"
  shows "con_inv (con_finish (connection_fd_handler events sys c []))"
proof -
  define c' where "c' = fd_cleared events c"
  define sd where "sd \<longleftrightarrow> bit events 1 \<or> (bit events 2 \<or> bit events 3) \<and> cs_state (con_send c) = SEND_STATE_BUSY"
  define rv where "rv \<longleftrightarrow> bit events 0 \<or> (bit events 2 \<or> bit events 3) \<and> cr_state (con_recv c) = RECV_STATE_BUSY"
  note F = fd_cleared_inv [OF assms(1,2,4,5,6), folded c'_def, folded sd_def rv_def]
  have c': "con_send c' = con_send c" "con_recv c' = con_recv c"
    by (simp_all add: c'_def fd_cleared_def Let_def)
  have sr: "(events AND BREACTOR_WRITE \<noteq> 0 \<or> events AND (BREACTOR_ERROR OR BREACTOR_HUP) \<noteq> 0 \<and>
      cs_state (con_send c) = SEND_STATE_BUSY) = sd"
    "(events AND BREACTOR_READ \<noteq> 0 \<or> events AND (BREACTOR_ERROR OR BREACTOR_HUP) \<noteq> 0 \<and>
      cr_state (con_recv c) = RECV_STATE_BUSY) = rv"
    by (auto simp: sd_def rv_def)
  have h: "connection_fd_handler events sys c [] =
    (if sd then connection_send sys c' (if rv then BPending_Set (cr_job (con_recv c')) [] else [])
     else if rv then connection_recv sys c' []
     else if \<not> con_is_hupd c' then (c', [], Some BCONNECTION_EVENT_ERROR) else (c', [], None))"
    unfolding connection_fd_handler_def Let_def c'_def [symmetric] c' sr by (rule refl)
  show ?thesis
  proof (cases sd)
    case True
    define js where "js = (if rv then BPending_Set (cr_job (con_recv c')) [] else [])"
    have "con_queue c' js" using F(1) by (auto simp: con_queue_def con_jobs_def js_def job_simps)
    moreover have "con_wait_inv False True c' js"
      using F(4) F(6) con_wait_inv_job [of False c' "[]"] by (cases rv) (simp_all add: js_def True)
    ultimately have "con_inv (con_finish (connection_send sys c' js))"
      using connection_send_inv [of c' js sys] F(2,3) F(5) [OF True] assms(3) by simp
    then show ?thesis by (simp add: h True js_def)
  next
    case False
    then show ?thesis
      using F connection_recv_inv [of c' "[]" sys] assms(3) con_wait_inv_weaken [of True True c' "[]"]
      by (cases rv) (simp_all add: h con_finish_def con_inv_def)
  qed
qed

lemma con_step_inv: "con_step K w w' \<Longrightarrow> kernel_io K \<Longrightarrow> error_complete K \<Longrightarrow> con_inv w \<Longrightarrow> con_inv w'"
proof (induction rule: con_step.induct)
  case (con_send_done c i n js)
  then show ?case using con_send_done_inv [of c js] by (simp add: StreamPassInterface_job_done_def)
next
  case (con_recv_done c i n js)
  then show ?case using con_recv_done_inv [of c js] by (simp add: StreamRecvInterface_job_done_def)
next
  case (con_send_job sys c js)
  then show ?case by (simp add: con_inv_def con_queue_def)
qed (simp_all only: kernel_io_def con_user_send_inv con_user_recv_inv con_send_op_inv con_recv_op_inv con_recv_job_inv
       con_fd_inv con_limits_inv)


section \<open>Properties\<close>

text \<open>A connection made by the three initialisations, with jobs of its own.\<close>

definition con_start :: "sock_sys \<Rightarrow> 'j BConnection_source \<Rightarrow> 'j BConnection \<Rightarrow> 'j jobs \<Rightarrow> fds \<Rightarrow> 'j BConnection \<times> 'j jobs \<Rightarrow> bool" where
  "con_start sys source c js fds w \<longleftrightarrow>
     (case BConnection_Init sys source c js fds of
        (Some c, _, _, js, _) \<Rightarrow>
          (let (c, js) = BConnection_SendAsync_Init c js in BConnection_RecvAsync_Init c js = w)
      | _ \<Rightarrow> False)"

definition con_fresh :: "'j BConnection \<Rightarrow> 'j jobs \<Rightarrow> bool" where
  "con_fresh c js \<longleftrightarrow> distinct js \<and> distinct (con_jobs c) \<and> set (con_jobs c) \<inter> set js = {}"

lemma con_fresh_Unset: "con_fresh c js \<Longrightarrow> con_fresh c (BPending_Unset p js)"
  by (auto simp: con_fresh_def job_simps)

lemma source_fd_jobs:
  "source_fd sys source js fds = (r, source', a, js', fds') \<Longrightarrow> con_fresh c js \<Longrightarrow> con_fresh c js'"
  by (auto simp: source_fd_def con_fresh_Unset Let_def split: BConnection_source.splits prod.splits if_splits)

lemma con_start_inv:
  assumes "con_start sys source c js fds (c0, js0)" and "con_fresh c js"
  shows "con_inv (c0, js0, False)"
proof -
  obtain r source' a js' fds' where src: "source_fd sys source js fds = (r, source', a, js', fds')"
    using prod_cases5 by blast
  have fr: "con_fresh c js'" using source_fd_jobs [OF src assms(2)] .
  obtain c1 where init: "BConnection_Init sys source c js fds = (Some c1, source', a, js', fds')"
      and c1: "con_is_hupd c1 = False" "bfd_active (con_bfd c1)" "bfd_waitEvents (con_bfd c1) = 0" "con_wait_events c1 = 0"
        "con_spi c1 = con_spi c" "con_sri c1 = con_sri c" "cr_job (con_recv c1) = cr_job (con_recv c)"
        "cs_job (con_send c1) = cs_job (con_send c)"
    using assms(1)
    by (auto simp: con_start_def BConnection_Init_def src Let_def BReactor_AddFileDescriptor_def
        split: option.splits prod.splits if_splits)
  have st: "c0 = c1\<lparr>con_send := (con_send c1)\<lparr>cs_iface := (con_spi c)\<lparr>spi_handler_done := False, spi_state := STATE_NONE\<rparr>,
        cs_state := SEND_STATE_READY\<rparr>,
      con_recv := (con_recv c1)\<lparr>cr_iface := (con_sri c)\<lparr>sri_handler_done := False, sri_state := STATE_NONE\<rparr>,
        cr_state := RECV_STATE_READY\<rparr>\<rparr>" "js0 = js'"
    using assms(1) c1 by (auto simp: con_start_def init BConnection_SendAsync_Init_def BConnection_RecvAsync_Init_def
        iface_defs BPending_Init_def Let_def)
  have "con_queue c0 js0" using fr by (auto simp: con_queue_def con_jobs_def con_fresh_def st c1)
  moreover have "con_send_inv c0" "con_recv_inv c0" by (simp_all add: con_send_inv_def con_recv_inv_def st)
  moreover have "cr_job (con_recv c) \<notin> set js'" using fr by (auto simp: con_fresh_def con_jobs_def)
  then have "con_wait_inv True True c0 js0" by (simp add: con_wait_inv_def st c1)
  ultimately show ?thesis by (simp add: con_inv_def)
qed

lemma con_run_inv:
  "(con_step K)\<^sup>*\<^sup>* w w' \<Longrightarrow> kernel_io K \<Longrightarrow> error_complete K \<Longrightarrow> con_inv w \<Longrightarrow> con_inv w'"
  by (induction rule: rtranclp_induct) (auto intro: con_step_inv)

lemma con_write_event:
  assumes "con_inv (c, [], False)" and "spi_state (con_spi c) = STATE_BUSY"
    and "lim_count (cs_limit (con_send c)) < lim_limit (cs_limit (con_send c))"
    and "sys (Sys_write (con_fd c) (spi_job_operation_data (con_spi c)) (spi_job_operation_len (con_spi c))) = IO_bytes n"
  shows "\<exists>c'. connection_fd_handler BREACTOR_WRITE sys c [] = (c', [spi_job_done (con_spi c)], None) \<and>
    spi_job_done_len (con_spi c') = n"
proof -
  have b: "cs_busy_data (con_send c) = spi_job_operation_data (con_spi c)"
      "cs_busy_data_len (con_send c) = spi_job_operation_len (con_spi c)"
    using assms(1,2) by (simp_all add: con_inv_def con_send_inv_def)
  have "cs_state (con_send c) = SEND_STATE_BUSY" "\<not> con_is_hupd c"
    using assms(1,2) by (simp_all add: con_inv_def con_send_inv_def con_wait_inv_def)
  then show ?thesis using assms(3,4)
    by (simp add: connection_fd_handler_def fd_cleared_def connection_send_def BReactorLimit_Increment_def
        con_send_write_def b StreamPassInterface_Done_def BPending_Set_def Let_def)
qed

lemma con_read_event:
  assumes "con_inv (c, [], False)" and "sri_state (con_sri c) = STATE_BUSY" and "cr_state (con_recv c) \<noteq> RECV_STATE_INITED_CLOSED"
    and "lim_count (cr_limit (con_recv c)) < lim_limit (cr_limit (con_recv c))"
    and "sys (Sys_read (con_fd c) (sri_job_operation_data (con_sri c)) (sri_job_operation_len (con_sri c))) = IO_bytes n"
  shows "\<exists>c'. (n \<noteq> 0 \<longrightarrow> connection_fd_handler BREACTOR_READ sys c [] = (c', [sri_job_done (con_sri c)], None) \<and>
        sri_job_done_len (con_sri c') = n) \<and>
      (n = 0 \<longrightarrow> connection_fd_handler BREACTOR_READ sys c [] = (c', [], Some BCONNECTION_EVENT_RECVCLOSED) \<and>
        cr_state (con_recv c') = RECV_STATE_INITED_CLOSED)"
proof -
  have I: "con_recv_inv c" "con_wait_inv True True c []" using assms(1) by (simp_all add: con_inv_def)
  have b: "cr_busy_data (con_recv c) = sri_job_operation_data (con_sri c)"
      "cr_busy_data_avail (con_recv c) = sri_job_operation_len (con_sri c)"
    using I(1) assms(2) by (simp_all add: con_recv_inv_def)
  have "cr_state (con_recv c) = RECV_STATE_BUSY"
    using I(1) assms(2,3) by (cases "cr_state (con_recv c)") (simp_all add: con_recv_inv_def)
  moreover from this have "\<not> con_is_hupd c" using I(2) by (simp add: con_wait_inv_def)
  ultimately show ?thesis using assms(4,5)
    by (cases "n = 0") (simp_all add: connection_fd_handler_def fd_cleared_def connection_recv_def BReactorLimit_Increment_def
        con_recv_read_def b StreamRecvInterface_Done_def BPending_Set_def Let_def)
qed

lemma con_inv_waiting:
  assumes "con_inv (c, [], False)"
  shows "spi_state (con_spi c) = STATE_BUSY \<Longrightarrow> bfd_active (con_bfd c) \<and> bfd_waitEvents (con_bfd c) AND BREACTOR_WRITE \<noteq> 0"
    and "sri_state (con_sri c) = STATE_BUSY \<Longrightarrow> cr_state (con_recv c) \<noteq> RECV_STATE_INITED_CLOSED \<Longrightarrow>
      bfd_active (con_bfd c) \<and> bfd_waitEvents (con_bfd c) AND BREACTOR_READ \<noteq> 0"
proof -
  have I: "con_queue c []" "con_send_inv c" "con_recv_inv c" "con_wait_inv True True c []"
    using assms by (simp_all add: con_inv_def)
  show "bfd_active (con_bfd c) \<and> bfd_waitEvents (con_bfd c) AND BREACTOR_WRITE \<noteq> 0" if "spi_state (con_spi c) = STATE_BUSY"
    using I(2,4) that by (simp add: con_send_inv_def con_wait_inv_def)
  show "bfd_active (con_bfd c) \<and> bfd_waitEvents (con_bfd c) AND BREACTOR_READ \<noteq> 0"
    if "sri_state (con_sri c) = STATE_BUSY" "cr_state (con_recv c) \<noteq> RECV_STATE_INITED_CLOSED"
    using I(3,4) that by (cases "cr_state (con_recv c)") (simp_all add: con_recv_inv_def con_wait_inv_def)
qed

text \<open>C4. A connection loses no wakeup.  Assume that the kernel reads and writes no more than it is asked for
  and reports an error without a hangup together with the events waited for.  In every state a
  connection can then reach without having reported an error, when no job is left to run: a send in
  progress has its descriptor monitored for writing, and when the descriptor is reported writable and
  the kernel takes bytes, the sender's completion with that count is the next job; a receive in
  progress, unless the peer has closed, has its descriptor monitored for reading, and when the
  descriptor is reported readable and the kernel returns bytes, the receiver's completion with that
  count is the next job, and only when it returns no bytes the connection is reported closed.\<close>

theorem connection_no_lost_wakeup:
  assumes "kernel_io K" and "error_complete K"
    and "con_start sys source c js fds (c0, js0)" and "con_fresh c js"
    and "(con_step K)\<^sup>*\<^sup>* (c0, js0, False) (c', [], False)"
  shows "(spi_state (con_spi c') = STATE_BUSY \<longrightarrow>
      bfd_active (con_bfd c') \<and> bfd_waitEvents (con_bfd c') AND BREACTOR_WRITE \<noteq> 0 \<and>
      (\<forall>io n. lim_count (cs_limit (con_send c')) < lim_limit (cs_limit (con_send c')) \<longrightarrow>
         io (Sys_write (con_fd c') (spi_job_operation_data (con_spi c')) (spi_job_operation_len (con_spi c'))) = IO_bytes n \<longrightarrow>
         (\<exists>c''. connection_fd_handler BREACTOR_WRITE io c' [] = (c'', [spi_job_done (con_spi c')], None) \<and>
           spi_job_done_len (con_spi c'') = n))) \<and>
    (sri_state (con_sri c') = STATE_BUSY \<longrightarrow> cr_state (con_recv c') \<noteq> RECV_STATE_INITED_CLOSED \<longrightarrow>
      bfd_active (con_bfd c') \<and> bfd_waitEvents (con_bfd c') AND BREACTOR_READ \<noteq> 0 \<and>
      (\<forall>io n. lim_count (cr_limit (con_recv c')) < lim_limit (cr_limit (con_recv c')) \<longrightarrow>
         io (Sys_read (con_fd c') (sri_job_operation_data (con_sri c')) (sri_job_operation_len (con_sri c'))) = IO_bytes n \<longrightarrow>
         (\<exists>c''. (n \<noteq> 0 \<longrightarrow> connection_fd_handler BREACTOR_READ io c' [] = (c'', [sri_job_done (con_sri c')], None) \<and>
               sri_job_done_len (con_sri c'') = n) \<and>
            (n = 0 \<longrightarrow> connection_fd_handler BREACTOR_READ io c' [] = (c'', [], Some BCONNECTION_EVENT_RECVCLOSED) \<and>
               cr_state (con_recv c'') = RECV_STATE_INITED_CLOSED))))"
proof -
  have inv: "con_inv (c', [], False)" using con_run_inv [OF assms(5,1,2) con_start_inv [OF assms(3,4)]] .
  note w = con_inv_waiting [OF inv] con_write_event [OF inv] con_read_event [OF inv]
  show ?thesis
  proof (intro conjI impI allI)
  qed (use w in simp_all)
qed


text \<open>
  What making a connection from a source does to descriptors: those it opens, and the calls of
  \<open>close\<close> that it owes for them.
\<close>

fun source_opens :: "sock_sys \<Rightarrow> 'j BConnection_source \<Rightarrow> fd_event list" where
  "source_opens sys (BCONNECTION_SOURCE_TYPE_LISTENER l) =
     (if fst (sk_accept sys (ln_fd l)) < 0 then [] else [Fd_open (fst (sk_accept sys (ln_fd l)))])"
| "source_opens sys (BCONNECTION_SOURCE_TYPE_CONNECTOR _) = []"
| "source_opens sys (BCONNECTION_SOURCE_TYPE_PIPE _ _) = []"

fun source_closes :: "sock_sys \<Rightarrow> 'j BConnection_source \<Rightarrow> fd_event list" where
  "source_closes sys (BCONNECTION_SOURCE_TYPE_LISTENER l) =
     (if fst (sk_accept sys (ln_fd l)) < 0 then [] else [Fd_close (fst (sk_accept sys (ln_fd l)))])"
| "source_closes sys (BCONNECTION_SOURCE_TYPE_CONNECTOR cn) = [Fd_close (cn_fd cn)]"
| "source_closes sys (BCONNECTION_SOURCE_TYPE_PIPE fd close_it) = (if close_it then [Fd_close fd] else [])"

lemma connector_init_cases:
  assumes "BConnector_InitFrom sys from o1 js fds = (r, js', fds')" and "cn_job o1 \<notin> set js"
  shows "r = None \<Longrightarrow> js' = js \<and> (fds' = fds \<or> (\<exists>fd. fds' = fds @ [Fd_open fd, Fd_close fd]))"
    and "r = Some o2 \<Longrightarrow> 0 \<le> cn_fd o2 \<and> fds' = fds @ [Fd_open (cn_fd o2)] \<and>
      cn_have_bfd o2 = (\<not> cn_connected o2) \<and> (cn_job o2 \<in> set js' \<longleftrightarrow> cn_connected o2)"
  using assms
  by (auto simp: BConnector_InitFrom_def Let_def open_fd_def close_fd_def BPending_Init_def BPending_Free_def
      remove1_idem BReactor_AddFileDescriptor_def BPending_Set_set split: option.splits if_splits)

lemma BConnection_Free_fds: "snd (BConnection_Free c fds) = (if con_close_fd c then fds @ [Fd_close (con_fd c)] else fds)"
  by (simp add: BConnection_Free_def Let_def close_fd_def)

lemma connection_init_fds:
  assumes "BConnection_Init sys source c js fds = (r, source', a, js', fds')"
  shows "r = None \<Longrightarrow> fds' = fds @ source_opens sys source @ source_closes sys source"
    and "r = Some c' \<Longrightarrow> fds' = fds @ source_opens sys source"
    and "r = Some c' \<Longrightarrow> snd (BConnection_Free c' fds2) = fds2 @ source_closes sys source"
  using assms
  by (cases source; auto simp: BConnection_Init_def source_fd_def Let_def open_fd_def close_fd_def BConnection_Free_fds
      split: option.splits if_splits prod.splits)+

lemma connection_from_connector:
  assumes "BConnection_Init sys (BCONNECTION_SOURCE_TYPE_CONNECTOR o2) c js fds = (r, source, a, js', fds')"
  shows "source = BCONNECTION_SOURCE_TYPE_CONNECTOR (o2\<lparr>cn_fd := -1\<rparr>)"
    and "r = Some c' \<Longrightarrow> con_fd c' = cn_fd o2 \<and> con_close_fd c'"
  using assms by (auto simp: BConnection_Init_def source_fd_def Let_def split: option.splits if_splits)

lemma connector_free_fds:
  "snd (snd (BConnector_Free o1 js fds)) = (if cn_fd o1 = -1 then fds else fds @ [Fd_close (cn_fd o1)])"
  by (simp add: BConnector_Free_def Let_def close_fd_def)

text \<open>C19. Every descriptor is closed once, by its owner.  A connector that cannot be opened leaves the
  pending jobs as they were and has closed the one descriptor it opened, if any; one that was opened owns
  one new descriptor and closes it when it is freed.  Making a connection from a connector, a listener
  or a descriptor of the caller opens nothing but the descriptor accepted from a listener; when it
  fails, on any path, it has closed the descriptor once, and when it succeeds, freeing the connection
  closes the descriptor once: always for a listener or connector, and for the caller's descriptor
  exactly when the caller asked for it.  A connector from which a connection was made, successfully or
  not, closes nothing any more when it is freed.\<close>

theorem connector_fd_ownership:
  assumes "BConnector_InitFrom sys from o1 js fds = (r, js', fds')" and "cn_job o1 \<notin> set js"
    and "BConnection_Init sys source c js1 fds1 = (rc, source', a, js2, fds2)"
  shows "(r = None \<longrightarrow> js' = js \<and> (fds' = fds \<or> (\<exists>fd. fds' = fds @ [Fd_open fd, Fd_close fd]))) \<and>
    (\<forall>o2. r = Some o2 \<longrightarrow> fds' = fds @ [Fd_open (cn_fd o2)] \<and>
       (\<forall>js fds. snd (snd (BConnector_Free o2 js fds)) = fds @ [Fd_close (cn_fd o2)])) \<and>
    (rc = None \<longrightarrow> fds2 = fds1 @ source_opens sys source @ source_closes sys source) \<and>
    (\<forall>c'. rc = Some c' \<longrightarrow> fds2 = fds1 @ source_opens sys source \<and>
       (\<forall>fds. snd (BConnection_Free c' fds) = fds @ source_closes sys source)) \<and>
    (\<forall>o2. source = BCONNECTION_SOURCE_TYPE_CONNECTOR o2 \<longrightarrow>
       (\<exists>o3. source' = BCONNECTION_SOURCE_TYPE_CONNECTOR o3 \<and>
          (\<forall>js fds. snd (snd (BConnector_Free o3 js fds)) = fds)))"
proof -
  note C = connector_init_cases [OF assms(1,2)] and I = connection_init_fds [OF assms(3)]
  have "fds' = fds @ [Fd_open (cn_fd o2)] \<and> (\<forall>js fds. snd (snd (BConnector_Free o2 js fds)) = fds @ [Fd_close (cn_fd o2)])"
    if "r = Some o2" for o2
    using C(2) [OF that] by (auto simp: connector_free_fds)
  moreover have "\<exists>o3. source' = BCONNECTION_SOURCE_TYPE_CONNECTOR o3 \<and> (\<forall>js fds. snd (snd (BConnector_Free o3 js fds)) = fds)"
    if "source = BCONNECTION_SOURCE_TYPE_CONNECTOR o2" for o2
    using connection_from_connector(1) [OF assms(3) [unfolded that]] by (auto simp: connector_free_fds)
  ultimately show ?thesis using C(1) I by blast
qed

text \<open>A listener as well: what it opens it closes, when it cannot be opened, when it is freed, and for a
  connection nobody takes.\<close>

lemma listener_fds:
  assumes "BListener_InitFrom sys from o1 js fds paths = (r, js', fds', paths')"
  shows "r = None \<Longrightarrow> js' = js \<and> (fds' = fds \<or> (\<exists>fd. fds' = fds @ [Fd_open fd, Fd_close fd]))"
    and "r = Some o2 \<Longrightarrow> fds' = fds @ [Fd_open (ln_fd o2)] \<and>
      fst (snd (snd (BListener_Free sys o2 js2 fds2 paths2))) = fds2 @ [Fd_close (ln_fd o2)]"
    and "listener_default_job_handler sys o2 fds2 \<in> {fds2, fds2 @ [Fd_open (fst (sk_accept sys (ln_fd o2))),
      Fd_close (fst (sk_accept sys (ln_fd o2)))]}"
proof -
  show "r = None \<Longrightarrow> js' = js \<and> (fds' = fds \<or> (\<exists>fd. fds' = fds @ [Fd_open fd, Fd_close fd]))"
    using assms by (auto simp: BListener_InitFrom_def Let_def open_fd_def close_fd_def split: option.splits if_splits)
  show "fds' = fds @ [Fd_open (ln_fd o2)] \<and> fst (snd (snd (BListener_Free sys o2 js2 fds2 paths2))) = fds2 @ [Fd_close (ln_fd o2)]"
    if "r = Some o2"
    using assms that
    by (auto simp: BListener_InitFrom_def BListener_Free_def Let_def open_fd_def close_fd_def split: option.splits if_splits)
qed (simp add: listener_default_job_handler_def open_fd_def close_fd_def Let_def)

text \<open>
  An error event that does not come with the events waited for leaves the connection waiting for
  them: when the write then succeeds, the descriptor stays monitored for writing although no send is
  in progress, and the next writable event writes the completed buffer once more.
\<close>

lemma con_error_event:
  assumes "con_inv (c, [], False)" and "spi_state (con_spi c) = STATE_BUSY"
    and "lim_count (cs_limit (con_send c)) < lim_limit (cs_limit (con_send c))"
    and "sys (Sys_write (con_fd c) (spi_job_operation_data (con_spi c)) (spi_job_operation_len (con_spi c))) = IO_bytes n"
  obtains c' js' where "connection_fd_handler BREACTOR_ERROR sys c [] = (c', js', None)"
    and "con_spi c' = (con_spi c)\<lparr>spi_job_done_len := n, spi_state := STATE_DONE_PENDING\<rparr>"
    and "cs_state (con_send c') = SEND_STATE_READY" and "bfd_active (con_bfd c')" and "\<not> con_is_hupd c'"
    and "bit (bfd_waitEvents (con_bfd c')) 1" and "con_fd c' = con_fd c"
    and "cs_busy_data (con_send c') = spi_job_operation_data (con_spi c)"
    and "cs_busy_data_len (con_send c') = spi_job_operation_len (con_spi c)" and "spi_job_done (con_spi c) \<in> set js'"
proof -
  have b: "cs_busy_data (con_send c) = spi_job_operation_data (con_spi c)"
      "cs_busy_data_len (con_send c) = spi_job_operation_len (con_spi c)"
    using assms(1,2) by (simp_all add: con_inv_def con_send_inv_def)
  have I: "con_send_inv c" "con_wait_inv True True c []" using assms(1) by (simp_all add: con_inv_def)
  have st: "cs_state (con_send c) = SEND_STATE_BUSY" "\<not> con_is_hupd c" "bit (con_wait_events c) 1" "bfd_active (con_bfd c)"
    using I assms(2) by (simp_all add: con_send_inv_def con_wait_inv_def)
  have e: "bit BREACTOR_ERROR k \<longleftrightarrow> k = 2" for k
  proof -
    have "bit BREACTOR_ERROR k \<longleftrightarrow> bit (2 ^ 2 :: u32) k" by simp
    then show ?thesis unfolding bit_exp_iff by (auto simp: possible_bit_def)
  qed
  define c1 where "c1 = fd_cleared BREACTOR_ERROR c"
  have c1: "con_send c1 = con_send c" "con_recv c1 = con_recv c" "con_fd c1 = con_fd c" "\<not> con_is_hupd c1"
      "con_wait_events c1 = con_wait_events c AND NOT BREACTOR_ERROR" "bfd_active (con_bfd c1)"
      "bfd_waitEvents (con_bfd c1) = con_wait_events c1"
    using st(2,4) e by (simp_all add: c1_def fd_cleared_def Let_def)
  define l where "l = (cs_limit (con_send c))\<lparr>lim_count := lim_count (cs_limit (con_send c)) + 1\<rparr>"
  define c' where "c' = c1\<lparr>con_send := (con_send c)\<lparr>cs_limit := l, cs_state := SEND_STATE_READY,
      cs_iface := (con_spi c)\<lparr>spi_job_done_len := n, spi_state := STATE_DONE_PENDING\<rparr>\<rparr>\<rparr>"
  define js' where "js' = BPending_Set (spi_job_done (con_spi c))
    (if cr_state (con_recv c) = RECV_STATE_BUSY then BPending_Set (cr_job (con_recv c)) [] else [])"
  have h: "connection_fd_handler BREACTOR_ERROR sys c [] = (c', js', None)"
    using st assms(3,4) c1 e b
    by (simp add: c'_def js'_def connection_fd_handler_def c1_def [symmetric] connection_send_def BReactorLimit_Increment_def
        con_send_write_def StreamPassInterface_Done_def l_def Let_def)
  have "bit (con_wait_events c AND NOT BREACTOR_ERROR) 1" unfolding bit_and_not_event using st(3) e [of 1] by simp
  then show thesis using that [OF h] by (simp add: c'_def js'_def c1 b job_simps)
qed

lemma con_stale_write:
  assumes "\<not> con_is_hupd c" and "lim_count (cs_limit (con_send c)) < lim_limit (cs_limit (con_send c))"
    and "io (Sys_write (con_fd c) (cs_busy_data (con_send c)) (cs_busy_data_len (con_send c))) = IO_bytes m"
  shows "fst (snd (connection_fd_handler BREACTOR_WRITE io c js)) = BPending_Set (spi_job_done (con_spi c)) js \<and>
    spi_job_done_len (con_spi (fst (connection_fd_handler BREACTOR_WRITE io c js))) = m"
  using assms by (simp add: connection_fd_handler_def fd_cleared_def connection_send_def BReactorLimit_Increment_def
      con_send_write_def StreamPassInterface_Done_def Let_def)

text \<open>C23. An error event that is reported alone leaves the connection waiting for the event of an operation
  that is over.  Take any connection that has reported no error, with a send in progress and no job to
  run.  When the kernel reports an error without the writable event and the write nevertheless
  succeeds, the send is complete but the descriptor is still monitored for writing, so that the
  handler's assertion fails at the next writable event.  And if that event comes after the
  completion has been reported and the write limits were reset, the same buffer is written again and
  a second completion is reported for the one send.\<close>

theorem connection_error_event_stale_wait:
  assumes "kernel_io K" and "error_complete K"
    and "con_start sys source c js fds (c0, js0)" and "con_fresh c js"
    and "(con_step K)\<^sup>*\<^sup>* (c0, js0, False) (c1, [], False)" and "spi_state (con_spi c1) = STATE_BUSY"
    and "lim_count (cs_limit (con_send c1)) < lim_limit (cs_limit (con_send c1))"
    and "io (Sys_write (con_fd c1) (spi_job_operation_data (con_spi c1)) (spi_job_operation_len (con_spi c1))) = IO_bytes n"
  shows "\<exists>c2 js2. connection_fd_handler BREACTOR_ERROR io c1 [] = (c2, js2, None) \<and>
    spi_job_done (con_spi c1) \<in> set js2 \<and> cs_state (con_send c2) = SEND_STATE_READY \<and>
    bfd_active (con_bfd c2) \<and> bfd_waitEvents (con_bfd c2) AND BREACTOR_WRITE \<noteq> 0 \<and>
    (\<forall>limit io' m js3. lim_count limit < lim_limit limit \<longrightarrow>
       io' (Sys_write (con_fd c1) (spi_job_operation_data (con_spi c1)) (spi_job_operation_len (con_spi c1))) = IO_bytes m \<longrightarrow>
       (let c3 = set_spi (fst (StreamPassInterface_job_done (con_spi c2))) c2;
            c4 = c3\<lparr>con_send := (con_send c3)\<lparr>cs_limit := limit\<rparr>\<rparr>;
            (c5, js5, ev) = connection_fd_handler BREACTOR_WRITE io' c4 js3
        in spi_state (con_spi c4) = STATE_NONE \<and> spi_job_done (con_spi c1) \<in> set js5 \<and> spi_job_done_len (con_spi c5) = m))"
proof -
  have inv: "con_inv (c1, [], False)" using con_run_inv [OF assms(5,1,2) con_start_inv [OF assms(3,4)]] .
  obtain c2 js2 where h: "connection_fd_handler BREACTOR_ERROR io c1 [] = (c2, js2, None)"
    and c2: "con_spi c2 = (con_spi c1)\<lparr>spi_job_done_len := n, spi_state := STATE_DONE_PENDING\<rparr>"
      "cs_state (con_send c2) = SEND_STATE_READY" "bfd_active (con_bfd c2)" "\<not> con_is_hupd c2"
      "bit (bfd_waitEvents (con_bfd c2)) 1" "con_fd c2 = con_fd c1"
      "cs_busy_data (con_send c2) = spi_job_operation_data (con_spi c1)"
      "cs_busy_data_len (con_send c2) = spi_job_operation_len (con_spi c1)" "spi_job_done (con_spi c1) \<in> set js2"
    by (rule con_error_event [of c1 io n, OF inv assms(6-8)])
  have "let c3 = set_spi (fst (StreamPassInterface_job_done (con_spi c2))) c2;
            c4 = c3\<lparr>con_send := (con_send c3)\<lparr>cs_limit := limit\<rparr>\<rparr>;
            (c5, js5, ev) = connection_fd_handler BREACTOR_WRITE io' c4 js3
        in spi_state (con_spi c4) = STATE_NONE \<and> spi_job_done (con_spi c1) \<in> set js5 \<and> spi_job_done_len (con_spi c5) = m"
    if "lim_count limit < lim_limit limit"
      "io' (Sys_write (con_fd c1) (spi_job_operation_data (con_spi c1)) (spi_job_operation_len (con_spi c1))) = IO_bytes m"
    for limit io' m js3
  proof -
    define c3 where "c3 = set_spi (fst (StreamPassInterface_job_done (con_spi c2))) c2"
    define c4 where "c4 = c3\<lparr>con_send := (con_send c3)\<lparr>cs_limit := limit\<rparr>\<rparr>"
    have "spi_state (con_spi c4) = STATE_NONE" "spi_job_done (con_spi c4) = spi_job_done (con_spi c1)"
      by (simp_all add: c4_def c3_def StreamPassInterface_job_done_def c2)
    moreover have "fst (snd (connection_fd_handler BREACTOR_WRITE io' c4 js3)) = BPending_Set (spi_job_done (con_spi c4)) js3 \<and>
        spi_job_done_len (con_spi (fst (connection_fd_handler BREACTOR_WRITE io' c4 js3))) = m"
      by (rule con_stale_write) (use that c2 in \<open>simp_all add: c4_def c3_def\<close>)
    moreover obtain c5 js5 ev where "connection_fd_handler BREACTOR_WRITE io' c4 js3 = (c5, js5, ev)" using prod_cases3 by blast
    ultimately show ?thesis unfolding c3_def [symmetric] Let_def c4_def [symmetric] by (simp add: job_simps)
  qed
  with h c2 show ?thesis by (intro exI [of _ c2] exI [of _ js2]) simp
qed

definition example_con :: "nat BConnection" where
  "example_con = \<lparr>con_fd = 0, con_close_fd = False, con_is_hupd = False,
     con_bfd = \<lparr>bfd_fd = 0, bfd_active = False, bfd_waitEvents = 0\<rparr>, con_wait_events = 0,
     con_send = \<lparr>cs_limit = BReactorLimit_Init 1,
       cs_iface = \<lparr>spi_handler_done = False, spi_job_operation = 0, spi_job_operation_data = 0,
         spi_job_operation_len = 0, spi_job_done = 1, spi_job_done_len = 0, spi_state = STATE_NONE\<rparr>,
       cs_job = 2, cs_busy_data = 0, cs_busy_data_len = 0, cs_state = SEND_STATE_NOT_INITED\<rparr>,
     con_recv = \<lparr>cr_limit = BReactorLimit_Init 1,
       cr_iface = \<lparr>sri_handler_done = False, sri_job_operation = 3, sri_job_operation_data = 0,
         sri_job_operation_len = 0, sri_job_done = 4, sri_job_done_len = 0, sri_state = STATE_NONE\<rparr>,
       cr_job = 5, cr_busy_data = 0, cr_busy_data_avail = 0, cr_state = RECV_STATE_NOT_INITED\<rparr>\<rparr>"

definition example_sock :: sock_sys where
  "example_sock = \<lparr>sk_socket = (\<lambda>_. 7), sk_fcntl = (\<lambda>_. 0), sk_connect = (\<lambda>_ _. Connect_in_progress),
     sk_unlink = (\<lambda>_. True), sk_bind = (\<lambda>_ _. True), sk_listen = (\<lambda>_. True),
     sk_accept = (\<lambda>_. (8, Sockaddr_in 0 0)), sk_epoll_add = (\<lambda>_. True), sk_so_error = (\<lambda>_. Some 0),
     sk_strdup = (\<lambda>_. True)\<rparr>"

text \<open>A kernel that reports errors only together with everything waited for.\<close>

definition example_kernel :: con_kernel where
  "example_kernel = \<lparr>kn_io = io_ok,
     kn_reports = (\<lambda>waited events. events AND BREACTOR_ERROR = 0 \<or> waited AND NOT events = 0)\<rparr>"

lemma example_kernel_ok: "kernel_io example_kernel" "error_complete example_kernel"
  by (simp_all add: kernel_io_def error_complete_def example_kernel_def)

text \<open>A send of five bytes that the kernel does not take at once.\<close>

lemma example_con_busy:
  obtains c0 c where "con_start example_sock (BCONNECTION_SOURCE_TYPE_PIPE 7 True) example_con [] [Fd_open 7] (c0, [])"
    and "con_fresh example_con []" and "(con_step example_kernel)\<^sup>*\<^sup>* (c0, [], False) (c, [], False)"
    and "spi_state (con_spi c) = STATE_BUSY" and "cr_state (con_recv c) = RECV_STATE_READY"
    and "lim_count (cs_limit (con_send c)) < lim_limit (cs_limit (con_send c))"
proof -
  define c0 where "c0 = example_con\<lparr>con_fd := 7, con_close_fd := True,
    con_bfd := \<lparr>bfd_fd = 7, bfd_active = True, bfd_waitEvents = 0\<rparr>,
    con_send := (con_send example_con)\<lparr>cs_limit := BReactorLimit_Init 2, cs_state := SEND_STATE_READY\<rparr>,
    con_recv := (con_recv example_con)\<lparr>cr_limit := BReactorLimit_Init 2, cr_state := RECV_STATE_READY\<rparr>\<rparr>"
  have st: "con_start example_sock (BCONNECTION_SOURCE_TYPE_PIPE 7 True) example_con [] [Fd_open 7] (c0, [])"
    by (simp add: con_start_def BConnection_Init_def source_fd_def example_sock_def badvpn_set_nonblocking_def
        BReactor_AddFileDescriptor_def BFileDescriptor_Init_def BConnection_SendAsync_Init_def
        BConnection_RecvAsync_Init_def iface_defs BPending_Init_def c0_def example_con_def)
  have fr: "con_fresh example_con []" by (simp add: con_fresh_def con_jobs_def example_con_def)
  define i1 where "i1 = (con_spi c0)\<lparr>spi_job_operation_data := 0, spi_job_operation_len := 5, spi_state := STATE_OPERATION_PENDING\<rparr>"
  define c1 where "c1 = set_spi i1 c0"
  have 1: "con_step example_kernel (c0, [], False) (c1, [0], False)"
    using con_user_send [where K = example_kernel, of c0 5 0 "[]" i1 "[0]"]
    by (simp add: c1_def i1_def c0_def example_con_def StreamPassInterface_Sender_Send_def BPending_Set_def)
  define w where "w = con_finish (connection_send_if_handler_send 0 5 (\<lambda>_. IO_again) (set_spi (i1\<lparr>spi_state := STATE_BUSY\<rparr>) c1) [])"
  have j: "spi_job_operation (con_spi c1) = 0" "StreamPassInterface_job_operation (con_spi c1) = (i1\<lparr>spi_state := STATE_BUSY\<rparr>, 0, 5)"
    by (simp_all add: c1_def i1_def c0_def example_con_def StreamPassInterface_job_operation_def)
  have "kn_io example_kernel (\<lambda>_. IO_again)" by (simp add: example_kernel_def io_ok_def)
  from con_send_op [OF j(2) this, of "[]"] j(1) have 2: "con_step example_kernel (c1, [0], False) w" by (simp add: w_def)
  have w: "fst (snd w) = []" "snd (snd w) = False" "spi_state (con_spi (fst w)) = STATE_BUSY"
      "cr_state (con_recv (fst w)) = RECV_STATE_READY"
      "lim_count (cs_limit (con_send (fst w))) < lim_limit (cs_limit (con_send (fst w)))"
    by (simp_all add: w_def connection_send_if_handler_send_def connection_send_def BReactorLimit_Increment_def
        BReactorLimit_Init_def con_send_write_def con_wait_def con_finish_def c1_def i1_def c0_def example_con_def Let_def)
  from 1 2 have "(con_step example_kernel)\<^sup>*\<^sup>* (c0, [], False) w" by (meson converse_rtranclp_into_rtranclp r_into_rtranclp)
  moreover have "w = (fst w, [], False)" using w(1,2) by (cases w) simp
  ultimately show thesis using that [OF st fr _ w(3-5)] by metis
qed

theorem connection_no_lost_wakeup_witness:
  "\<exists>c0 (c :: nat BConnection). (con_step example_kernel)\<^sup>*\<^sup>* (c0, [], False) (c, [], False) \<and> spi_state (con_spi c) = STATE_BUSY \<and>
     bfd_active (con_bfd c) \<and> bfd_waitEvents (con_bfd c) AND BREACTOR_WRITE \<noteq> 0"
proof -
  obtain c0 c where "con_start example_sock (BCONNECTION_SOURCE_TYPE_PIPE 7 True) example_con [] [Fd_open 7] (c0, [])"
    "con_fresh example_con []" and run: "(con_step example_kernel)\<^sup>*\<^sup>* (c0, [], False) (c, [], False)" and st: "spi_state (con_spi c) = STATE_BUSY"
    using example_con_busy by metis
  from connection_no_lost_wakeup [OF example_kernel_ok this(1-3)] run st show ?thesis by blast
qed


text \<open>A connector to \<open>127.0.0.1:1080\<close> that is opened, and a connection from a listener that cannot be monitored.\<close>

definition example_listener :: "nat BListener" where
  "example_listener = \<lparr>ln_unix_socket_path = None, ln_fd = 5,
     ln_bfd = \<lparr>bfd_fd = 5, bfd_active = True, bfd_waitEvents = 1\<rparr>, ln_default_job = 6\<rparr>"

theorem connector_fd_ownership_witness:
  "\<exists>o2. BConnector_InitFrom (example_sock\<lparr>sk_epoll_add := \<lambda>fd. fd \<noteq> 8\<rparr>) (BLISCON_FROM_ADDR (BADDR_IPV4 0x0100007F 0x3804))
       \<lparr>cn_job = 0 :: nat, cn_fd = 0, cn_connected = False, cn_have_bfd = False,
         cn_bfd = \<lparr>bfd_fd = 0, bfd_active = False, bfd_waitEvents = 0\<rparr>\<rparr> [] [] = (Some o2, [], [Fd_open 7]) \<and>
     snd (snd (BConnector_Free o2 [] [Fd_open 7])) = [Fd_open 7, Fd_close 7] \<and>
     snd (snd (snd (snd (BConnection_Init (example_sock\<lparr>sk_epoll_add := \<lambda>fd. fd \<noteq> 8\<rparr>)
       (BCONNECTION_SOURCE_TYPE_LISTENER example_listener) example_con [6] [Fd_open 5])))) =
       [Fd_open 5, Fd_open 8, Fd_close 8]"
proof -
  define o1 :: "nat BConnector" where "o1 = \<lparr>cn_job = 0 :: nat, cn_fd = 0, cn_connected = False, cn_have_bfd = False,
         cn_bfd = \<lparr>bfd_fd = 0, bfd_active = False, bfd_waitEvents = 0\<rparr>\<rparr>"
  define sys where "sys = example_sock\<lparr>sk_epoll_add := \<lambda>fd. fd \<noteq> 8\<rparr>"
  obtain o2 where init: "BConnector_InitFrom sys (BLISCON_FROM_ADDR (BADDR_IPV4 0x0100007F 0x3804)) o1 [] [] =
      (Some o2, [], [Fd_open 7])"
    by (simp add: BConnector_InitFrom_def liscon_sysaddr_def BConnection_AddressSupported_def example_sock_def sys_def
        badvpn_set_nonblocking_def BReactor_AddFileDescriptor_def BPending_Init_def o1_def open_fd_def Let_def)
  obtain source a js2 fds2 where con: "BConnection_Init sys (BCONNECTION_SOURCE_TYPE_LISTENER example_listener) example_con
      [6] [Fd_open 5] = (None, source, a, js2, fds2)"
    by (simp add: BConnection_Init_def source_fd_def example_listener_def sys_def example_sock_def
        badvpn_set_nonblocking_def BReactor_AddFileDescriptor_def Let_def)
  have "fst (sk_accept sys (ln_fd example_listener)) = 8" by (simp add: sys_def example_sock_def)
  with connector_fd_ownership [OF init _ con] init show ?thesis
    unfolding sys_def [symmetric] o1_def [symmetric] con by simp
qed

text \<open>The send of five bytes: the kernel takes one of them after an error that is reported alone.\<close>

theorem connection_error_event_stale_wait_witness:
  "\<exists>c0 (c1 :: nat BConnection) c2 js2. (con_step example_kernel)\<^sup>*\<^sup>* (c0, [], False) (c1, [], False) \<and>
     connection_fd_handler BREACTOR_ERROR (\<lambda>_. IO_bytes 1) c1 [] = (c2, js2, None) \<and>
     cs_state (con_send c2) = SEND_STATE_READY \<and> bfd_active (con_bfd c2) \<and>
     bfd_waitEvents (con_bfd c2) AND BREACTOR_WRITE \<noteq> 0"
proof -
  obtain c0 c where st: "con_start example_sock (BCONNECTION_SOURCE_TYPE_PIPE 7 True) example_con [] [Fd_open 7] (c0, [])"
    "con_fresh example_con []" and run: "(con_step example_kernel)\<^sup>*\<^sup>* (c0, [], False) (c, [], False)"
    and c: "spi_state (con_spi c) = STATE_BUSY" "lim_count (cs_limit (con_send c)) < lim_limit (cs_limit (con_send c))"
    using example_con_busy by metis
  from connection_error_event_stale_wait [OF example_kernel_ok st run c, of "\<lambda>_. IO_bytes 1" 1] run show ?thesis by blast
qed

end
