(* ===== verification/StreamSender.thy ===== *)
theory StreamSender
  imports FlowInterfaces
begin

text \<open>
  \<open>flow/PacketStreamSender.c\<close>: packets from a \<open>PacketPassInterface\<close> are written to a
  \<open>StreamPassInterface\<close>, which takes any part of what it is offered at a time.  Data pointers are
  offsets into the memory of the user of the input, which leaves a packet alone while it is being
  sent.  The lemmas show that the stream is the concatenation of the packets.
\<close>

section \<open>PacketStreamSender.c\<close>

record 'j PacketStreamSender =
  pss_input :: "('j, int) ppi"
  pss_output :: "('j, int) spi"
  pss_in_len :: int
  pss_in :: int
  pss_in_used :: int

type_synonym 'j pss_result = "'j PacketStreamSender \<times> 'j jobs"

definition send_data :: "'j PacketStreamSender \<Rightarrow> 'j jobs \<Rightarrow> 'j pss_result" where
  "send_data s js =
     (if pss_in_used s < pss_in_len s then
        let (out, js) = StreamPassInterface_Sender_Send (pss_in s + pss_in_used s)
              (pss_in_len s - pss_in_used s) (pss_output s) js
        in (s\<lparr>pss_output := out\<rparr>, js)
      else
        let s = s\<lparr>pss_in_len := -1\<rparr>;
            (i, js) = PacketPassInterface_Done (pss_input s) js
        in (s\<lparr>pss_input := i\<rparr>, js))"

definition pss_input_handler_send :: "int \<Rightarrow> int \<Rightarrow> 'j PacketStreamSender \<Rightarrow> 'j jobs \<Rightarrow> 'j pss_result" where
  "pss_input_handler_send data data_len s js =
     (let s = s\<lparr>pss_in_len := data_len\<rparr>;
          s = s\<lparr>pss_in := data\<rparr>;
          s = s\<lparr>pss_in_used := 0\<rparr>
      in send_data s js)"

definition pss_output_handler_done :: "int \<Rightarrow> 'j PacketStreamSender \<Rightarrow> 'j jobs \<Rightarrow> 'j pss_result" where
  "pss_output_handler_done data_len s js =
     (let s = s\<lparr>pss_in_used := pss_in_used s + data_len\<rparr> in send_data s js)"

definition PacketStreamSender_Init :: "int \<Rightarrow> 'j PacketStreamSender \<Rightarrow> 'j jobs \<Rightarrow> 'j pss_result" where
  "PacketStreamSender_Init mtu s js =
     (let (i, js) = PacketPassInterface_Init mtu (pss_input s) js;
          s = s\<lparr>pss_input := i\<rparr>;
          s = s\<lparr>pss_output := StreamPassInterface_Sender_Init (pss_output s)\<rparr>
      in (s\<lparr>pss_in_len := -1\<rparr>, js))"

definition PacketStreamSender_Free :: "'j PacketStreamSender \<Rightarrow> 'j jobs \<Rightarrow> 'j jobs" where
  "PacketStreamSender_Free s js = PacketPassInterface_Free (pss_input s) js"


section \<open>Runs\<close>

type_synonym 'j pss_world = "'j PacketStreamSender \<times> byte list \<times> 'j jobs"

abbreviation mem_at :: "int \<Rightarrow> int \<Rightarrow> byte list \<Rightarrow> byte list" where
  "mem_at p n m \<equiv> slice (nat p) (nat n) m"

text \<open>
  The steps of a sender between its user and the provider of the stream, with the packets the user
  submits and the bytes the provider takes.
\<close>

inductive pss_step :: "'j pss_world \<Rightarrow> byte list list \<Rightarrow> byte list \<Rightarrow> 'j pss_world \<Rightarrow> bool" where
  user_send: "ppi_state (pss_input s) = STATE_NONE \<Longrightarrow> 0 \<le> p \<Longrightarrow> 0 \<le> n \<Longrightarrow> n \<le> ppi_mtu (pss_input s) \<Longrightarrow>
    nat p + nat n \<le> length m' \<Longrightarrow> PacketPassInterface_Sender_Send p n (pss_input s) js = (i, js') \<Longrightarrow>
    pss_step (s, m, js) [mem_at p n m'] [] (s\<lparr>pss_input := i\<rparr>, m', js')"
| input_op: "PacketPassInterface_job_operation (pss_input s) = (i, p, n) \<Longrightarrow>
    pss_input_handler_send p n (s\<lparr>pss_input := i\<rparr>) js = (s', js') \<Longrightarrow>
    pss_step (s, m, ppi_job_operation (pss_input s) # js) [] [] (s', m, js')"
| input_done: "PacketPassInterface_job_done (pss_input s) = i \<Longrightarrow>
    pss_step (s, m, ppi_job_done (pss_input s) # js) [] [] (s\<lparr>pss_input := i\<rparr>, m, js)"
| output_op: "StreamPassInterface_job_operation (pss_output s) = (i, p, n) \<Longrightarrow>
    pss_step (s, m, spi_job_operation (pss_output s) # js) [] [] (s\<lparr>pss_output := i\<rparr>, m, js)"
| output_ready: "spi_state (pss_output s) = STATE_BUSY \<Longrightarrow> 0 < n \<Longrightarrow> n \<le> spi_job_operation_len (pss_output s) \<Longrightarrow>
    StreamPassInterface_Done n (pss_output s) js = (i, js') \<Longrightarrow>
    pss_step (s, m, js) [] (mem_at (spi_job_operation_data (pss_output s)) n m) (s\<lparr>pss_output := i\<rparr>, m, js')"
| output_done: "StreamPassInterface_job_done (pss_output s) = (i, n) \<Longrightarrow>
    pss_output_handler_done n (s\<lparr>pss_output := i\<rparr>) js = (s', js') \<Longrightarrow>
    pss_step (s, m, spi_job_done (pss_output s) # js) [] [] (s', m, js')"

inductive pss_run :: "'j pss_world \<Rightarrow> byte list list \<Rightarrow> byte list \<Rightarrow> 'j pss_world \<Rightarrow> bool" where
  pss_nil: "pss_run w [] [] w"
| pss_snoc: "pss_run w ins outs w' \<Longrightarrow> pss_step w' i o' w'' \<Longrightarrow> pss_run w (ins @ i) (outs @ o') w''"


section \<open>Invariant\<close>

definition pss_jobs :: "'j PacketStreamSender \<Rightarrow> 'j list" where
  "pss_jobs s = [ppi_job_operation (pss_input s), ppi_job_done (pss_input s), ppi_job_requestcancel (pss_input s),
     spi_job_operation (pss_output s), spi_job_done (pss_output s)]"

definition pss_queue :: "'j PacketStreamSender \<Rightarrow> 'j jobs \<Rightarrow> bool" where
  "pss_queue s js \<longleftrightarrow>
     distinct js \<and> distinct (pss_jobs s) \<and>
     (ppi_job_operation (pss_input s) \<in> set js \<longleftrightarrow> ppi_state (pss_input s) = STATE_OPERATION_PENDING) \<and>
     (ppi_job_done (pss_input s) \<in> set js \<longleftrightarrow> ppi_state (pss_input s) = STATE_DONE_PENDING) \<and>
     ppi_job_requestcancel (pss_input s) \<notin> set js \<and>
     (spi_job_operation (pss_output s) \<in> set js \<longleftrightarrow> spi_state (pss_output s) = STATE_OPERATION_PENDING) \<and>
     (spi_job_done (pss_output s) \<in> set js \<longleftrightarrow> spi_state (pss_output s) = STATE_DONE_PENDING)"

text \<open>The packet in hand: \<open>in_used\<close> of its bytes are sent, the output has been offered the rest.\<close>

definition pss_busy :: "'j PacketStreamSender \<Rightarrow> byte list \<Rightarrow> bool" where
  "pss_busy s m \<longleftrightarrow>
     0 \<le> pss_in s \<and> 0 \<le> pss_in_used s \<and> pss_in_used s < pss_in_len s \<and>
     nat (pss_in s) + nat (pss_in_len s) \<le> length m \<and>
     spi_job_operation_data (pss_output s) = pss_in s + pss_in_used s \<and>
     spi_job_operation_len (pss_output s) = pss_in_len s - pss_in_used s \<and>
     (spi_state (pss_output s) = STATE_DONE_PENDING \<longrightarrow>
        0 < spi_job_done_len (pss_output s) \<and> spi_job_done_len (pss_output s) \<le> spi_job_operation_len (pss_output s))"

text \<open>The bytes the user has submitted and the output has not taken.\<close>

definition pss_rest :: "'j PacketStreamSender \<Rightarrow> byte list \<Rightarrow> byte list" where
  "pss_rest s m =
     (case ppi_state (pss_input s) of
        STATE_OPERATION_PENDING \<Rightarrow> mem_at (ppi_job_operation_data (pss_input s)) (ppi_job_operation_len (pss_input s)) m
      | STATE_BUSY \<Rightarrow>
          (let used = (if spi_state (pss_output s) = STATE_DONE_PENDING
             then pss_in_used s + spi_job_done_len (pss_output s) else pss_in_used s)
           in mem_at (pss_in s + used) (pss_in_len s - used) m)
      | _ \<Rightarrow> [])"

definition pss_inv :: "'j pss_world \<Rightarrow> bool" where
  "pss_inv = (\<lambda>(s, m, js).
     pss_queue s js \<and>
     (ppi_state (pss_input s) = STATE_BUSY \<longleftrightarrow> spi_state (pss_output s) \<noteq> STATE_NONE) \<and>
     (ppi_state (pss_input s) = STATE_BUSY \<longrightarrow> pss_busy s m) \<and>
     (ppi_state (pss_input s) \<noteq> STATE_BUSY \<longrightarrow> pss_in_len s = -1) \<and>
     (ppi_state (pss_input s) = STATE_OPERATION_PENDING \<longrightarrow>
        0 \<le> ppi_job_operation_data (pss_input s) \<and> 0 \<le> ppi_job_operation_len (pss_input s) \<and>
        nat (ppi_job_operation_data (pss_input s)) + nat (ppi_job_operation_len (pss_input s)) \<le> length m))"

lemma pss_queue_jobs:
  "pss_queue s (ppi_job_operation (pss_input s) # js) \<Longrightarrow>
     ppi_state (pss_input s) = STATE_OPERATION_PENDING \<and>
     pss_queue (s\<lparr>pss_input := (pss_input s)\<lparr>ppi_state := STATE_BUSY\<rparr>\<rparr>) js"
  "pss_queue s (ppi_job_done (pss_input s) # js) \<Longrightarrow>
     ppi_state (pss_input s) = STATE_DONE_PENDING \<and>
     pss_queue (s\<lparr>pss_input := (pss_input s)\<lparr>ppi_state := STATE_NONE\<rparr>\<rparr>) js"
  "pss_queue s (spi_job_operation (pss_output s) # js) \<Longrightarrow>
     spi_state (pss_output s) = STATE_OPERATION_PENDING \<and>
     pss_queue (s\<lparr>pss_output := (pss_output s)\<lparr>spi_state := STATE_BUSY\<rparr>\<rparr>) js"
  "pss_queue s (spi_job_done (pss_output s) # js) \<Longrightarrow>
     spi_state (pss_output s) = STATE_DONE_PENDING \<and>
     pss_queue (s\<lparr>pss_output := (pss_output s)\<lparr>spi_state := STATE_NONE\<rparr>\<rparr>) js"
  by (auto simp: pss_queue_def pss_jobs_def)

text \<open>\<open>send_data\<close> offers the rest of the packet, or finishes the packet when there is none.\<close>

lemma send_data_inv:
  assumes queue: "pss_queue s js" and st: "ppi_state (pss_input s) = STATE_BUSY" "spi_state (pss_output s) = STATE_NONE"
    and pk: "0 \<le> pss_in s" "0 \<le> pss_in_used s" "pss_in_used s \<le> pss_in_len s"
      "nat (pss_in s) + nat (pss_in_len s) \<le> length m"
    and run: "send_data s js = (s', js')"
  shows "pss_inv (s', m, js') \<and> pss_rest s' m = mem_at (pss_in s + pss_in_used s) (pss_in_len s - pss_in_used s) m"
proof (cases "pss_in_used s < pss_in_len s")
  case True
  define out where "out = (pss_output s)\<lparr>spi_job_operation_data := pss_in s + pss_in_used s,
    spi_job_operation_len := pss_in_len s - pss_in_used s, spi_state := STATE_OPERATION_PENDING\<rparr>"
  have s': "s' = s\<lparr>pss_output := out\<rparr>" "js' = BPending_Set (spi_job_operation (pss_output s)) js"
    using run True by (auto simp: send_data_def StreamPassInterface_Sender_Send_def out_def)
  have "pss_queue s' js'" using queue st by (auto simp: pss_queue_def pss_jobs_def s' out_def job_simps)
  moreover have "pss_busy s' m" using pk True by (simp add: pss_busy_def s' out_def)
  ultimately show ?thesis using st by (simp add: pss_inv_def pss_rest_def s' out_def Let_def)
next
  case False
  define i where "i = (pss_input s)\<lparr>ppi_state := STATE_DONE_PENDING\<rparr>"
  have s': "s' = s\<lparr>pss_in_len := -1, pss_input := i\<rparr>"
    "js' = BPending_Set (ppi_job_done (pss_input s)) (BPending_Unset (ppi_job_requestcancel (pss_input s)) js)"
    using run False by (auto simp: send_data_def PacketPassInterface_Done_def i_def)
  have "pss_queue s' js'" using queue st by (auto simp: pss_queue_def pss_jobs_def s' i_def job_simps)
  then show ?thesis using st False pk by (simp add: pss_inv_def pss_rest_def s' i_def)
qed

lemma pss_user_send:
  assumes "pss_inv (s, m, js)" and "ppi_state (pss_input s) = STATE_NONE" and "0 \<le> p" and "0 \<le> n"
    and "nat p + nat n \<le> length m'"
  defines "i \<equiv> (pss_input s)\<lparr>ppi_job_operation_data := p, ppi_job_operation_len := n,
      ppi_state := STATE_OPERATION_PENDING, ppi_cancel_requested := False\<rparr>"
  shows "pss_inv (s\<lparr>pss_input := i\<rparr>, m', BPending_Set (ppi_job_operation (pss_input s)) js) \<and>
    pss_rest s m = [] \<and> pss_rest (s\<lparr>pss_input := i\<rparr>) m' = mem_at p n m'"
proof -
  have "pss_queue (s\<lparr>pss_input := i\<rparr>) (BPending_Set (ppi_job_operation (pss_input s)) js)"
    using assms(1,2) by (auto simp: pss_inv_def pss_queue_def pss_jobs_def i_def job_simps)
  then show ?thesis using assms(1-5) by (simp add: pss_inv_def pss_rest_def i_def)
qed

lemma pss_input_done:
  assumes "pss_inv (s, m, ppi_job_done (pss_input s) # js)"
  shows "pss_inv (s\<lparr>pss_input := (pss_input s)\<lparr>ppi_state := STATE_NONE\<rparr>\<rparr>, m, js) \<and>
    pss_rest s m = pss_rest (s\<lparr>pss_input := (pss_input s)\<lparr>ppi_state := STATE_NONE\<rparr>\<rparr>) m"
  using assms pss_queue_jobs(2) [of s js] by (simp add: pss_inv_def pss_rest_def)

lemma pss_output_op:
  assumes "pss_inv (s, m, spi_job_operation (pss_output s) # js)"
  shows "pss_inv (s\<lparr>pss_output := (pss_output s)\<lparr>spi_state := STATE_BUSY\<rparr>\<rparr>, m, js) \<and>
    pss_rest s m = pss_rest (s\<lparr>pss_output := (pss_output s)\<lparr>spi_state := STATE_BUSY\<rparr>\<rparr>) m"
  using assms pss_queue_jobs(3) [of s js] by (simp add: pss_inv_def pss_rest_def pss_busy_def)

lemma pss_output_ready:
  assumes "pss_inv (s, m, js)" and st: "spi_state (pss_output s) = STATE_BUSY" and n: "0 < n"
    "n \<le> spi_job_operation_len (pss_output s)"
  defines "s' \<equiv> s\<lparr>pss_output := (pss_output s)\<lparr>spi_job_done_len := n, spi_state := STATE_DONE_PENDING\<rparr>\<rparr>"
  shows "pss_inv (s', m, BPending_Set (spi_job_done (pss_output s)) js) \<and>
    pss_rest s m = mem_at (spi_job_operation_data (pss_output s)) n m @ pss_rest s' m"
proof -
  have I: "pss_busy s m" "pss_queue s js" "ppi_state (pss_input s) = STATE_BUSY"
    using assms(1) st by (simp_all add: pss_inv_def)
  have q: "pss_queue s' (BPending_Set (spi_job_done (pss_output s)) js)"
    using I(2) st by (auto simp: pss_queue_def pss_jobs_def s'_def job_simps)
  define a where "a = pss_in s + pss_in_used s"
  define k where "k = pss_in_len s - pss_in_used s"
  have len: "nat a + nat n + nat (k - n) \<le> length m" "0 \<le> a" "n \<le> k"
    using I(1) n unfolding pss_busy_def a_def k_def by linarith+
  then have "mem_at a k m = mem_at a n m @ mem_at (a + n) (k - n) m"
    using slice_append [OF len(1)] n(1) by (simp add: nat_add_distrib [symmetric])
  moreover have "pss_rest s m = mem_at a k m" "pss_rest s' m = mem_at (a + n) (k - n) m"
    "spi_job_operation_data (pss_output s) = a"
    using I st by (simp_all add: pss_rest_def s'_def a_def k_def Let_def pss_busy_def add.assoc diff_diff_eq)
  moreover have "pss_busy s' m" using I(1) n by (simp add: pss_busy_def s'_def)
  ultimately show ?thesis using q I(3) by (simp add: pss_inv_def) (simp add: s'_def)
qed

lemma pss_queue_cong:
  "pss_input s' = pss_input s \<Longrightarrow> pss_output s' = pss_output s \<Longrightarrow> pss_queue s' js = pss_queue s js"
  by (simp add: pss_queue_def pss_jobs_def)

lemma pss_input_op:
  assumes inv: "pss_inv (s, m, ppi_job_operation (pss_input s) # js)"
    and op: "PacketPassInterface_job_operation (pss_input s) = (i, p, n)"
    and run: "pss_input_handler_send p n (s\<lparr>pss_input := i\<rparr>) js = (s', js')"
  shows "pss_inv (s', m, js') \<and> pss_rest s m = pss_rest s' m"
proof -
  have i: "i = (pss_input s)\<lparr>ppi_state := STATE_BUSY\<rparr>" "p = ppi_job_operation_data (pss_input s)"
    "n = ppi_job_operation_len (pss_input s)"
    using op by (auto simp: PacketPassInterface_job_operation_def)
  define s1 where "s1 = s\<lparr>pss_input := i, pss_in_len := n, pss_in := p, pss_in_used := 0\<rparr>"
  have q: "ppi_state (pss_input s) = STATE_OPERATION_PENDING" "pss_queue (s\<lparr>pss_input := i\<rparr>) js"
    using inv pss_queue_jobs(1) [of s js] by (simp_all add: pss_inv_def i)
  have q1: "pss_queue s1 js" using q(2) pss_queue_cong [of s1 "s\<lparr>pss_input := i\<rparr>" js] by (simp add: s1_def)
  have b: "spi_state (pss_output s) = STATE_NONE" "0 \<le> p" "0 \<le> n" "nat p + nat n \<le> length m"
    using inv q(1) by (simp_all add: pss_inv_def i)
  have "send_data s1 js = (s', js')" using run by (simp add: pss_input_handler_send_def s1_def)
  from send_data_inv [OF q1 _ _ _ _ _ _ this, of m] show ?thesis
    using b q(1) by (simp add: s1_def i pss_rest_def)
qed

lemma pss_output_done:
  assumes inv: "pss_inv (s, m, spi_job_done (pss_output s) # js)"
    and op: "StreamPassInterface_job_done (pss_output s) = (i, n)"
    and run: "pss_output_handler_done n (s\<lparr>pss_output := i\<rparr>) js = (s', js')"
  shows "pss_inv (s', m, js') \<and> pss_rest s m = pss_rest s' m"
proof -
  have i: "i = (pss_output s)\<lparr>spi_state := STATE_NONE\<rparr>" "n = spi_job_done_len (pss_output s)"
    using op by (auto simp: StreamPassInterface_job_done_def)
  define s1 where "s1 = s\<lparr>pss_output := i, pss_in_used := pss_in_used s + n\<rparr>"
  have q: "spi_state (pss_output s) = STATE_DONE_PENDING" "pss_queue (s\<lparr>pss_output := i\<rparr>) js"
    using inv pss_queue_jobs(4) [of s js] by (simp_all add: pss_inv_def i)
  have q1: "pss_queue s1 js" using q(2) pss_queue_cong [of s1 "s\<lparr>pss_output := i\<rparr>" js] by (simp add: s1_def)
  have b: "ppi_state (pss_input s) = STATE_BUSY" "pss_busy s m"
    using inv q(1) by (simp_all add: pss_inv_def)
  then have "0 \<le> pss_in s1" "0 \<le> pss_in_used s1" "pss_in_used s1 \<le> pss_in_len s1"
      "nat (pss_in s1) + nat (pss_in_len s1) \<le> length m"
    using q(1) by (simp_all add: pss_busy_def s1_def i)
  moreover have "send_data s1 js = (s', js')" using run by (simp add: pss_output_handler_done_def s1_def)
  moreover have "ppi_state (pss_input s1) = STATE_BUSY" "spi_state (pss_output s1) = STATE_NONE"
    using b(1) by (simp_all add: s1_def i)
  ultimately have "pss_inv (s', m, js') \<and>
      pss_rest s' m = mem_at (pss_in s1 + pss_in_used s1) (pss_in_len s1 - pss_in_used s1) m"
    by (intro send_data_inv [OF q1])
  then show ?thesis using b(1) q(1) by (simp add: s1_def i pss_rest_def Let_def)
qed

lemma pss_step_inv:
  assumes "pss_step w i o' w'" and "pss_inv w"
  shows "pss_inv w' \<and> pss_rest (fst w) (fst (snd w)) @ concat i = o' @ pss_rest (fst w') (fst (snd w'))"
  using assms
proof (cases rule: pss_step.cases)
  case (user_send s p n m' js x js' m)
  then show ?thesis using assms(2) pss_user_send [of s m js p n m'] by (simp add: PacketPassInterface_Sender_Send_def)
next
  case (input_op s x p n js s' js' m)
  then show ?thesis using assms(2) pss_input_op [of s m js x p n s' js'] by simp
next
  case (input_done s x m js)
  then show ?thesis using assms(2) pss_input_done [of s m js] by (simp add: PacketPassInterface_job_done_def)
next
  case (output_op s x p n m js)
  then show ?thesis using assms(2) pss_output_op [of s m js] by (simp add: StreamPassInterface_job_operation_def)
next
  case (output_ready s n js x js' m)
  then show ?thesis using assms(2) pss_output_ready [of s m js n] by (simp add: StreamPassInterface_Done_def)
next
  case (output_done s x n js s' js' m)
  then show ?thesis using assms(2) pss_output_done [of s m js x n s' js'] by simp
qed

lemma pss_run_inv:
  "pss_run w ins outs w' \<Longrightarrow> pss_inv w \<Longrightarrow> pss_rest (fst w) (fst (snd w)) = [] \<Longrightarrow>
   pss_inv w' \<and> concat ins = outs @ pss_rest (fst w') (fst (snd w'))"
proof (induction rule: pss_run.induct)
  case (pss_snoc w ins outs w' i o' w'')
  then show ?case using pss_step_inv [OF pss_snoc.hyps(2)] by simp
qed simp

text \<open>An output that is idle, and jobs that are distinct and not in the queue.\<close>

definition pss_fresh :: "'j PacketStreamSender \<Rightarrow> 'j jobs \<Rightarrow> bool" where
  "pss_fresh s js \<longleftrightarrow>
     distinct js \<and> distinct (pss_jobs s) \<and> set (pss_jobs s) \<inter> set js = {} \<and>
     spi_state (pss_output s) = STATE_NONE"

lemma pss_init_inv:
  assumes "PacketStreamSender_Init mtu s js = (s', js')" and "pss_fresh s js"
  shows "pss_inv (s', m, js') \<and> pss_rest s' m = []"
proof -
  have s': "s' = s\<lparr>pss_input := (pss_input s)\<lparr>ppi_mtu := mtu, ppi_handler_requestcancel := False,
      ppi_handler_done := False, ppi_state := STATE_NONE\<rparr>,
      pss_output := (pss_output s)\<lparr>spi_handler_done := True\<rparr>, pss_in_len := -1\<rparr>" "js' = js"
    using assms(1) by (auto simp: PacketStreamSender_Init_def iface_defs BPending_Init_def Let_def)
  have "pss_queue s' js'" using assms(2)
    by (auto simp: pss_fresh_def pss_queue_def pss_jobs_def s')
  then show ?thesis using assms(2) by (simp add: pss_inv_def pss_rest_def s' pss_fresh_def)
qed

text \<open>C14. The packet stream sender concatenates: for every interleaving, and however the provider of
  the stream splits what it is offered, the bytes taken so far are a prefix of the concatenation of
  the packets submitted; all bytes have been taken when the user is told that a packet is done, and
  the provider is only ever offered bytes of the packet in hand.\<close>

theorem packet_stream_sender_concat:
  assumes "PacketStreamSender_Init mtu s js = (s0, js0)" and "pss_fresh s js"
    and "pss_run (s0, m0, js0) ins outs (s', m', js')"
  shows "(\<exists>rest. concat ins = outs @ rest \<and>
      (ppi_state (pss_input s') \<in> {STATE_NONE, STATE_DONE_PENDING} \<longrightarrow> rest = [])) \<and>
    (ppi_state (pss_input s') = STATE_BUSY \<longrightarrow> spi_state (pss_output s') \<noteq> STATE_NONE \<and>
      0 < spi_job_operation_len (pss_output s') \<and>
      nat (spi_job_operation_data (pss_output s')) + nat (spi_job_operation_len (pss_output s')) \<le> length m')"
proof -
  have R: "pss_inv (s', m', js')" "concat ins = outs @ pss_rest s' m'"
    using pss_run_inv [OF assms(3)] pss_init_inv [OF assms(1,2)] by simp_all
  moreover have "ppi_state (pss_input s') \<in> {STATE_NONE, STATE_DONE_PENDING} \<longrightarrow> pss_rest s' m' = []"
    by (auto simp: pss_rest_def)
  moreover have "nat (spi_job_operation_data (pss_output s')) + nat (spi_job_operation_len (pss_output s')) \<le> length m'"
    if "pss_busy s' m'"
    using that unfolding pss_busy_def by linarith
  ultimately show ?thesis by (auto simp: pss_inv_def pss_busy_def)
qed

definition example_pss :: "nat PacketStreamSender" where
  "example_pss = \<lparr>pss_input = \<lparr>ppi_mtu = 0, ppi_handler_requestcancel = False, ppi_handler_done = False,
      ppi_job_operation = 0, ppi_job_operation_data = 0, ppi_job_operation_len = 0,
      ppi_job_requestcancel = 1, ppi_job_done = 2, ppi_state = STATE_NONE, ppi_cancel_requested = False\<rparr>,
    pss_output = \<lparr>spi_handler_done = False, spi_job_operation = 3, spi_job_operation_data = 0,
      spi_job_operation_len = 0, spi_job_done = 4, spi_job_done_len = 0, spi_state = STATE_NONE\<rparr>,
    pss_in_len = 0, pss_in = 0, pss_in_used = 0\<rparr>"

text \<open>A packet of three bytes of which the stream takes the first two.\<close>

theorem packet_stream_sender_concat_witness:
  "\<exists>s0 s'. PacketStreamSender_Init 9 example_pss [] = (s0, []) \<and>
     pss_run (s0, [], []) [[5, 6, 7]] [5, 6] (s', [5, 6, 7], [4]) \<and>
     (\<exists>rest. concat [[5, 6, 7]] = [5, 6] @ (rest :: byte list))"
proof -
  define s0 where "s0 = example_pss\<lparr>pss_input := (pss_input example_pss)\<lparr>ppi_mtu := 9\<rparr>,
    pss_output := (pss_output example_pss)\<lparr>spi_handler_done := True\<rparr>, pss_in_len := -1\<rparr>"
  define s1 where "s1 = s0\<lparr>pss_input := (pss_input s0)\<lparr>ppi_job_operation_len := 3,
    ppi_state := STATE_OPERATION_PENDING\<rparr>\<rparr>"
  define s2 where "s2 = s1\<lparr>pss_input := (pss_input s1)\<lparr>ppi_state := STATE_BUSY\<rparr>, pss_in_len := 3,
    pss_output := (pss_output s1)\<lparr>spi_job_operation_len := 3, spi_state := STATE_OPERATION_PENDING\<rparr>\<rparr>"
  define s3 where "s3 = s2\<lparr>pss_output := (pss_output s2)\<lparr>spi_state := STATE_BUSY\<rparr>\<rparr>"
  define s4 where "s4 = s3\<lparr>pss_output := (pss_output s3)\<lparr>spi_job_done_len := 2, spi_state := STATE_DONE_PENDING\<rparr>\<rparr>"
  note defs = s4_def s3_def s2_def s1_def s0_def example_pss_def iface_defs BPending_Set_def
  have init: "PacketStreamSender_Init 9 example_pss [] = (s0, [])"
    by (simp add: PacketStreamSender_Init_def defs BPending_Init_def)
  have 1: "pss_step (s0, [], []) [[5, 6, 7]] [] (s1, [5, 6, 7], [0])"
    using user_send [of s0 0 3 "[5, 6, 7]" "[]" "pss_input s1" "[0]" "[]"] by (simp add: defs slice_def)
  have 2: "pss_step (s1, [5, 6, 7], [0]) [] [] (s2, [5, 6, 7], [3])"
    using input_op [of s1 "pss_input s2" 0 3 "[]" s2 "[3]"]
    by (simp add: defs pss_input_handler_send_def send_data_def)
  have 3: "pss_step (s2, [5, 6, 7], [3]) [] [] (s3, [5, 6, 7], [])"
    using output_op [of s2 "pss_output s3" 0 3 _ "[]"] by (simp add: defs)
  have 4: "pss_step (s3, [5, 6, 7], []) [] [5, 6] (s4, [5, 6, 7], [4])"
    using output_ready [of s3 2 "[]" "pss_output s4" "[4]" "[5, 6, 7]"] by (simp add: defs slice_def)
  have run: "pss_run (s0, [], []) [[5, 6, 7]] [5, 6] (s4, [5, 6, 7], [4])"
    using pss_snoc [OF pss_snoc [OF pss_snoc [OF pss_snoc [OF pss_nil 1] 2] 3] 4] by simp
  have "pss_fresh example_pss []" by (simp add: pss_fresh_def pss_jobs_def example_pss_def)
  from packet_stream_sender_concat [OF init this run] show ?thesis using init run by blast
qed

end
