(* ===== verification/SocksClient.thy ===== *)
theory SocksClient
  imports Connection StreamSender BSize Bytes
begin

text \<open>
  The SOCKS5 client of \<open>socksclient/BSocksClient.c\<close> with the messages of \<open>misc/socks_proto.h\<close>.
  Data pointers are offsets into the client's buffer; \<open>realloc\<close> is a parameter that returns the
  contents of the new block.  While the handshake runs, the stream interface of the connection is
  held by the packet stream sender that points to it.  The lemmas show which bytes are exchanged
  before the client reports that it is up, for every split of the streams and every order of the
  events, that every receive stays inside the buffer, and that freeing the client closes what it
  opened in every state.
\<close>

section \<open>Protocol\<close>

abbreviation (input) SOCKS_VERSION :: byte where "SOCKS_VERSION \<equiv> 5"
abbreviation (input) SOCKS_METHOD_NO_AUTHENTICATION_REQUIRED :: int where "SOCKS_METHOD_NO_AUTHENTICATION_REQUIRED \<equiv> 0"
abbreviation (input) SOCKS_METHOD_USERNAME_PASSWORD :: int where "SOCKS_METHOD_USERNAME_PASSWORD \<equiv> 2"
abbreviation (input) SOCKS_CMD_CONNECT :: byte where "SOCKS_CMD_CONNECT \<equiv> 1"
abbreviation (input) SOCKS_ATYP_IPV4 :: byte where "SOCKS_ATYP_IPV4 \<equiv> 1"
abbreviation (input) SOCKS_ATYP_IPV6 :: byte where "SOCKS_ATYP_IPV6 \<equiv> 4"
abbreviation (input) SOCKS_REP_SUCCEEDED :: byte where "SOCKS_REP_SUCCEEDED \<equiv> 0"

text \<open>The packed structures as their bytes, and their sizes.\<close>

definition socks_client_hello_header :: "byte \<Rightarrow> byte \<Rightarrow> byte list" where
  "socks_client_hello_header ver nmethods = [ver, nmethods]"

definition socks_request_header :: "byte \<Rightarrow> byte \<Rightarrow> byte \<Rightarrow> byte \<Rightarrow> byte list" where
  "socks_request_header ver cmd rsv atyp = [ver, cmd, rsv, atyp]"

definition socks_addr_ipv4 :: "u32 \<Rightarrow> u16 \<Rightarrow> byte list" where
  "socks_addr_ipv4 addr port = mem32 addr @ mem16 port"

definition socks_addr_ipv6 :: "byte list \<Rightarrow> u16 \<Rightarrow> byte list" where
  "socks_addr_ipv6 addr port = addr @ mem16 port"

abbreviation (input) sizeof_socks_client_hello_header :: u64 where "sizeof_socks_client_hello_header \<equiv> 2"
abbreviation (input) sizeof_socks_client_hello_method :: u64 where "sizeof_socks_client_hello_method \<equiv> 1"
abbreviation (input) sizeof_socks_server_hello :: u64 where "sizeof_socks_server_hello \<equiv> 2"
abbreviation (input) sizeof_socks_request_header :: u64 where "sizeof_socks_request_header \<equiv> 4"
abbreviation (input) sizeof_socks_reply_header :: u64 where "sizeof_socks_reply_header \<equiv> 4"
abbreviation (input) sizeof_socks_addr_ipv4 :: u64 where "sizeof_socks_addr_ipv4 \<equiv> 6"
abbreviation (input) sizeof_socks_addr_ipv6 :: u64 where "sizeof_socks_addr_ipv6 \<equiv> 18"


section \<open>BSocksClient\<close>

datatype socks_event = BSOCKSCLIENT_EVENT_ERROR | BSOCKSCLIENT_EVENT_UP | BSOCKSCLIENT_EVENT_ERROR_CLOSED

datatype socks_state =
  STATE_CONNECTING | STATE_SENDING_HELLO | STATE_SENT_HELLO | STATE_SENDING_PASSWORD
| STATE_SENT_PASSWORD | STATE_SENDING_REQUEST | STATE_SENT_REQUEST | STATE_RECEIVED_REPLY_HEADER
| STATE_UP

record BSocksClient_auth_info =
  auth_type :: int
  auth_username :: "byte list"
  auth_password :: "byte list"

record 'j BSocksClient =
  sc_auth_info :: "BSocksClient_auth_info list"
  sc_dest_addr :: BAddr
  sc_state :: socks_state
  sc_buffer :: "byte list option"
  sc_connector :: "'j BConnector"
  sc_con :: "'j BConnection"
  sc_send_sender :: "'j PacketStreamSender"
  sc_recv_dest :: int
  sc_recv_len :: int
  sc_recv_total :: int

abbreviation sc_send_if :: "'j BSocksClient \<Rightarrow> ('j, int) ppi" where "sc_send_if c \<equiv> pss_input (sc_send_sender c)"
abbreviation sc_recv_if :: "'j BSocksClient \<Rightarrow> ('j, int) sri" where "sc_recv_if c \<equiv> con_sri (sc_con c)"

abbreviation set_send_if :: "('j, int) ppi \<Rightarrow> 'j BSocksClient \<Rightarrow> 'j BSocksClient" where
  "set_send_if i c \<equiv> c\<lparr>sc_send_sender := (sc_send_sender c)\<lparr>pss_input := i\<rparr>\<rparr>"
abbreviation set_recv_if :: "('j, int) sri \<Rightarrow> 'j BSocksClient \<Rightarrow> 'j BSocksClient" where
  "set_recv_if i c \<equiv> c\<lparr>sc_con := set_sri i (sc_con c)\<rparr>"

type_synonym 'j sc_result = "'j BSocksClient \<times> 'j jobs \<times> socks_event option"

text \<open>\<open>realloc\<close>: the block, the new size, and the contents of the new block.\<close>

type_synonym realloc = "byte list option \<Rightarrow> nat \<Rightarrow> byte list option"

definition init_control_io :: "'j BSocksClient \<Rightarrow> 'j jobs \<Rightarrow> 'j BSocksClient \<times> 'j jobs" where
  "init_control_io c js =
     (let (con, js) = BConnection_RecvAsync_Init (sc_con c) js;
          con = set_sri (StreamRecvInterface_Receiver_Init (con_sri con)) con;
          (con, js) = BConnection_SendAsync_Init con js;
          sender = (sc_send_sender c)\<lparr>pss_output := con_spi con\<rparr>;
          (sender, js) = PacketStreamSender_Init INT_MAX sender js;
          sender = sender\<lparr>pss_input := PacketPassInterface_Sender_Init (pss_input sender)\<rparr>
      in (c\<lparr>sc_con := con, sc_send_sender := sender\<rparr>, js))"

definition free_control_io :: "'j BSocksClient \<Rightarrow> 'j jobs \<Rightarrow> 'j BSocksClient \<times> 'j jobs" where
  "free_control_io c js =
     (let js = PacketStreamSender_Free (sc_send_sender c) js;
          con = set_spi (pss_output (sc_send_sender c)) (sc_con c);
          (con, js) = BConnection_SendAsync_Free con js;
          (con, js) = BConnection_RecvAsync_Free con js
      in (c\<lparr>sc_con := con\<rparr>, js))"

definition init_up_io :: "'j BSocksClient \<Rightarrow> 'j jobs \<Rightarrow> 'j BSocksClient \<times> 'j jobs" where
  "init_up_io c js =
     (let (con, js) = BConnection_RecvAsync_Init (sc_con c) js;
          (con, js) = BConnection_SendAsync_Init con js
      in (c\<lparr>sc_con := con\<rparr>, js))"

definition free_up_io :: "'j BSocksClient \<Rightarrow> 'j jobs \<Rightarrow> 'j BSocksClient \<times> 'j jobs" where
  "free_up_io c js =
     (let (con, js) = BConnection_SendAsync_Free (sc_con c) js;
          (con, js) = BConnection_RecvAsync_Free con js
      in (c\<lparr>sc_con := con\<rparr>, js))"

definition reserve_buffer :: "realloc \<Rightarrow> 64 bsize \<Rightarrow> 'j BSocksClient \<Rightarrow> 'j BSocksClient option" where
  "reserve_buffer ralloc sz c =
     (if is_overflow sz then None
      else case Option.bind (BRealloc (bs_value sz)) (\<lambda>n. ralloc (sc_buffer c) (unat n)) of
             None \<Rightarrow> None
           | Some buffer \<Rightarrow> Some (c\<lparr>sc_buffer := Some buffer\<rparr>))"

definition do_receive :: "'j BSocksClient \<Rightarrow> 'j jobs \<Rightarrow> 'j BSocksClient \<times> 'j jobs" where
  "do_receive c js =
     (let (i, js) = StreamRecvInterface_Receiver_Recv (sc_recv_dest c + sc_recv_len c)
            (sc_recv_total c - sc_recv_len c) (sc_recv_if c) js
      in (set_recv_if i c, js))"

definition start_receive :: "int \<Rightarrow> int \<Rightarrow> 'j BSocksClient \<Rightarrow> 'j jobs \<Rightarrow> 'j BSocksClient \<times> 'j jobs" where
  "start_receive dest tot c js =
     (let c = c\<lparr>sc_recv_dest := dest, sc_recv_len := 0, sc_recv_total := tot\<rparr> in do_receive c js)"

text \<open>\<open>PacketPassInterface_Sender_Send\<close> of the first \<open>sz\<close> bytes of the buffer.\<close>

definition send_buffer :: "64 bsize \<Rightarrow> 'j BSocksClient \<Rightarrow> 'j jobs \<Rightarrow> 'j BSocksClient \<times> 'j jobs" where
  "send_buffer sz c js =
     (let (i, js) = PacketPassInterface_Sender_Send 0 (uint (bs_value sz)) (sc_send_if c) js
      in (set_send_if i c, js))"

definition memcpy_buffer :: "nat \<Rightarrow> byte list \<Rightarrow> 'j BSocksClient \<Rightarrow> 'j BSocksClient" where
  "memcpy_buffer off bs c = c\<lparr>sc_buffer := map_option (splice off bs) (sc_buffer c)\<rparr>"

fun write_methods :: "nat \<Rightarrow> BSocksClient_auth_info list \<Rightarrow> 'j BSocksClient \<Rightarrow> 'j BSocksClient" where
  "write_methods i [] c = c"
| "write_methods i (ai # ais) c = write_methods (i + 1) ais (memcpy_buffer (2 + i * 1) [hton8 (of_int (auth_type ai))] c)"

text \<open>
  The second half of \<open>connector_handler\<close>: the number of methods is checked, the hello message is
  written and sent; \<open>None\<close> is the jump to \<open>fail1\<close>.
\<close>

definition send_hello :: "realloc \<Rightarrow> 'j BSocksClient \<Rightarrow> 'j jobs \<Rightarrow> ('j BSocksClient \<times> 'j jobs) option" where
  "send_hello ralloc c js =
     (let num = length (sc_auth_info c) in
      if num = 0 \<or> num > 255 then None
      else
        let sz = bsize_add (bsize_fromsize sizeof_socks_client_hello_header)
              (bsize_mul (bsize_fromsize (of_nat num)) (bsize_fromsize sizeof_socks_client_hello_method))
        in (case reserve_buffer ralloc sz c of
              None \<Rightarrow> None
            | Some c \<Rightarrow>
                let c = memcpy_buffer 0 (socks_client_hello_header (hton8 SOCKS_VERSION) (hton8 (of_nat num))) c;
                    c = write_methods 0 (sc_auth_info c) c;
                    (c, js) = send_buffer sz c js
                in Some (c\<lparr>sc_state := STATE_SENDING_HELLO\<rparr>, js)))"

definition connector_handler ::
  "sock_sys \<Rightarrow> realloc \<Rightarrow> bool \<Rightarrow> 'j BSocksClient \<Rightarrow> 'j jobs \<Rightarrow> fds \<Rightarrow>
   'j BSocksClient \<times> 'j jobs \<times> fds \<times> socks_event option" where
  "connector_handler sys ralloc is_error c js fds =
     (if is_error then (c, js, fds, Some BSOCKSCLIENT_EVENT_ERROR)
      else
        let (con, source, _, js, fds) =
              BConnection_Init sys (BCONNECTION_SOURCE_TYPE_CONNECTOR (sc_connector c)) (sc_con c) js fds;
            c = (case source of BCONNECTION_SOURCE_TYPE_CONNECTOR cn \<Rightarrow> c\<lparr>sc_connector := cn\<rparr> | _ \<Rightarrow> c)
        in case con of
             None \<Rightarrow> (c, js, fds, Some BSOCKSCLIENT_EVENT_ERROR)
           | Some con \<Rightarrow>
               let (c, js) = init_control_io (c\<lparr>sc_con := con\<rparr>) js
               in (case send_hello ralloc c js of
                     None \<Rightarrow>
                       let (c, js) = free_control_io c js;
                           (con, fds) = BConnection_Free (sc_con c) fds
                       in (c\<lparr>sc_con := con\<rparr>, js, fds, Some BSOCKSCLIENT_EVENT_ERROR)
                   | Some (c, js) \<Rightarrow> (c, js, fds, None)))"

definition socks_connection_handler :: "con_event \<Rightarrow> 'j BSocksClient \<Rightarrow> socks_event" where
  "socks_connection_handler event c =
     (if sc_state c = STATE_UP \<and> event = BCONNECTION_EVENT_RECVCLOSED
      then BSOCKSCLIENT_EVENT_ERROR_CLOSED else BSOCKSCLIENT_EVENT_ERROR)"

definition auth_finished :: "realloc \<Rightarrow> 'j BSocksClient \<Rightarrow> 'j jobs \<Rightarrow> 'j sc_result" where
  "auth_finished ralloc c js =
     (let sz = bsize_fromsize sizeof_socks_request_header;
          sz = (case sc_dest_addr c of
                  BADDR_IPV4 _ _ \<Rightarrow> bsize_add sz (bsize_fromsize sizeof_socks_addr_ipv4)
                | BADDR_IPV6 _ _ \<Rightarrow> bsize_add sz (bsize_fromsize sizeof_socks_addr_ipv6)
                | _ \<Rightarrow> sz)
      in case reserve_buffer ralloc sz c of
           None \<Rightarrow> (c, js, Some BSOCKSCLIENT_EVENT_ERROR)
         | Some c \<Rightarrow>
             let (c, atyp) =
                   (case sc_dest_addr c of
                      BADDR_IPV4 ip port \<Rightarrow> (memcpy_buffer 4 (socks_addr_ipv4 ip port) c, hton8 SOCKS_ATYP_IPV4)
                    | BADDR_IPV6 ip port \<Rightarrow> (memcpy_buffer 4 (socks_addr_ipv6 ip port) c, hton8 SOCKS_ATYP_IPV6)
                    | _ \<Rightarrow> (c, 0));
                 c = memcpy_buffer 0
                       (socks_request_header (hton8 SOCKS_VERSION) (hton8 SOCKS_CMD_CONNECT) (hton8 0) atyp) c;
                 (c, js) = send_buffer sz c js
             in (c\<lparr>sc_state := STATE_SENDING_REQUEST\<rparr>, js, None))"

text \<open>The index of the first authentication method of the given type, or the number of methods.\<close>

fun auth_index :: "int \<Rightarrow> BSocksClient_auth_info list \<Rightarrow> nat" where
  "auth_index method [] = 0"
| "auth_index method (ai # ais) = (if auth_type ai = method then 0 else auth_index method ais + 1)"

definition write_password :: "BSocksClient_auth_info \<Rightarrow> 'j BSocksClient \<Rightarrow> 'j BSocksClient" where
  "write_password ai c =
     (let ul = length (auth_username ai);
          pl = length (auth_password ai);
          c = memcpy_buffer 0 [1] c;
          c = memcpy_buffer 1 [of_nat ul] c;
          c = memcpy_buffer 2 (auth_username ai) c;
          c = memcpy_buffer (2 + ul) [of_nat pl] c
      in memcpy_buffer (3 + ul) (auth_password ai) c)"

definition send_password :: "realloc \<Rightarrow> BSocksClient_auth_info \<Rightarrow> 'j BSocksClient \<Rightarrow> 'j jobs \<Rightarrow> 'j sc_result" where
  "send_password ralloc ai c js =
     (let sz = bsize_fromsize (1 + 1 + of_nat (length (auth_username ai)) + 1 + of_nat (length (auth_password ai)))
      in case reserve_buffer ralloc sz c of
           None \<Rightarrow> (c, js, Some BSOCKSCLIENT_EVENT_ERROR)
         | Some c \<Rightarrow>
             let c = write_password ai c;
                 (c, js) = send_buffer sz c js
             in (c\<lparr>sc_state := STATE_SENDING_PASSWORD\<rparr>, js, None))"

text \<open>The cases of \<open>recv_handler_done\<close>, on the buffer that has been filled.\<close>

definition received_hello :: "realloc \<Rightarrow> byte list \<Rightarrow> 'j BSocksClient \<Rightarrow> 'j jobs \<Rightarrow> 'j sc_result" where
  "received_hello ralloc buf c js =
     (let ver = buf ! 0; method = buf ! 1; fail = (c, js, Some BSOCKSCLIENT_EVENT_ERROR) in
      if ntoh8 ver \<noteq> SOCKS_VERSION then fail
      else
        let i = auth_index (uint (ntoh8 method)) (sc_auth_info c) in
        if i = length (sc_auth_info c) then fail
        else
          let ai = sc_auth_info c ! i in
          if auth_type ai = SOCKS_METHOD_NO_AUTHENTICATION_REQUIRED then auth_finished ralloc c js
          else if auth_type ai = SOCKS_METHOD_USERNAME_PASSWORD then
            (let ul = length (auth_username ai); pl = length (auth_password ai) in
             if ul = 0 \<or> ul > 255 \<or> pl = 0 \<or> pl > 255 then fail
             else send_password ralloc ai c js)
          else (c, js, None))"

definition received_reply_header :: "byte list \<Rightarrow> 'j BSocksClient \<Rightarrow> 'j jobs \<Rightarrow> 'j sc_result" where
  "received_reply_header buf c js =
     (let ver = buf ! 0; rep = buf ! 1; atyp = buf ! 3; fail = (c, js, Some BSOCKSCLIENT_EVENT_ERROR) in
      if ntoh8 ver \<noteq> SOCKS_VERSION then fail
      else if ntoh8 rep \<noteq> SOCKS_REP_SUCCEEDED then fail
      else if ntoh8 atyp \<noteq> SOCKS_ATYP_IPV4 \<and> ntoh8 atyp \<noteq> SOCKS_ATYP_IPV6 then fail
      else
        let addr_len = uint (if ntoh8 atyp = SOCKS_ATYP_IPV4 then sizeof_socks_addr_ipv4 else sizeof_socks_addr_ipv6);
            (c, js) = start_receive (0 + 4) addr_len c js
        in (c\<lparr>sc_state := STATE_RECEIVED_REPLY_HEADER\<rparr>, js, None))"

definition received_password_reply :: "realloc \<Rightarrow> byte list \<Rightarrow> 'j BSocksClient \<Rightarrow> 'j jobs \<Rightarrow> 'j sc_result" where
  "received_password_reply ralloc buf c js =
     (if buf ! 0 \<noteq> 1 then (c, js, Some BSOCKSCLIENT_EVENT_ERROR)
      else if buf ! 1 \<noteq> 0 then (c, js, Some BSOCKSCLIENT_EVENT_ERROR)
      else auth_finished ralloc c js)"

definition received_reply_rest :: "'j BSocksClient \<Rightarrow> 'j jobs \<Rightarrow> 'j sc_result" where
  "received_reply_rest c js =
     (let c = c\<lparr>sc_buffer := None\<rparr>;
          (c, js) = free_control_io c js;
          (c, js) = init_up_io c js
      in (c\<lparr>sc_state := STATE_UP\<rparr>, js, Some BSOCKSCLIENT_EVENT_UP))"

definition recv_handler_done :: "realloc \<Rightarrow> int \<Rightarrow> 'j BSocksClient \<Rightarrow> 'j jobs \<Rightarrow> 'j sc_result" where
  "recv_handler_done ralloc data_len c js =
     (let c = c\<lparr>sc_recv_len := sc_recv_len c + data_len\<rparr> in
      if sc_recv_len c < sc_recv_total c then
        (let (c, js) = do_receive c js in (c, js, None))
      else
        (case sc_state c of
           STATE_SENT_HELLO \<Rightarrow> received_hello ralloc (the (sc_buffer c)) c js
         | STATE_SENT_REQUEST \<Rightarrow> received_reply_header (the (sc_buffer c)) c js
         | STATE_SENT_PASSWORD \<Rightarrow> received_password_reply ralloc (the (sc_buffer c)) c js
         | STATE_RECEIVED_REPLY_HEADER \<Rightarrow> received_reply_rest c js
         | _ \<Rightarrow> (c, js, None)))"

text \<open>Allocating \<open>sz\<close> bytes and receiving the first \<open>n\<close> of them; then the new state is set.\<close>

definition receive_into :: "realloc \<Rightarrow> 64 bsize \<Rightarrow> u64 \<Rightarrow> socks_state \<Rightarrow> 'j BSocksClient \<Rightarrow> 'j jobs \<Rightarrow> 'j sc_result" where
  "receive_into ralloc sz n st c js =
     (case reserve_buffer ralloc sz c of
        None \<Rightarrow> (c, js, Some BSOCKSCLIENT_EVENT_ERROR)
      | Some c \<Rightarrow> (let (c, js) = start_receive 0 (uint n) c js in (c\<lparr>sc_state := st\<rparr>, js, None)))"

definition send_handler_done :: "realloc \<Rightarrow> 'j BSocksClient \<Rightarrow> 'j jobs \<Rightarrow> 'j sc_result" where
  "send_handler_done ralloc c js =
     (case sc_state c of
        STATE_SENDING_HELLO \<Rightarrow>
          (let sz = bsize_fromsize sizeof_socks_server_hello
           in receive_into ralloc sz (bs_value sz) STATE_SENT_HELLO c js)
      | STATE_SENDING_REQUEST \<Rightarrow>
          (let sz = bsize_add (bsize_fromsize sizeof_socks_reply_header)
                 (bsize_max (bsize_fromsize sizeof_socks_addr_ipv4) (bsize_fromsize sizeof_socks_addr_ipv6))
           in receive_into ralloc sz sizeof_socks_reply_header STATE_SENT_REQUEST c js)
      | STATE_SENDING_PASSWORD \<Rightarrow>
          (let sz = bsize_fromsize 2
           in receive_into ralloc sz (bs_value sz) STATE_SENT_PASSWORD c js)
      | _ \<Rightarrow> (c, js, None))"

definition BSocksClient_auth_none :: "BSocksClient_auth_info \<Rightarrow> BSocksClient_auth_info" where
  "BSocksClient_auth_none info = info\<lparr>auth_type := SOCKS_METHOD_NO_AUTHENTICATION_REQUIRED\<rparr>"

definition BSocksClient_auth_password :: "byte list \<Rightarrow> byte list \<Rightarrow> BSocksClient_auth_info" where
  "BSocksClient_auth_password username password =
     \<lparr>auth_type = SOCKS_METHOD_USERNAME_PASSWORD, auth_username = username, auth_password = password\<rparr>"

definition BSocksClient_Init ::
  "sock_sys \<Rightarrow> BAddr \<Rightarrow> BSocksClient_auth_info list \<Rightarrow> BAddr \<Rightarrow> 'j BSocksClient \<Rightarrow> 'j jobs \<Rightarrow> fds \<Rightarrow>
   'j BSocksClient option \<times> 'j jobs \<times> fds" where
  "BSocksClient_Init sys server_addr auth_info dest_addr c js fds =
     (let c = c\<lparr>sc_auth_info := auth_info, sc_dest_addr := dest_addr, sc_buffer := None\<rparr>;
          (cn, js, fds) = BConnector_Init sys server_addr (sc_connector c) js fds
      in case cn of
           None \<Rightarrow> (None, js, fds)
         | Some cn \<Rightarrow> (Some (c\<lparr>sc_connector := cn, sc_state := STATE_CONNECTING\<rparr>), js, fds))"

definition BSocksClient_Free :: "'j BSocksClient \<Rightarrow> 'j jobs \<Rightarrow> fds \<Rightarrow> 'j BSocksClient \<times> 'j jobs \<times> fds" where
  "BSocksClient_Free c js fds =
     (let (c, js, fds) =
            (if sc_state c \<noteq> STATE_CONNECTING then
               (let (c, js) = (if sc_state c = STATE_UP then free_up_io c js else free_control_io c js);
                    (con, fds) = BConnection_Free (sc_con c) fds
                in (c\<lparr>sc_con := con\<rparr>, js, fds))
             else (c, js, fds));
          (cn, js, fds) = BConnector_Free (sc_connector c) js fds;
          c = c\<lparr>sc_connector := cn\<rparr>
      in (case sc_buffer c of None \<Rightarrow> c | Some _ \<Rightarrow> c\<lparr>sc_buffer := None\<rparr>, js, fds))"


section \<open>Dialogue\<close>

text \<open>The messages of the client.\<close>

definition hello_msg :: "BSocksClient_auth_info list \<Rightarrow> byte list" where
  "hello_msg ais = [5, of_nat (length ais)] @ map (\<lambda>ai. of_int (auth_type ai)) ais"

definition password_msg :: "BSocksClient_auth_info \<Rightarrow> byte list" where
  "password_msg ai = [1, of_nat (length (auth_username ai))] @ auth_username ai @
     [of_nat (length (auth_password ai))] @ auth_password ai"

fun request_msg :: "BAddr \<Rightarrow> byte list" where
  "request_msg (BADDR_IPV4 ip port) = [5, 1, 0, 1] @ mem32 ip @ mem16 port"
| "request_msg (BADDR_IPV6 ip port) = [5, 1, 0, 4] @ ip @ mem16 port"
| "request_msg _ = []"

definition valid_password :: "BSocksClient_auth_info \<Rightarrow> bool" where
  "valid_password ai \<longleftrightarrow> length (auth_username ai) \<in> {1..255} \<and> length (auth_password ai) \<in> {1..255}"

text \<open>
  What has been received, and what has been sent or is being sent, when the client has completed the
  step that leads to a state.
\<close>

inductive dialogue :: "BSocksClient_auth_info list \<Rightarrow> BAddr \<Rightarrow> socks_state \<Rightarrow> byte list \<Rightarrow> byte list \<Rightarrow> bool"
  for ais :: "BSocksClient_auth_info list" and dest :: BAddr where
  d_hello: "dialogue ais dest STATE_SENDING_HELLO [] (hello_msg ais)"
| d_hello_sent: "dialogue ais dest STATE_SENDING_HELLO i u \<Longrightarrow> dialogue ais dest STATE_SENT_HELLO i u"
| d_no_auth: "dialogue ais dest STATE_SENT_HELLO i u \<Longrightarrow> \<exists>ai \<in> set ais. auth_type ai = 0 \<Longrightarrow>
    dialogue ais dest STATE_SENDING_REQUEST (i @ [5, 0]) (u @ request_msg dest)"
| d_password: "dialogue ais dest STATE_SENT_HELLO i u \<Longrightarrow> ai \<in> set ais \<Longrightarrow> auth_type ai = 2 \<Longrightarrow> valid_password ai \<Longrightarrow>
    dialogue ais dest STATE_SENDING_PASSWORD (i @ [5, 2]) (u @ password_msg ai)"
| d_password_sent: "dialogue ais dest STATE_SENDING_PASSWORD i u \<Longrightarrow> dialogue ais dest STATE_SENT_PASSWORD i u"
| d_password_ok: "dialogue ais dest STATE_SENT_PASSWORD i u \<Longrightarrow>
    dialogue ais dest STATE_SENDING_REQUEST (i @ [1, 0]) (u @ request_msg dest)"
| d_request_sent: "dialogue ais dest STATE_SENDING_REQUEST i u \<Longrightarrow> dialogue ais dest STATE_SENT_REQUEST i u"
| d_reply: "dialogue ais dest STATE_SENT_REQUEST i u \<Longrightarrow> atyp = 1 \<or> atyp = 4 \<Longrightarrow>
    dialogue ais dest STATE_RECEIVED_REPLY_HEADER (i @ [5, 0, rsv, atyp]) u"
| d_up: "dialogue ais dest STATE_RECEIVED_REPLY_HEADER i u \<Longrightarrow> length a = (if last i = 1 then 6 else 18) \<Longrightarrow>
    dialogue ais dest STATE_UP (i @ a) u"

inductive_cases dialogue_upE: "dialogue ais dest STATE_UP i u"
inductive_cases dialogue_replyE: "dialogue ais dest STATE_RECEIVED_REPLY_HEADER i u"
inductive_cases dialogue_sent_requestE: "dialogue ais dest STATE_SENT_REQUEST i u"
inductive_cases dialogue_requestE: "dialogue ais dest STATE_SENDING_REQUEST i u"
inductive_cases dialogue_sent_passwordE: "dialogue ais dest STATE_SENT_PASSWORD i u"
inductive_cases dialogue_passwordE: "dialogue ais dest STATE_SENDING_PASSWORD i u"
inductive_cases dialogue_sent_helloE: "dialogue ais dest STATE_SENT_HELLO i u"
inductive_cases dialogue_helloE: "dialogue ais dest STATE_SENDING_HELLO i u"
inductive_cases dialogue_connectingE: "dialogue ais dest STATE_CONNECTING i u"

lemma dialogue_hello: "dialogue ais dest STATE_SENT_HELLO i u \<Longrightarrow> i = [] \<and> u = hello_msg ais"
  by (elim dialogue_sent_helloE dialogue_helloE) simp

lemma dialogue_password:
  "dialogue ais dest STATE_SENT_PASSWORD i u \<Longrightarrow>
   \<exists>ai \<in> set ais. auth_type ai = 2 \<and> valid_password ai \<and> i = [5, 2] \<and> u = hello_msg ais @ password_msg ai"
  by (elim dialogue_sent_passwordE dialogue_passwordE) (use dialogue_hello in fastforce)

lemma dialogue_request:
  "dialogue ais dest STATE_SENDING_REQUEST i u \<Longrightarrow>
   (\<exists>ai \<in> set ais. auth_type ai = 0) \<and> i = [5, 0] \<and> u = hello_msg ais @ request_msg dest \<or>
   (\<exists>ai \<in> set ais. auth_type ai = 2 \<and> valid_password ai \<and> i = [5, 2, 1, 0] \<and>
      u = hello_msg ais @ password_msg ai @ request_msg dest)"
  by (elim dialogue_requestE) (use dialogue_hello dialogue_password in fastforce)+

text \<open>The two complete dialogues.\<close>

lemma dialogue_up:
  assumes "dialogue ais dest STATE_UP i u"
  shows "\<exists>rsv atyp a. (atyp = 1 \<and> length a = 6 \<or> atyp = 4 \<and> length a = 18) \<and>
    ((\<exists>ai \<in> set ais. auth_type ai = 0) \<and> i = [5, 0] @ [5, 0, rsv, atyp] @ a \<and> u = hello_msg ais @ request_msg dest \<or>
     (\<exists>ai \<in> set ais. auth_type ai = 2 \<and> valid_password ai \<and> i = [5, 2] @ [1, 0] @ [5, 0, rsv, atyp] @ a \<and>
        u = hello_msg ais @ password_msg ai @ request_msg dest))"
proof -
  from assms obtain i1 a where 1: "dialogue ais dest STATE_RECEIVED_REPLY_HEADER i1 u"
      "length a = (if last i1 = 1 then 6 else 18)" "i = i1 @ a"
    by (elim dialogue_upE) blast
  from 1(1) obtain i2 rsv atyp where 2: "dialogue ais dest STATE_SENT_REQUEST i2 u" "atyp = 1 \<or> atyp = 4"
      "i1 = i2 @ [5, 0, rsv, atyp]"
    by (elim dialogue_replyE) blast
  have len: "atyp = 1 \<and> length a = 6 \<or> atyp = 4 \<and> length a = 18" using 1(2) 2(2,3) by auto
  from 2(1) have "dialogue ais dest STATE_SENDING_REQUEST i2 u" by (elim dialogue_sent_requestE)
  then have "(\<exists>ai \<in> set ais. auth_type ai = 0) \<and> i = [5, 0] @ [5, 0, rsv, atyp] @ a \<and> u = hello_msg ais @ request_msg dest \<or>
     (\<exists>ai \<in> set ais. auth_type ai = 2 \<and> valid_password ai \<and> i = [5, 2] @ [1, 0] @ [5, 0, rsv, atyp] @ a \<and>
        u = hello_msg ais @ password_msg ai @ request_msg dest)"
    unfolding 1(3) 2(3) by (auto dest: dialogue_request)
  with len show ?thesis by blast
qed


section \<open>Runs\<close>

definition realloc_ok :: "realloc \<Rightarrow> bool" where
  "realloc_ok ralloc \<longleftrightarrow> (\<forall>m n b. ralloc m n = Some b \<longrightarrow> length b = n)"

type_synonym 'j sc_world = "'j BSocksClient \<times> 'j jobs \<times> fds \<times> socks_event option"

definition sc_finish :: "fds \<Rightarrow> 'j sc_result \<Rightarrow> 'j sc_world" where
  "sc_finish fds = (\<lambda>(c, js, ev). (c, js, fds, ev))"

abbreviation in_handshake :: "'j BSocksClient \<Rightarrow> bool" where
  "in_handshake c \<equiv> sc_state c \<noteq> STATE_CONNECTING \<and> sc_state c \<noteq> STATE_UP"

text \<open>
  The steps of a client until it reports an event, with the bytes it receives and sends: the
  connection attempt ends; the packet stream sender and the provider of its stream advance; a
  message has been sent; the receive operation is started, the connection stores bytes at its
  destination, the operation completes; or the connection reports an error.
\<close>

inductive socks_step :: "'j sc_world \<Rightarrow> byte list \<Rightarrow> byte list \<Rightarrow> 'j sc_world \<Rightarrow> bool" where
  sc_connect_fd: "sc_state c = STATE_CONNECTING \<Longrightarrow> cn_have_bfd (sc_connector c) \<Longrightarrow>
    connector_fd_handler sys events (sc_connector c) = (cn, is_error) \<Longrightarrow> realloc_ok ralloc \<Longrightarrow>
    socks_step (c, [], fds, None) [] [] (connector_handler sys ralloc is_error (c\<lparr>sc_connector := cn\<rparr>) [] fds)"
| sc_connect_job: "sc_state c = STATE_CONNECTING \<Longrightarrow>
    connector_job_handler (sc_connector c) = (cn, is_error) \<Longrightarrow> realloc_ok ralloc \<Longrightarrow>
    socks_step (c, cn_job (sc_connector c) # js, fds, None) [] []
      (connector_handler sys ralloc is_error (c\<lparr>sc_connector := cn\<rparr>) js fds)"
| sc_sender: "in_handshake c \<Longrightarrow> sc_buffer c = Some buf \<Longrightarrow> ppi_state (sc_send_if c) \<noteq> STATE_DONE_PENDING \<Longrightarrow>
    pss_step (sc_send_sender c, buf, js) [] u (s, buf, js') \<Longrightarrow>
    socks_step (c, js, fds, None) [] u (c\<lparr>sc_send_sender := s\<rparr>, js', fds, None)"
| sc_sent: "in_handshake c \<Longrightarrow> PacketPassInterface_job_done (sc_send_if c) = i \<Longrightarrow> realloc_ok ralloc \<Longrightarrow>
    socks_step (c, ppi_job_done (sc_send_if c) # js, fds, None) [] []
      (sc_finish fds (send_handler_done ralloc (set_send_if i c) js))"
| sc_recv_op: "in_handshake c \<Longrightarrow> StreamRecvInterface_job_operation (sc_recv_if c) = (i, p, n) \<Longrightarrow>
    socks_step (c, sri_job_operation (sc_recv_if c) # js, fds, None) [] [] (set_recv_if i c, js, fds, None)"
| sc_recv_ready: "in_handshake c \<Longrightarrow> sri_state (sc_recv_if c) = STATE_BUSY \<Longrightarrow> sc_buffer c = Some buf \<Longrightarrow>
    0 < length d \<Longrightarrow> int (length d) \<le> sri_job_operation_len (sc_recv_if c) \<Longrightarrow>
    StreamRecvInterface_Done (int (length d)) (sc_recv_if c) js = (i, js') \<Longrightarrow>
    socks_step (c, js, fds, None) d []
      (set_recv_if i (c\<lparr>sc_buffer := Some (splice (nat (sri_job_operation_data (sc_recv_if c))) d buf)\<rparr>), js', fds, None)"
| sc_recv_done: "in_handshake c \<Longrightarrow> StreamRecvInterface_job_done (sc_recv_if c) = (i, n) \<Longrightarrow> realloc_ok ralloc \<Longrightarrow>
    socks_step (c, sri_job_done (sc_recv_if c) # js, fds, None) [] []
      (sc_finish fds (recv_handler_done ralloc n (set_recv_if i c) js))"
| sc_con_event: "in_handshake c \<Longrightarrow> socks_step (c, js, fds, None) [] [] (c, js, fds, Some (socks_connection_handler event c))"

inductive socks_run :: "'j sc_world \<Rightarrow> byte list \<Rightarrow> byte list \<Rightarrow> 'j sc_world \<Rightarrow> bool" where
  sc_nil: "socks_run w [] [] w"
| sc_snoc: "socks_run w ins outs w' \<Longrightarrow> socks_step w' i u w'' \<Longrightarrow> socks_run w (ins @ i) (outs @ u) w''"


section \<open>Invariant\<close>

definition sc_queue :: "'j BSocksClient \<Rightarrow> 'j jobs \<Rightarrow> bool" where
  "sc_queue c js \<longleftrightarrow>
     distinct js \<and>
     distinct (pss_jobs (sc_send_sender c) @ [sri_job_operation (sc_recv_if c), sri_job_done (sc_recv_if c)]) \<and>
     (sri_job_operation (sc_recv_if c) \<in> set js \<longleftrightarrow> sri_state (sc_recv_if c) = STATE_OPERATION_PENDING) \<and>
     (sri_job_done (sc_recv_if c) \<in> set js \<longleftrightarrow> sri_state (sc_recv_if c) = STATE_DONE_PENDING)"

definition sender_idle :: "'j BSocksClient \<Rightarrow> 'j jobs \<Rightarrow> bool" where
  "sender_idle c js \<longleftrightarrow>
     pss_queue (sc_send_sender c) js \<and> ppi_state (sc_send_if c) = STATE_NONE \<and>
     spi_state (pss_output (sc_send_sender c)) = STATE_NONE \<and> pss_in_len (sc_send_sender c) = -1"

text \<open>Neither sending nor receiving.\<close>

definition sc_idle :: "'j BSocksClient \<Rightarrow> 'j jobs \<Rightarrow> bool" where
  "sc_idle c js \<longleftrightarrow> sc_queue c js \<and> sender_idle c js \<and> sri_state (sc_recv_if c) = STATE_NONE"

definition sc_sending :: "'j BSocksClient \<Rightarrow> 'j jobs \<Rightarrow> byte list \<Rightarrow> byte list \<Rightarrow> bool" where
  "sc_sending c js ins outs \<longleftrightarrow>
     (\<exists>buf. sc_buffer c = Some buf \<and> sc_queue c js \<and> pss_inv (sc_send_sender c, buf, js) \<and>
        ppi_state (sc_send_if c) \<noteq> STATE_NONE \<and> sri_state (sc_recv_if c) = STATE_NONE \<and>
        sc_state c \<in> {STATE_SENDING_HELLO, STATE_SENDING_PASSWORD, STATE_SENDING_REQUEST} \<and>
        dialogue (sc_auth_info c) (sc_dest_addr c) (sc_state c) ins (outs @ pss_rest (sc_send_sender c) buf))"

text \<open>
  The shape of a receive: where it starts, its length, the size of the buffer; and the bytes that
  the operation in progress has already stored.
\<close>

fun recv_shape :: "socks_state \<Rightarrow> byte list \<Rightarrow> (nat \<times> nat \<times> nat) option" where
  "recv_shape STATE_SENT_HELLO i = Some (0, 2, 2)"
| "recv_shape STATE_SENT_PASSWORD i = Some (0, 2, 2)"
| "recv_shape STATE_SENT_REQUEST i = Some (0, 4, 22)"
| "recv_shape STATE_RECEIVED_REPLY_HEADER i = Some (4, if last i = 1 then 6 else 18, 22)"
| "recv_shape _ i = None"

definition recv_got :: "'j BSocksClient \<Rightarrow> nat" where
  "recv_got c = nat (sc_recv_len c) +
     (if sri_state (sc_recv_if c) = STATE_DONE_PENDING then nat (sri_job_done_len (sc_recv_if c)) else 0)"

definition sc_receiving :: "'j BSocksClient \<Rightarrow> 'j jobs \<Rightarrow> byte list \<Rightarrow> byte list \<Rightarrow> bool" where
  "sc_receiving c js ins outs \<longleftrightarrow>
     sc_queue c js \<and> sender_idle c js \<and> sri_state (sc_recv_if c) \<noteq> STATE_NONE \<and>
     (\<exists>buf dest tot i0. sc_buffer c = Some buf \<and> recv_shape (sc_state c) i0 = Some (dest, tot, length buf) \<and>
        dialogue (sc_auth_info c) (sc_dest_addr c) (sc_state c) i0 outs \<and>
        sc_recv_dest c = int dest \<and> sc_recv_total c = int tot \<and>
        0 \<le> sc_recv_len c \<and> sc_recv_len c < sc_recv_total c \<and>
        sri_job_operation_data (sc_recv_if c) = sc_recv_dest c + sc_recv_len c \<and>
        sri_job_operation_len (sc_recv_if c) = sc_recv_total c - sc_recv_len c \<and>
        (sri_state (sc_recv_if c) = STATE_DONE_PENDING \<longrightarrow> 0 < sri_job_done_len (sc_recv_if c) \<and>
           sri_job_done_len (sc_recv_if c) \<le> sri_job_operation_len (sc_recv_if c)) \<and>
        ins = i0 @ slice dest (recv_got c) buf)"

lemma sc_idle_cong:
  "sc_send_sender c' = sc_send_sender c \<Longrightarrow> sc_con c' = sc_con c \<Longrightarrow> sc_idle c' js = sc_idle c js"
  by (simp add: sc_idle_def sc_queue_def sender_idle_def)

lemma reserve_buffer_Some:
  assumes "reserve_buffer ralloc sz c = Some c'" and "bsize_abs sz = Some n" and "realloc_ok ralloc" and "0 < n"
  shows "\<exists>b. length b = n \<and> c' = c\<lparr>sc_buffer := Some b\<rparr>"
  using assms by (auto simp: reserve_buffer_def bsize_abs_def BRealloc_def realloc_ok_def
      split: if_splits option.splits bind_splits)

lemma reserve_buffer_dest:
  "reserve_buffer ralloc sz c = Some c' \<Longrightarrow> sc_dest_addr c' = sc_dest_addr c"
  by (auto simp: reserve_buffer_def split: if_splits option.splits)

text \<open>Starting to send the buffer, and starting to receive into it.\<close>

lemma send_buffer_sending:
  assumes idle: "sc_idle c js" and buf: "sc_buffer c = Some buf" and sz: "bsize_abs sz = Some (length buf)"
    and send: "send_buffer sz c js = (c', js')"
    and st: "st \<in> {STATE_SENDING_HELLO, STATE_SENDING_PASSWORD, STATE_SENDING_REQUEST}"
    and dial: "dialogue (sc_auth_info c) (sc_dest_addr c) st ins (outs @ buf)"
  shows "sc_sending (c'\<lparr>sc_state := st\<rparr>) js' ins outs"
proof -
  define s where "s = sc_send_sender c"
  define n where "n = uint (bs_value sz)"
  have "length buf = unat (bs_value sz)" using sz by (simp add: bsize_abs_def split: if_splits)
  then have n: "n = int (length buf)" by (simp add: n_def)
  define i where "i = (pss_input s)\<lparr>ppi_job_operation_data := 0, ppi_job_operation_len := n,
      ppi_state := STATE_OPERATION_PENDING, ppi_cancel_requested := False\<rparr>"
  have c': "c' = c\<lparr>sc_send_sender := s\<lparr>pss_input := i\<rparr>\<rparr>" "js' = BPending_Set (ppi_job_operation (pss_input s)) js"
    using send by (auto simp: send_buffer_def PacketPassInterface_Sender_Send_def s_def i_def n_def)
  have inv: "pss_inv (s, buf, js)" and none: "ppi_state (pss_input s) = STATE_NONE"
    using idle by (simp_all add: sc_idle_def sender_idle_def pss_inv_def s_def)
  have P: "pss_inv (s\<lparr>pss_input := i\<rparr>, buf, js') \<and> pss_rest (s\<lparr>pss_input := i\<rparr>) buf = mem_at 0 n buf"
    using pss_user_send [OF inv none, of 0 n buf] n by (simp add: i_def c'(2))
  have "sc_queue c' js'" using idle
    by (auto simp: sc_queue_def sc_idle_def c' pss_jobs_def i_def s_def job_simps)
  then have q: "sc_queue (c'\<lparr>sc_state := st\<rparr>) js'" by (simp add: sc_queue_def)
  have "mem_at 0 n buf = buf" using n by (simp add: slice_0)
  moreover have "sri_state (sc_recv_if c) = STATE_NONE" using idle by (simp add: sc_idle_def)
  ultimately show ?thesis unfolding sc_sending_def
    using P q buf st dial by (intro exI [of _ buf] conjI) (simp_all add: c' i_def)
qed

lemma sender_idle_Set:
  "sender_idle c js \<Longrightarrow> p \<notin> set (pss_jobs (sc_send_sender c)) \<Longrightarrow> sender_idle c (BPending_Set p js)"
  by (auto simp: sender_idle_def pss_queue_def pss_jobs_def job_simps)

lemma sender_idle_cong: "sc_send_sender c' = sc_send_sender c \<Longrightarrow> sender_idle c' js = sender_idle c js"
  by (simp add: sender_idle_def)

lemma do_receive_receiving:
  assumes idle: "sc_idle c js" and recv: "do_receive c js = (c', js')"
    and st: "sc_buffer c = Some buf" "recv_shape st i0 = Some (dest, tot, length buf)"
      "dialogue (sc_auth_info c) (sc_dest_addr c) st i0 outs" "sc_recv_dest c = int dest" "sc_recv_total c = int tot"
      "0 \<le> sc_recv_len c" "sc_recv_len c < sc_recv_total c" "ins = i0 @ slice dest (nat (sc_recv_len c)) buf"
  shows "sc_receiving (c'\<lparr>sc_state := st\<rparr>) js' ins outs"
proof -
  define i where "i = (sc_recv_if c)\<lparr>sri_job_operation_data := sc_recv_dest c + sc_recv_len c,
    sri_job_operation_len := sc_recv_total c - sc_recv_len c, sri_state := STATE_OPERATION_PENDING\<rparr>"
  have c': "c' = set_recv_if i c" "js' = BPending_Set (sri_job_operation (sc_recv_if c)) js"
    using recv by (auto simp: do_receive_def StreamRecvInterface_Receiver_Recv_def i_def)
  have I: "sc_queue c js" "sender_idle c js" "sri_state (sc_recv_if c) = STATE_NONE"
    using idle by (simp_all add: sc_idle_def)
  have "sc_queue (c'\<lparr>sc_state := st\<rparr>) js'" using I(1,3) by (auto simp: sc_queue_def c' i_def job_simps)
  moreover have "sri_job_operation (sc_recv_if c) \<notin> set (pss_jobs (sc_send_sender c))"
    using I(1) by (auto simp: sc_queue_def)
  then have "sender_idle (c'\<lparr>sc_state := st\<rparr>) js'" using sender_idle_Set [OF I(2)] by (simp add: c' sender_idle_def)
  ultimately show ?thesis unfolding sc_receiving_def
    using st by (simp add: c' i_def recv_got_def)
qed

text \<open>Messages built by consecutive copies into the buffer.\<close>

lemma splice_at_end: "k = length p \<Longrightarrow> splice k x (p @ r) = p @ x @ drop (length x) r"
  by (simp add: splice_def)

lemma splice_at_start: "splice 0 x r = x @ drop (length x) r"
  by (simp add: splice_def)

lemma write_methods_buffer:
  "sc_buffer c = Some (p @ r) \<Longrightarrow> length p = 2 + i \<Longrightarrow>
   write_methods i ais c = c\<lparr>sc_buffer := Some (p @ map (\<lambda>ai. of_int (auth_type ai)) ais @ drop (length ais) r)\<rparr>"
proof (induction ais arbitrary: i c p r)
  case (Cons ai ais)
  define c1 where "c1 = memcpy_buffer (2 + i * 1) [hton8 (of_int (auth_type ai))] c"
  have c1: "c1 = c\<lparr>sc_buffer := Some ((p @ [of_int (auth_type ai)]) @ drop 1 r)\<rparr>"
    using Cons.prems by (simp add: c1_def memcpy_buffer_def splice_at_end)
  have "write_methods (i + 1) ais c1 = c1\<lparr>sc_buffer := Some ((p @ [of_int (auth_type ai)]) @
      map (\<lambda>ai. of_int (auth_type ai)) ais @ drop (length ais) (drop 1 r))\<rparr>"
    by (rule Cons.IH) (use Cons.prems c1 in simp_all)
  then show ?case unfolding write_methods.simps c1_def [symmetric] by (simp add: c1)
qed simp

lemma hello_buffer:
  assumes "length b = 2 + length (sc_auth_info c)"
  shows "write_methods 0 (sc_auth_info c) (memcpy_buffer 0
      (socks_client_hello_header (hton8 SOCKS_VERSION) (hton8 (of_nat (length (sc_auth_info c))))) (c\<lparr>sc_buffer := Some b\<rparr>)) =
    c\<lparr>sc_buffer := Some (hello_msg (sc_auth_info c))\<rparr>"
proof -
  have "memcpy_buffer 0 (socks_client_hello_header (hton8 SOCKS_VERSION) (hton8 (of_nat (length (sc_auth_info c)))))
      (c\<lparr>sc_buffer := Some b\<rparr>) = c\<lparr>sc_buffer := Some ([5, of_nat (length (sc_auth_info c))] @ drop 2 b)\<rparr>"
    by (simp add: memcpy_buffer_def socks_client_hello_header_def splice_at_start numeral_2_eq_2)
  then show ?thesis using assms by (simp add: write_methods_buffer [of _ "[5, of_nat (length (sc_auth_info c))]" "drop 2 b"] hello_msg_def)
qed

lemma password_buffer:
  assumes "length b = 3 + length (auth_username ai) + length (auth_password ai)"
  shows "write_password ai (c\<lparr>sc_buffer := Some b\<rparr>) = c\<lparr>sc_buffer := Some (password_msg ai)\<rparr>"
proof -
  define u p where "u = auth_username ai" and "p = auth_password ai"
  have "splice 0 [1] b = [1] @ drop 1 b" by (simp add: splice_at_start)
  moreover have "splice 1 [of_nat (length u)] ([1] @ drop 1 b) = [1, of_nat (length u)] @ drop 2 b"
    by (subst splice_at_end) (simp_all add: numeral_2_eq_2)
  moreover have "splice 2 u ([1, of_nat (length u)] @ drop 2 b) = ([1, of_nat (length u)] @ u) @ drop (2 + length u) b"
    by (subst splice_at_end) (simp_all add: add.commute)
  moreover have "splice (2 + length u) [of_nat (length p)] (([1, of_nat (length u)] @ u) @ drop (2 + length u) b) =
      ([1, of_nat (length u)] @ u @ [of_nat (length p)]) @ drop (3 + length u) b"
    by (subst splice_at_end) (simp_all add: numeral_3_eq_3)
  moreover have "splice (3 + length u) p (([1, of_nat (length u)] @ u @ [of_nat (length p)]) @ drop (3 + length u) b) =
      [1, of_nat (length u)] @ u @ [of_nat (length p)] @ p"
    using assms by (subst splice_at_end) (simp_all add: u_def p_def)
  ultimately show ?thesis
    unfolding write_password_def Let_def memcpy_buffer_def u_def [symmetric] p_def [symmetric]
    by (simp add: password_msg_def u_def p_def)
qed

lemma request_buffer:
  assumes "length b = 4 + length a" and "length h = 4"
  shows "memcpy_buffer 0 h (memcpy_buffer 4 a (c\<lparr>sc_buffer := Some b\<rparr>)) = c\<lparr>sc_buffer := Some (h @ a)\<rparr>"
  using assms by (simp add: memcpy_buffer_def splice_def)

text \<open>What a handler of the handshake may leave behind.\<close>

definition sc_good :: "'j sc_result \<Rightarrow> byte list \<Rightarrow> byte list \<Rightarrow> bool" where
  "sc_good = (\<lambda>(c, js, ev) ins outs.
     (ev = None \<longrightarrow> sc_sending c js ins outs \<or> sc_receiving c js ins outs) \<and>
     (sc_state c = STATE_UP \<longleftrightarrow> ev = Some BSOCKSCLIENT_EVENT_UP) \<and>
     (ev = Some BSOCKSCLIENT_EVENT_UP \<longrightarrow> dialogue (sc_auth_info c) (sc_dest_addr c) STATE_UP ins outs))"

lemma sc_good_error:
  "sc_state c \<noteq> STATE_UP \<Longrightarrow> sc_good (c, js, Some BSOCKSCLIENT_EVENT_ERROR) ins outs"
  by (simp add: sc_good_def)

lemma sc_good_sending: "sc_sending c js ins outs \<Longrightarrow> sc_good (c, js, None) ins outs"
  by (auto simp: sc_good_def sc_sending_def)

lemma sc_good_receiving: "sc_receiving c js ins outs \<Longrightarrow> sc_good (c, js, None) ins outs"
  by (auto simp: sc_good_def sc_receiving_def)

text \<open>The destinations \<open>BSocksClient_Init\<close> asserts, and its assertion on the methods.\<close>

definition sc_args :: "BSocksClient_auth_info list \<Rightarrow> BAddr \<Rightarrow> bool" where
  "sc_args ais dest \<longleftrightarrow>
     list_all (\<lambda>ai. auth_type ai = 0 \<or> auth_type ai = 2) ais \<and>
     (case dest of BADDR_IPV4 _ _ \<Rightarrow> True | BADDR_IPV6 ip _ \<Rightarrow> length ip = 16 | _ \<Rightarrow> False)"

lemma auth_finished_good:
  assumes idle: "sc_idle c js" and ok: "realloc_ok ralloc" and args: "sc_args (sc_auth_info c) (sc_dest_addr c)"
    and st: "sc_state c \<noteq> STATE_UP"
    and dial: "dialogue (sc_auth_info c) (sc_dest_addr c) STATE_SENDING_REQUEST ins (outs @ request_msg (sc_dest_addr c))"
  shows "sc_good (auth_finished ralloc c js) ins outs"
proof -
  have main: "sc_good (case reserve_buffer ralloc sz c of
           None \<Rightarrow> (c, js, Some BSOCKSCLIENT_EVENT_ERROR)
         | Some c \<Rightarrow>
             let c = memcpy_buffer 0 h (memcpy_buffer 4 a c);
                 (c, js) = send_buffer sz c js
             in (c\<lparr>sc_state := STATE_SENDING_REQUEST\<rparr>, js, None)) ins outs"
    if h: "length h = 4" and sz: "bsize_abs sz = Some (4 + length a)" and msg: "request_msg (sc_dest_addr c) = h @ a" for sz h a
  proof (cases "reserve_buffer ralloc sz c")
    case None
    then show ?thesis using st by (simp add: sc_good_error)
  next
    case (Some c1)
    then obtain b where b: "length b = 4 + length a" "c1 = c\<lparr>sc_buffer := Some b\<rparr>"
      using reserve_buffer_Some [OF Some sz ok] by auto
    define c2 where "c2 = c\<lparr>sc_buffer := Some (h @ a)\<rparr>"
    obtain c3 js3 where snd: "send_buffer sz c2 js = (c3, js3)" by fastforce
    have "sc_idle c2 js" using idle by (simp add: c2_def cong: sc_idle_cong)
    then have "sc_sending (c3\<lparr>sc_state := STATE_SENDING_REQUEST\<rparr>) js3 ins outs"
      using send_buffer_sending [OF _ _ _ snd, of "h @ a" STATE_SENDING_REQUEST ins outs] dial msg sz h
      by (simp add: c2_def)
    then show ?thesis using request_buffer [OF b(1) h, of c] snd
      by (simp add: Some b(2) c2_def [symmetric] sc_good_sending)
  qed
  show ?thesis
  proof (cases "sc_dest_addr c")
    case (BADDR_IPV4 ip port)
    define sz :: "64 bsize" where "sz = bsize_add (bsize_fromsize 4) (bsize_fromsize 6)"
    have "auth_finished ralloc c js = (case reserve_buffer ralloc sz c of
           None \<Rightarrow> (c, js, Some BSOCKSCLIENT_EVENT_ERROR)
         | Some c \<Rightarrow>
             let c = memcpy_buffer 0 (socks_request_header 5 1 0 1) (memcpy_buffer 4 (socks_addr_ipv4 ip port) c);
                 (c, js) = send_buffer sz c js
             in (c\<lparr>sc_state := STATE_SENDING_REQUEST\<rparr>, js, None))"
      using BADDR_IPV4 reserve_buffer_dest [of ralloc sz c]
      by (simp add: auth_finished_def sz_def Let_def split: option.split)
    then show ?thesis using main [of "socks_request_header 5 1 0 1" sz "socks_addr_ipv4 ip port"] BADDR_IPV4
      by (simp add: socks_request_header_def socks_addr_ipv4_def sz_def bsize_abs_def bsize_add_def bsize_fromsize_def)
  next
    case (BADDR_IPV6 ip port)
    define sz :: "64 bsize" where "sz = bsize_add (bsize_fromsize 4) (bsize_fromsize 18)"
    have "auth_finished ralloc c js = (case reserve_buffer ralloc sz c of
           None \<Rightarrow> (c, js, Some BSOCKSCLIENT_EVENT_ERROR)
         | Some c \<Rightarrow>
             let c = memcpy_buffer 0 (socks_request_header 5 1 0 4) (memcpy_buffer 4 (socks_addr_ipv6 ip port) c);
                 (c, js) = send_buffer sz c js
             in (c\<lparr>sc_state := STATE_SENDING_REQUEST\<rparr>, js, None))"
      using BADDR_IPV6 reserve_buffer_dest [of ralloc sz c]
      by (simp add: auth_finished_def sz_def Let_def split: option.split)
    moreover have "length ip = 16" using args BADDR_IPV6 by (simp add: sc_args_def)
    ultimately show ?thesis using main [of "socks_request_header 5 1 0 4" sz "socks_addr_ipv6 ip port"] BADDR_IPV6
      by (simp add: socks_request_header_def socks_addr_ipv6_def sz_def bsize_abs_def bsize_add_def bsize_fromsize_def)
  qed (use args in \<open>simp_all add: sc_args_def\<close>)
qed

lemma start_receive_good:
  assumes idle: "sc_idle c js" and buf: "sc_buffer c = Some buf" and sh: "recv_shape st ins = Some (dest, tot, length buf)"
    and tot: "0 < tot" and dial: "dialogue (sc_auth_info c) (sc_dest_addr c) st ins outs"
    and run: "start_receive (int dest) (int tot) c js = (c', js')"
  shows "sc_good (c'\<lparr>sc_state := st\<rparr>, js', None) ins outs"
proof -
  define c1 where "c1 = c\<lparr>sc_recv_dest := int dest, sc_recv_len := 0, sc_recv_total := int tot\<rparr>"
  have "do_receive c1 js = (c', js')" using run by (simp add: start_receive_def c1_def)
  moreover have "sc_idle c1 js" using idle by (simp add: c1_def cong: sc_idle_cong)
  ultimately have "sc_receiving (c'\<lparr>sc_state := st\<rparr>) js' ins outs"
    using do_receive_receiving [of c1 js c' js' buf st ins dest tot outs ins] buf sh tot dial by (simp add: c1_def)
  then show ?thesis by (rule sc_good_receiving)
qed

lemma receive_into_good:
  assumes idle: "sc_idle c js" and ok: "realloc_ok ralloc" and st: "sc_state c \<noteq> STATE_UP"
    and sz: "bsize_abs sz = Some l" and sh: "recv_shape st ins = Some (0, unat n, l)" and n: "n \<noteq> 0" and l: "0 < l"
    and dial: "dialogue (sc_auth_info c) (sc_dest_addr c) st ins outs"
  shows "sc_good (receive_into ralloc sz n st c js) ins outs"
proof (cases "reserve_buffer ralloc sz c")
  case None
  then show ?thesis using st by (simp add: receive_into_def sc_good_error)
next
  case (Some c1)
  then obtain b where b: "length b = l" "c1 = c\<lparr>sc_buffer := Some b\<rparr>"
    using reserve_buffer_Some [OF Some sz ok l] by auto
  obtain c2 js2 where r: "start_receive 0 (uint n) c1 js = (c2, js2)" by fastforce
  have "sc_idle c1 js" using idle by (simp add: b(2) cong: sc_idle_cong)
  then have "sc_good (c2\<lparr>sc_state := st\<rparr>, js2, None) ins outs"
    using start_receive_good [of c1 js b st ins 0 "unat n" outs c2 js2] r sh n dial b by (simp add: unat_gt_0)
  then show ?thesis by (simp add: receive_into_def Some r)
qed

lemma send_handler_done_good:
  assumes "sc_idle c js" and "realloc_ok ralloc"
    and "sc_state c \<in> {STATE_SENDING_HELLO, STATE_SENDING_PASSWORD, STATE_SENDING_REQUEST}"
    and "dialogue (sc_auth_info c) (sc_dest_addr c) (sc_state c) ins outs"
  shows "sc_good (send_handler_done ralloc c js) ins outs"
proof -
  note R = receive_into_good [OF assms(1,2)]
  consider "sc_state c = STATE_SENDING_HELLO" | "sc_state c = STATE_SENDING_PASSWORD" | "sc_state c = STATE_SENDING_REQUEST"
    using assms(3) by blast
  then show ?thesis
  proof cases
    case 1
    then show ?thesis using assms(4) R [of "bsize_fromsize 2" 2 STATE_SENT_HELLO ins 2 outs] d_hello_sent
      by (simp add: send_handler_done_def bsize_abs_def bsize_fromsize_def)
  next
    case 2
    then show ?thesis using assms(4) R [of "bsize_fromsize 2" 2 STATE_SENT_PASSWORD ins 2 outs] d_password_sent
      by (simp add: send_handler_done_def bsize_abs_def bsize_fromsize_def)
  next
    case 3
    define sz :: "64 bsize" where "sz = bsize_add (bsize_fromsize 4) (bsize_max (bsize_fromsize 6) (bsize_fromsize 18))"
    have "bsize_abs sz = Some 22" by (simp add: sz_def bsize_abs_def bsize_add_def bsize_max_def bsize_fromsize_def)
    with 3 show ?thesis using assms(4) R [of sz 22 STATE_SENT_REQUEST ins 4 outs] d_request_sent
      by (simp add: send_handler_done_def sz_def [symmetric])
  qed
qed

lemma auth_index_found:
  "auth_index m ais \<noteq> length ais \<Longrightarrow> auth_index m ais < length ais \<and> auth_type (ais ! auth_index m ais) = m"
  by (induction m ais rule: auth_index.induct) auto

lemma list2: "length b = 2 \<Longrightarrow> b = [b ! 0, b ! 1]"
  by (auto simp: numeral_2_eq_2 length_Suc_conv)

lemma take4: "4 \<le> length b \<Longrightarrow> take 4 b = [b ! 0, b ! 1, b ! 2, b ! 3]"
  by (rule nth_equalityI) (auto simp: less_Suc_eq numeral_eq_Suc nth_Cons')

lemma valid_password_iff:
  "valid_password ai \<longleftrightarrow> \<not> (length (auth_username ai) = 0 \<or> length (auth_username ai) > 255 \<or>
     length (auth_password ai) = 0 \<or> length (auth_password ai) > 255)"
  by (auto simp: valid_password_def Suc_le_eq)

lemma password_good:
  assumes idle: "sc_idle c js" and ok: "realloc_ok ralloc" and st: "sc_state c \<noteq> STATE_UP" and v: "valid_password ai"
    and dial: "dialogue (sc_auth_info c) (sc_dest_addr c) STATE_SENDING_PASSWORD ins (outs @ password_msg ai)"
  shows "sc_good (send_password ralloc ai c js) ins outs"
proof -
  define sz :: "64 bsize" where
    "sz = bsize_fromsize (1 + 1 + of_nat (length (auth_username ai)) + 1 + of_nat (length (auth_password ai)))"
  define l where "l = 3 + length (auth_username ai) + length (auth_password ai)"
  have "l \<le> 513" using v by (auto simp: valid_password_def l_def)
  then have "unat (of_nat l :: u64) = l" by (simp add: unsigned_of_nat take_bit_nat_eq_self)
  moreover have "bs_value sz = of_nat l" by (simp add: sz_def bsize_fromsize_def l_def)
  ultimately have sz: "bsize_abs sz = Some l" by (simp add: bsize_abs_def) (simp add: sz_def bsize_fromsize_def)
  show ?thesis
  proof (cases "reserve_buffer ralloc sz c")
    case None
    then show ?thesis using st unfolding send_password_def sz_def [symmetric] Let_def by (simp add: sc_good_error)
  next
    case (Some c1)
    then obtain b where b: "length b = l" "c1 = c\<lparr>sc_buffer := Some b\<rparr>"
      using reserve_buffer_Some [OF Some sz ok] by (auto simp: l_def)
    define c2 where "c2 = c\<lparr>sc_buffer := Some (password_msg ai)\<rparr>"
    obtain c3 js3 where snd: "send_buffer sz c2 js = (c3, js3)" by fastforce
    have "sc_idle c2 js" using idle by (simp add: c2_def cong: sc_idle_cong)
    moreover have "length (password_msg ai) = l" by (simp add: password_msg_def l_def)
    ultimately have "sc_sending (c3\<lparr>sc_state := STATE_SENDING_PASSWORD\<rparr>) js3 ins outs"
      using send_buffer_sending [OF _ _ _ snd, of "password_msg ai" STATE_SENDING_PASSWORD ins outs] dial sz
      by (simp add: c2_def)
    moreover have "write_password ai c1 = c2" using password_buffer [of b ai c] b by (simp add: l_def c2_def)
    ultimately show ?thesis using snd unfolding send_password_def sz_def [symmetric] Let_def
      by (simp add: Some sc_good_sending)
  qed
qed

lemma received_hello_good:
  assumes idle: "sc_idle c js" and ok: "realloc_ok ralloc" and args: "sc_args (sc_auth_info c) (sc_dest_addr c)"
    and st: "sc_state c = STATE_SENT_HELLO" and buf: "length buf = 2"
    and dial: "dialogue (sc_auth_info c) (sc_dest_addr c) STATE_SENT_HELLO i0 outs"
  shows "sc_good (received_hello ralloc buf c js) (i0 @ buf) outs"
proof -
  define ais where "ais = sc_auth_info c"
  define i where "i = auth_index (uint (buf ! 1)) ais"
  have ii: "auth_index (uint (ntoh8 (buf ! 1))) ais = i" by (simp add: i_def)
  have fail: "sc_good (c, js, Some BSOCKSCLIENT_EVENT_ERROR) (i0 @ buf) outs" using st by (simp add: sc_good_error)
  show ?thesis
  proof (cases "buf ! 0 = 5 \<and> i \<noteq> length ais")
    case False
    then show ?thesis using fail by (auto simp: received_hello_def Let_def i_def ais_def)
  next
    case True
    define ai where "ai = ais ! i"
    have ai: "ai \<in> set ais" "auth_type ai = uint (buf ! 1)"
      using auth_index_found [of "uint (buf ! 1)" ais] True by (auto simp: ai_def i_def)
    then have "auth_type ai = 0 \<or> auth_type ai = 2" using args by (auto simp: sc_args_def list_all_iff ais_def)
    then show ?thesis
    proof
      assume t: "auth_type ai = 0"
      then have b: "buf = [5, 0]" using list2 [OF buf] True ai(2) by (simp add: uint_0_iff)
      have "dialogue ais (sc_dest_addr c) STATE_SENDING_REQUEST (i0 @ buf) (outs @ request_msg (sc_dest_addr c))"
        using d_no_auth [OF dial] ai(1) t by (auto simp: b ais_def)
      then show ?thesis using auth_finished_good [OF idle ok args] st True t
        by (simp add: received_hello_def Let_def ais_def i_def ai_def)
    next
      assume t: "auth_type ai = 2"
      then have "buf ! 1 = 2" using ai(2) by (metis word_of_int_numeral word_of_int_uint)
      then have b: "buf = [5, 2]" using list2 [OF buf] True by simp
      have r: "received_hello ralloc buf c js =
          (if valid_password ai then send_password ralloc ai c js else (c, js, Some BSOCKSCLIENT_EVENT_ERROR))"
        unfolding received_hello_def Let_def ii ais_def [symmetric] ai_def [symmetric] valid_password_iff
        using t True by simp
      show ?thesis
      proof (cases "valid_password ai")
        case True
        then have "dialogue ais (sc_dest_addr c) STATE_SENDING_PASSWORD (i0 @ buf) (outs @ password_msg ai)"
          using d_password [OF dial] ai(1) t by (simp add: b ais_def)
        from password_good [OF idle ok _ True this [unfolded ais_def]] show ?thesis using st True by (simp add: r)
      qed (simp add: r fail)
    qed
  qed
qed

lemma received_password_reply_good:
  assumes idle: "sc_idle c js" and ok: "realloc_ok ralloc" and args: "sc_args (sc_auth_info c) (sc_dest_addr c)"
    and st: "sc_state c = STATE_SENT_PASSWORD" and buf: "length buf = 2"
    and dial: "dialogue (sc_auth_info c) (sc_dest_addr c) STATE_SENT_PASSWORD i0 outs"
  shows "sc_good (received_password_reply ralloc buf c js) (i0 @ buf) outs"
proof (cases "buf ! 0 = 1 \<and> buf ! 1 = 0")
  case True
  then have b: "buf = [1, 0]" using list2 [OF buf] by simp
  from True auth_finished_good [OF idle ok args _ d_password_ok [OF dial, folded b]] st show ?thesis
    by (simp add: received_password_reply_def)
next
  case False
  then show ?thesis using st by (auto simp: received_password_reply_def sc_good_error)
qed

lemma received_reply_header_good:
  assumes idle: "sc_idle c js" and st: "sc_state c = STATE_SENT_REQUEST" and buf: "sc_buffer c = Some buf" "length buf = 22"
    and dial: "dialogue (sc_auth_info c) (sc_dest_addr c) STATE_SENT_REQUEST i0 outs"
  shows "sc_good (received_reply_header buf c js) (i0 @ take 4 buf) outs"
proof (cases "buf ! 0 = 5 \<and> buf ! 1 = 0 \<and> (buf ! 3 = 1 \<or> buf ! 3 = 4)")
  case True
  define tot where "tot = (if buf ! 3 = 1 then 6 else 18 :: nat)"
  have t4: "take 4 buf = [5, 0, buf ! 2, buf ! 3]" using take4 [of buf] buf(2) True by simp
  have dial': "dialogue (sc_auth_info c) (sc_dest_addr c) STATE_RECEIVED_REPLY_HEADER (i0 @ take 4 buf) outs"
    unfolding t4 using d_reply [OF dial] True by blast
  obtain c' js' where run: "start_receive 4 (int tot) c js = (c', js')" by fastforce
  have "sc_good (c'\<lparr>sc_state := STATE_RECEIVED_REPLY_HEADER\<rparr>, js', None) (i0 @ take 4 buf) outs"
    using start_receive_good [OF idle buf(1) _ _ dial', of 4 tot c' js'] run buf(2) by (simp add: t4 tot_def)
  moreover have "received_reply_header buf c js = (c'\<lparr>sc_state := STATE_RECEIVED_REPLY_HEADER\<rparr>, js', None)"
    using True run by (auto simp: received_reply_header_def Let_def tot_def)
  ultimately show ?thesis by simp
next
  case False
  then show ?thesis using st by (auto simp: received_reply_header_def Let_def sc_good_error)
qed

lemma free_init_fields:
  "free_control_io c js = (c', js') \<Longrightarrow> sc_auth_info c' = sc_auth_info c \<and> sc_dest_addr c' = sc_dest_addr c"
  "init_up_io c js = (c', js') \<Longrightarrow> sc_auth_info c' = sc_auth_info c \<and> sc_dest_addr c' = sc_dest_addr c"
  by (auto simp: free_control_io_def init_up_io_def Let_def split: prod.splits)

lemma received_reply_rest_good:
  assumes "dialogue (sc_auth_info c) (sc_dest_addr c) STATE_UP ins outs"
  shows "sc_good (received_reply_rest c js) ins outs"
proof -
  define c0 where "c0 = c\<lparr>sc_buffer := None\<rparr>"
  obtain c1 js1 where 1: "free_control_io c0 js = (c1, js1)" by fastforce
  obtain c2 js2 where 2: "init_up_io c1 js1 = (c2, js2)" by fastforce
  show ?thesis using assms free_init_fields(1) [OF 1] free_init_fields(2) [OF 2]
    by (simp add: received_reply_rest_def c0_def [symmetric] 1 2 sc_good_def) (simp add: c0_def)
qed

text \<open>A completed part of a receive.\<close>

lemma recv_handler_done_good:
  assumes rc: "sc_receiving c (sri_job_done (sc_recv_if c) # js) ins outs" and ok: "realloc_ok ralloc"
    and args: "sc_args (sc_auth_info c) (sc_dest_addr c)"
    and job: "StreamRecvInterface_job_done (sc_recv_if c) = (i, n)"
  shows "sc_good (recv_handler_done ralloc n (set_recv_if i c) js) ins outs"
proof -
  have i: "i = (sc_recv_if c)\<lparr>sri_state := STATE_NONE\<rparr>" "n = sri_job_done_len (sc_recv_if c)"
    using job by (auto simp: StreamRecvInterface_job_done_def)
  have q: "sc_queue c (sri_job_done (sc_recv_if c) # js)" "sender_idle c (sri_job_done (sc_recv_if c) # js)"
    using rc by (simp_all add: sc_receiving_def)
  then have dp: "sri_state (sc_recv_if c) = STATE_DONE_PENDING" by (simp add: sc_queue_def)
  obtain buf dest tot i0 where R: "sc_buffer c = Some buf" "recv_shape (sc_state c) i0 = Some (dest, tot, length buf)"
      "dialogue (sc_auth_info c) (sc_dest_addr c) (sc_state c) i0 outs" "sc_recv_dest c = int dest" "sc_recv_total c = int tot"
      "0 \<le> sc_recv_len c" "sc_recv_len c < sc_recv_total c"
      "0 < n" "n \<le> sc_recv_total c - sc_recv_len c" "ins = i0 @ slice dest (nat (sc_recv_len c) + nat n) buf"
    using rc dp by (auto simp: sc_receiving_def recv_got_def i(2))
  define c1 where "c1 = (set_recv_if i c)\<lparr>sc_recv_len := sc_recv_len c + n\<rparr>"
  have nj: "sri_job_done (sc_recv_if c) \<notin> set (pss_jobs (sc_send_sender c))" using q(1) by (auto simp: sc_queue_def)
  have "sc_queue c1 js" using q(1) dp by (auto simp: sc_queue_def c1_def i)
  moreover have "sender_idle c1 js" using q(2) nj by (auto simp: sender_idle_def pss_queue_def pss_jobs_def c1_def)
  ultimately have idle: "sc_idle c1 js" by (simp add: sc_idle_def c1_def i)
  have len: "nat (sc_recv_len c1) = nat (sc_recv_len c) + nat n" using R(6,8) by (simp add: c1_def nat_add_distrib)
  have run: "recv_handler_done ralloc n (set_recv_if i c) js =
     (if sc_recv_len c1 < sc_recv_total c1 then (let (c, js) = do_receive c1 js in (c, js, None))
      else (case sc_state c of
           STATE_SENT_HELLO \<Rightarrow> received_hello ralloc buf c1 js
         | STATE_SENT_REQUEST \<Rightarrow> received_reply_header buf c1 js
         | STATE_SENT_PASSWORD \<Rightarrow> received_password_reply ralloc buf c1 js
         | STATE_RECEIVED_REPLY_HEADER \<Rightarrow> received_reply_rest c1 js
         | _ \<Rightarrow> (c1, js, None)))"
    by (simp add: recv_handler_done_def c1_def R(1) Let_def cong: socks_state.case_cong)
  show ?thesis
  proof (cases "sc_recv_len c1 < sc_recv_total c1")
    case True
    obtain c2 js2 where 2: "do_receive c1 js = (c2, js2)" by fastforce
    have "sc_state c2 = sc_state c" using 2 by (auto simp: do_receive_def c1_def split: prod.splits)
    moreover have "sc_receiving (c2\<lparr>sc_state := sc_state c\<rparr>) js2 ins outs"
      by (rule do_receive_receiving [OF idle 2, of buf _ i0 dest tot]) (use R True len in \<open>simp_all add: c1_def\<close>)
    ultimately have "sc_receiving c2 js2 ins outs" by (cases c2) simp
    then show ?thesis using True by (simp add: run 2 sc_good_receiving)
  next
    case False
    then have "nat (sc_recv_len c) + nat n = tot" using R(5-9) by (simp add: c1_def)
    then have ins: "ins = i0 @ slice dest tot buf" using R(10) by simp
    have C: "sc_auth_info c1 = sc_auth_info c" "sc_dest_addr c1 = sc_dest_addr c" "sc_state c1 = sc_state c" "sc_buffer c1 = Some buf"
      using R(1) by (simp_all add: c1_def)
    show ?thesis
    proof (cases "sc_state c")
      case STATE_SENT_HELLO
      then show ?thesis using received_hello_good [OF idle ok] args R(2,3) False C ins by (simp add: run slice_0)
    next
      case STATE_SENT_PASSWORD
      then show ?thesis using received_password_reply_good [OF idle ok] args R(2,3) False C ins by (simp add: run slice_0)
    next
      case STATE_SENT_REQUEST
      then show ?thesis using received_reply_header_good [OF idle] R(2,3) False C ins by (auto simp: run slice_0)
    next
      case STATE_RECEIVED_REPLY_HEADER
      then have "length (slice dest tot buf) = (if last i0 = 1 then 6 else 18)" using R(2) by (auto simp: min_def)
      then have "dialogue (sc_auth_info c) (sc_dest_addr c) STATE_UP ins outs"
        using d_up R(3) STATE_RECEIVED_REPLY_HEADER unfolding ins by fastforce
      then show ?thesis using received_reply_rest_good [of c1] False STATE_RECEIVED_REPLY_HEADER C by (simp add: run)
    qed (use R(2) in simp_all)
  qed
qed

text \<open>A step of the sender concerns its own jobs only.\<close>

lemma pss_step_frame:
  assumes "pss_step (s, m, js) [] u (s', m', js')" and "pss_inv (s, m, js)"
    and "ppi_state (pss_input s) \<noteq> STATE_NONE" and "ppi_state (pss_input s) \<noteq> STATE_DONE_PENDING"
  shows "pss_jobs s' = pss_jobs s \<and> ppi_state (pss_input s') \<noteq> STATE_NONE \<and>
    (\<forall>p. p \<notin> set (pss_jobs s) \<longrightarrow> (p \<in> set js' \<longleftrightarrow> p \<in> set js))"
  using assms(1)
proof (cases rule: pss_step.cases)
  case (input_op i p n js1)
  then show ?thesis using assms(2)
    by (auto simp: pss_input_handler_send_def send_data_def PacketPassInterface_job_operation_def
        PacketPassInterface_Done_def StreamPassInterface_Sender_Send_def pss_jobs_def pss_inv_def pss_queue_def job_simps Let_def
        split: if_splits)
next
  case (input_done i)
  then show ?thesis using assms(2,4) by (simp add: pss_inv_def pss_queue_def)
next
  case (output_op i p n)
  then show ?thesis using assms(3) by (auto simp: StreamPassInterface_job_operation_def pss_jobs_def)
next
  case (output_ready n i)
  then show ?thesis using assms(3) by (auto simp: StreamPassInterface_Done_def pss_jobs_def job_simps)
next
  case (output_done i n js1)
  have "ppi_state (pss_input s) = STATE_BUSY" using assms(2) output_done(1)
    by (simp add: pss_inv_def pss_queue_def)
  then show ?thesis using assms(2) output_done
    by (auto simp: pss_output_handler_done_def send_data_def StreamPassInterface_job_done_def
        PacketPassInterface_Done_def StreamPassInterface_Sender_Send_def pss_jobs_def pss_inv_def pss_queue_def job_simps Let_def
        split: if_splits)
qed

lemma sc_sender_good:
  assumes snd: "sc_sending c js ins outs" and buf: "sc_buffer c = Some buf"
    and np: "ppi_state (sc_send_if c) \<noteq> STATE_DONE_PENDING"
    and step: "pss_step (sc_send_sender c, buf, js) [] u (s, buf, js')"
  shows "sc_sending (c\<lparr>sc_send_sender := s\<rparr>) js' ins (outs @ u)"
proof -
  have S: "sc_queue c js" "pss_inv (sc_send_sender c, buf, js)" "ppi_state (sc_send_if c) \<noteq> STATE_NONE"
      "sri_state (sc_recv_if c) = STATE_NONE"
      "sc_state c \<in> {STATE_SENDING_HELLO, STATE_SENDING_PASSWORD, STATE_SENDING_REQUEST}"
      "dialogue (sc_auth_info c) (sc_dest_addr c) (sc_state c) ins (outs @ pss_rest (sc_send_sender c) buf)"
    using snd buf by (simp_all add: sc_sending_def)
  have F: "pss_jobs s = pss_jobs (sc_send_sender c)" "ppi_state (pss_input s) \<noteq> STATE_NONE"
      "\<And>p. p \<notin> set (pss_jobs (sc_send_sender c)) \<Longrightarrow> p \<in> set js' \<longleftrightarrow> p \<in> set js"
    using pss_step_frame [OF step S(2,3) np] by simp_all
  have P: "pss_inv (s, buf, js')" "pss_rest (sc_send_sender c) buf = u @ pss_rest s buf"
    using pss_step_inv [OF step S(2)] by simp_all
  have "sri_job_operation (sc_recv_if c) \<notin> set (pss_jobs (sc_send_sender c))"
      "sri_job_done (sc_recv_if c) \<notin> set (pss_jobs (sc_send_sender c))"
    using S(1) by (auto simp: sc_queue_def)
  then have "sc_queue (c\<lparr>sc_send_sender := s\<rparr>) js'"
    using S(1) P(1) F by (simp add: sc_queue_def pss_inv_def pss_queue_def)
  then show ?thesis unfolding sc_sending_def using S(4-6) P F(2) buf by simp
qed

lemma sc_receiving_not_sending: "sc_receiving c js ins outs \<Longrightarrow> ppi_state (sc_send_if c) = STATE_NONE"
  by (simp add: sc_receiving_def sender_idle_def)

lemma sc_idle_no_step:
  assumes "sc_receiving c js ins outs" and "pss_step (sc_send_sender c, buf, js) [] u (s, buf, js')"
  shows False
proof -
  have "sender_idle c js" using assms(1) by (simp add: sc_receiving_def)
  then have I: "pss_queue (sc_send_sender c) js" "ppi_state (sc_send_if c) = STATE_NONE"
      "spi_state (pss_output (sc_send_sender c)) = STATE_NONE"
    by (simp_all add: sender_idle_def)
  show False using assms(2) by (cases rule: pss_step.cases) (use I in \<open>simp_all add: pss_queue_def\<close>)
qed

lemma sc_sent_good:
  assumes good: "sc_sending c js0 ins outs \<or> sc_receiving c js0 ins outs" and js0: "js0 = ppi_job_done (sc_send_if c) # js"
    and ok: "realloc_ok ralloc"
  shows "sc_good (send_handler_done ralloc (set_send_if ((sc_send_if c)\<lparr>ppi_state := STATE_NONE\<rparr>) c) js) ins outs"
proof -
  have "\<not> sc_receiving c js0 ins outs" by (auto simp: sc_receiving_def sender_idle_def pss_queue_def js0)
  with good obtain buf where S: "sc_buffer c = Some buf" "sc_queue c js0" "pss_inv (sc_send_sender c, buf, js0)"
      "sri_state (sc_recv_if c) = STATE_NONE"
      "sc_state c \<in> {STATE_SENDING_HELLO, STATE_SENDING_PASSWORD, STATE_SENDING_REQUEST}"
      "dialogue (sc_auth_info c) (sc_dest_addr c) (sc_state c) ins (outs @ pss_rest (sc_send_sender c) buf)"
    by (auto simp: sc_sending_def)
  define c1 where "c1 = set_send_if ((sc_send_if c)\<lparr>ppi_state := STATE_NONE\<rparr>) c"
  have P: "pss_inv (sc_send_sender c1, buf, js)" "pss_rest (sc_send_sender c) buf = pss_rest (sc_send_sender c1) buf"
    using pss_input_done [of "sc_send_sender c" buf js] S(3) by (simp_all add: js0 c1_def)
  have r: "pss_rest (sc_send_sender c) buf = []" unfolding P(2) by (simp add: pss_rest_def c1_def)
  have "sender_idle c1 js" using P(1) by (simp add: sender_idle_def pss_inv_def c1_def)
  moreover have "sc_queue c1 js" using S(2) by (auto simp: sc_queue_def pss_jobs_def c1_def js0)
  ultimately have "sc_idle c1 js" using S(4) by (simp add: sc_idle_def c1_def)
  from send_handler_done_good [OF this ok, of ins outs] show ?thesis
    using S(5,6) r unfolding c1_def [symmetric] by (simp add: c1_def)
qed

lemma sc_recv_op_good:
  assumes "sc_sending c (sri_job_operation (sc_recv_if c) # js) ins outs \<or> sc_receiving c (sri_job_operation (sc_recv_if c) # js) ins outs"
  shows "sc_receiving (set_recv_if ((sc_recv_if c)\<lparr>sri_state := STATE_BUSY\<rparr>) c) js ins outs"
proof -
  define js0 where "js0 = sri_job_operation (sc_recv_if c) # js"
  have "\<not> sc_sending c js0 ins outs" by (auto simp: sc_sending_def sc_queue_def js0_def)
  then have rc: "sc_receiving c js0 ins outs" using assms by (simp add: js0_def)
  define c1 where "c1 = set_recv_if ((sc_recv_if c)\<lparr>sri_state := STATE_BUSY\<rparr>) c"
  have q: "sc_queue c js0" "sender_idle c js0" using rc by (simp_all add: sc_receiving_def)
  have st: "sri_state (sc_recv_if c) = STATE_OPERATION_PENDING" using q(1) by (simp add: sc_queue_def js0_def)
  have "sc_queue c1 js" using q(1) st by (auto simp: sc_queue_def c1_def js0_def)
  moreover have "sri_job_operation (sc_recv_if c) \<notin> set (pss_jobs (sc_send_sender c))" using q(1) by (auto simp: sc_queue_def)
  then have "sender_idle c1 js" using q(2) by (auto simp: sender_idle_def pss_queue_def pss_jobs_def c1_def js0_def)
  ultimately have "sc_receiving c1 js ins outs"
    using rc st by (simp add: sc_receiving_def recv_got_def c1_def)
  then show ?thesis by (simp add: c1_def)
qed

lemma slice_store:
  "dest + got + length d \<le> length buf \<Longrightarrow>
   slice dest (got + length d) (splice (dest + got) d buf) = slice dest got buf @ d"
proof -
  assume a: "dest + got + length d \<le> length buf"
  have "slice dest (got + length d) (splice (dest + got) d buf) =
      slice dest got (splice (dest + got) d buf) @ slice (dest + got) (length d) (splice (dest + got) d buf)"
    using a by (intro slice_append) simp
  also have "slice (dest + got) (length d) (splice (dest + got) d buf) = d" using a by (simp add: mem_simps)
  also have "slice dest got (splice (dest + got) d buf) = slice dest got buf"
    using a by (intro slice_splice_disjoint) auto
  finally show ?thesis .
qed

lemma recv_shape_fits: "recv_shape st i = Some (dest, tot, len) \<Longrightarrow> dest + tot \<le> len"
  by (cases "(st, i)" rule: recv_shape.cases) (auto split: if_splits)

lemma sc_recv_ready_good:
  assumes good: "sc_sending c js ins outs \<or> sc_receiving c js ins outs" and busy: "sri_state (sc_recv_if c) = STATE_BUSY"
    and buf: "sc_buffer c = Some buf" and d: "0 < length d" "int (length d) \<le> sri_job_operation_len (sc_recv_if c)"
    and run: "StreamRecvInterface_Done (int (length d)) (sc_recv_if c) js = (i, js')"
  shows "sc_receiving (set_recv_if i (c\<lparr>sc_buffer := Some (splice (nat (sri_job_operation_data (sc_recv_if c))) d buf)\<rparr>)) js' (ins @ d) outs"
proof -
  have rc: "sc_receiving c js ins outs" using good busy by (auto simp: sc_sending_def)
  have i: "i = (sc_recv_if c)\<lparr>sri_job_done_len := int (length d), sri_state := STATE_DONE_PENDING\<rparr>"
      "js' = BPending_Set (sri_job_done (sc_recv_if c)) js"
    using run by (auto simp: StreamRecvInterface_Done_def)
  obtain dest tot i0 where R: "recv_shape (sc_state c) i0 = Some (dest, tot, length buf)"
      "dialogue (sc_auth_info c) (sc_dest_addr c) (sc_state c) i0 outs" "sc_recv_dest c = int dest" "sc_recv_total c = int tot"
      "0 \<le> sc_recv_len c" "sc_recv_len c < sc_recv_total c"
      "sri_job_operation_data (sc_recv_if c) = sc_recv_dest c + sc_recv_len c"
      "sri_job_operation_len (sc_recv_if c) = sc_recv_total c - sc_recv_len c"
      "ins = i0 @ slice dest (nat (sc_recv_len c)) buf"
    using rc busy buf by (auto simp: sc_receiving_def recv_got_def)
  define got where "got = nat (sc_recv_len c)"
  have p: "nat (sri_job_operation_data (sc_recv_if c)) = dest + got" using R(3,5,7) by (simp add: got_def)
  have fit: "dest + got + length d \<le> length buf" using recv_shape_fits [OF R(1)] R(4-6,8) d(2) by (simp add: got_def)
  define c1 where "c1 = set_recv_if i (c\<lparr>sc_buffer := Some (splice (dest + got) d buf)\<rparr>)"
  have q: "sc_queue c js" "sender_idle c js" using rc by (simp_all add: sc_receiving_def)
  have "sc_queue c1 js'" using q(1) busy by (auto simp: sc_queue_def c1_def i job_simps)
  moreover have "sri_job_done (sc_recv_if c) \<notin> set (pss_jobs (sc_send_sender c))" using q(1) by (auto simp: sc_queue_def)
  then have "sender_idle c1 js'" using sender_idle_Set [OF q(2)] by (simp add: c1_def i(2) sender_idle_def)
  moreover have "ins @ d = i0 @ slice dest (recv_got c1) (splice (dest + got) d buf)"
    using slice_store [OF fit] R(9) by (simp add: recv_got_def c1_def i got_def)
  ultimately have "sc_receiving c1 js' (ins @ d) outs"
    unfolding sc_receiving_def using R fit d by (simp add: c1_def i(1)) (use R(4,6) in simp)
  then show ?thesis by (simp add: c1_def p)
qed

text \<open>The connection is made: no job of the client is pending but the connector's.\<close>

definition sc_fresh :: "'j BSocksClient \<Rightarrow> 'j jobs \<Rightarrow> bool" where
  "sc_fresh c js \<longleftrightarrow>
     (let jobs = [ppi_job_operation (sc_send_if c), ppi_job_done (sc_send_if c), ppi_job_requestcancel (sc_send_if c),
            spi_job_operation (con_spi (sc_con c)), spi_job_done (con_spi (sc_con c)),
            sri_job_operation (sc_recv_if c), sri_job_done (sc_recv_if c)]
      in distinct js \<and> distinct jobs \<and> set jobs \<inter> set js = {})"

lemma init_control_io_idle:
  assumes "init_control_io c js = (c', js')" and "sc_fresh c js"
  shows "sc_idle c' js' \<and> sc_auth_info c' = sc_auth_info c \<and> sc_dest_addr c' = sc_dest_addr c \<and> sc_state c' = sc_state c"
proof -
  define sri where "sri = (sc_recv_if c)\<lparr>sri_handler_done := True, sri_state := STATE_NONE\<rparr>"
  define spi where "spi = (con_spi (sc_con c))\<lparr>spi_handler_done := True, spi_state := STATE_NONE\<rparr>"
  define ppi where "ppi = (sc_send_if c)\<lparr>ppi_mtu := INT_MAX, ppi_handler_requestcancel := False, ppi_handler_done := True,
    ppi_state := STATE_NONE\<rparr>"
  have c': "con_sri (sc_con c') = sri" "sc_send_sender c' = (sc_send_sender c)\<lparr>pss_input := ppi, pss_output := spi, pss_in_len := -1\<rparr>"
      "js' = js" "sc_auth_info c' = sc_auth_info c" "sc_dest_addr c' = sc_dest_addr c" "sc_state c' = sc_state c"
    using assms(1) by (auto simp: init_control_io_def BConnection_RecvAsync_Init_def BConnection_SendAsync_Init_def
        PacketStreamSender_Init_def iface_defs BPending_Init_def Let_def sri_def spi_def ppi_def)
  have "sc_queue c' js'" using assms(2) by (auto simp: sc_queue_def sc_fresh_def pss_jobs_def c' sri_def spi_def ppi_def Let_def)
  moreover have "sender_idle c' js'"
    using assms(2) by (auto simp: sender_idle_def sc_fresh_def pss_queue_def pss_jobs_def c' spi_def ppi_def Let_def)
  ultimately show ?thesis by (simp add: sc_idle_def c' sri_def)
qed

lemma connection_init_fields:
  assumes "BConnection_Init sys (BCONNECTION_SOURCE_TYPE_CONNECTOR cn) con js fds = (Some con', source, a, js', fds')"
  shows "js' = js \<and> con_spi con' = con_spi con \<and> con_sri con' = con_sri con"
  using assms by (auto simp: BConnection_Init_def source_fd_def Let_def split: option.splits if_splits)

lemma send_hello_sending:
  assumes idle: "sc_idle c js" and ok: "realloc_ok ralloc" and run: "send_hello ralloc c js = Some (c', js')"
  shows "sc_sending c' js' [] [] \<and> sc_auth_info c' = sc_auth_info c \<and> sc_dest_addr c' = sc_dest_addr c"
proof -
  define num where "num = length (sc_auth_info c)"
  define sz :: "64 bsize" where "sz = bsize_add (bsize_fromsize 2) (bsize_mul (bsize_fromsize (of_nat num)) (bsize_fromsize 1))"
  have no: "\<not> (num = 0 \<or> num > 255)" using run unfolding send_hello_def Let_def num_def [symmetric] by (auto split: if_splits)
  then obtain c2 where res: "reserve_buffer ralloc sz c = Some c2"
    using run unfolding send_hello_def Let_def num_def [symmetric] sz_def [symmetric] by (auto split: option.splits)
  have "unat (of_nat num :: u64) = num" using no by (simp add: unsigned_of_nat take_bit_nat_eq_self)
  then have szn: "bsize_abs sz = Some (2 + num)" using no
    by (simp add: sz_def bsize_abs_add bsize_abs_mul checked_def) (simp add: bsize_abs_def bsize_fromsize_def)
  then obtain b where b: "length b = 2 + num" "c2 = c\<lparr>sc_buffer := Some b\<rparr>"
    using reserve_buffer_Some [OF res szn ok] by auto
  define c3 where "c3 = c\<lparr>sc_buffer := Some (hello_msg (sc_auth_info c))\<rparr>"
  have c3: "write_methods 0 (sc_auth_info c) (memcpy_buffer 0 (socks_client_hello_header (hton8 5) (hton8 (of_nat num))) c2) = c3"
    using hello_buffer [of b c] b by (simp add: c3_def num_def)
  obtain c4 js4 where snd: "send_buffer sz c3 js = (c4, js4)" by fastforce
  have r: "c' = c4\<lparr>sc_state := STATE_SENDING_HELLO\<rparr>" "js' = js4"
    using run no res c3 snd b(2) unfolding send_hello_def Let_def num_def [symmetric] sz_def [symmetric]
    by (auto simp: memcpy_buffer_def)
  have "sc_idle c3 js" using idle by (simp add: c3_def cong: sc_idle_cong)
  then have "sc_sending c' js' [] []"
    using send_buffer_sending [OF _ _ _ snd, of "hello_msg (sc_auth_info c)" STATE_SENDING_HELLO "[]" "[]"] szn d_hello
    by (simp add: c3_def hello_msg_def num_def r)
  moreover have "sc_auth_info c4 = sc_auth_info c \<and> sc_dest_addr c4 = sc_dest_addr c"
    using snd by (auto simp: send_buffer_def c3_def split: prod.splits)
  ultimately show ?thesis by (simp add: r)
qed

lemma connector_handler_good:
  assumes fr: "sc_fresh c js" and st: "sc_state c = STATE_CONNECTING" and ok: "realloc_ok ralloc"
    and run: "connector_handler sys ralloc is_error c js fds = (c', js', fds', ev)"
  shows "sc_auth_info c' = sc_auth_info c \<and> sc_dest_addr c' = sc_dest_addr c \<and>
    (sc_state c' = STATE_CONNECTING \<and> ev = Some BSOCKSCLIENT_EVENT_ERROR \<or> ev = None \<and> sc_sending c' js' [] [])"
proof (cases is_error)
  case True
  then show ?thesis using run st by (auto simp: connector_handler_def)
next
  case False
  obtain r source a js1 fds1 where init:
      "BConnection_Init sys (BCONNECTION_SOURCE_TYPE_CONNECTOR (sc_connector c)) (sc_con c) js fds = (r, source, a, js1, fds1)"
    using prod_cases5 by blast
  define c0 where "c0 = c\<lparr>sc_connector := (sc_connector c)\<lparr>cn_fd := -1\<rparr>\<rparr>"
  have src: "source = BCONNECTION_SOURCE_TYPE_CONNECTOR ((sc_connector c)\<lparr>cn_fd := -1\<rparr>)"
    using connection_from_connector(1) [OF init] .
  show ?thesis
  proof (cases r)
    case None
    then show ?thesis using run False st by (auto simp: connector_handler_def init src)
  next
    case (Some con)
    have js1: "js1 = js" "con_spi con = con_spi (sc_con c)" "con_sri con = con_sri (sc_con c)"
      using connection_init_fields init Some by blast+
    obtain c1 js2 where ini: "init_control_io (c0\<lparr>sc_con := con\<rparr>) js = (c1, js2)" by fastforce
    have "sc_fresh (c0\<lparr>sc_con := con\<rparr>) js" using fr by (simp add: sc_fresh_def c0_def js1)
    note I = init_control_io_idle [OF ini this]
    have c1: "sc_auth_info c1 = sc_auth_info c" "sc_dest_addr c1 = sc_dest_addr c" "sc_state c1 = STATE_CONNECTING" "sc_idle c1 js2"
      using I st by (simp_all add: c0_def)
    have fr: "sc_auth_info c2 = sc_auth_info c \<and> sc_dest_addr c2 = sc_dest_addr c \<and> sc_state c2 = STATE_CONNECTING"
      if "free_control_io c1 js2 = (c2, js3)" for c2 js3
      using that c1 by (auto simp: free_control_io_def Let_def split: prod.splits)
    show ?thesis
    proof (cases "send_hello ralloc c1 js2")
      case None
      then show ?thesis using run False fr
        by (auto simp: connector_handler_def init src Some js1(1) c0_def [symmetric] ini split: prod.splits)
    next
      case hello: (Some w)
      obtain c3 js3 where w: "w = (c3, js3)" by fastforce
      then show ?thesis using run False send_hello_sending [OF c1(4) ok, of c3 js3] hello c1(1,2)
        by (simp add: connector_handler_def init src Some js1(1) c0_def [symmetric] ini)
    qed
  qed
qed

text \<open>What no handler of the handshake changes.\<close>

definition sc_static :: "'j BSocksClient \<Rightarrow> BSocksClient_auth_info list \<times> BAddr \<times> 'j BConnector \<times> int \<times> bool" where
  "sc_static c = (sc_auth_info c, sc_dest_addr c, sc_connector c, con_fd (sc_con c), con_close_fd (sc_con c))"

lemma static_simps [simp]:
  "sc_static (c\<lparr>sc_state := st\<rparr>) = sc_static c" "sc_static (c\<lparr>sc_buffer := b\<rparr>) = sc_static c"
  "sc_static (c\<lparr>sc_send_sender := s\<rparr>) = sc_static c" "sc_static (set_recv_if i c) = sc_static c"
  "sc_static (c\<lparr>sc_recv_len := n\<rparr>) = sc_static c"
  "sc_static (memcpy_buffer off bs c) = sc_static c" "sc_state (memcpy_buffer off bs c) = sc_state c"
  by (simp_all add: sc_static_def memcpy_buffer_def)

lemma static_prims:
  "reserve_buffer ralloc sz c = Some c' \<Longrightarrow> sc_static c' = sc_static c \<and> sc_state c' = sc_state c"
  "do_receive c js = (c', js') \<Longrightarrow> sc_static c' = sc_static c \<and> sc_state c' = sc_state c"
  "start_receive dest tot c js = (c', js') \<Longrightarrow> sc_static c' = sc_static c"
  "send_buffer sz c js = (c', js') \<Longrightarrow> sc_static c' = sc_static c"
  "sc_static (write_password ai c) = sc_static c"
  by (auto simp: reserve_buffer_def do_receive_def start_receive_def send_buffer_def write_password_def sc_static_def
      memcpy_buffer_def Let_def split: if_splits option.splits prod.splits)

lemma static_io:
  "free_control_io c js = (c', js') \<Longrightarrow> sc_static c' = sc_static c \<and> sc_state c' = sc_state c"
  "init_up_io c js = (c', js') \<Longrightarrow> sc_static c' = sc_static c"
  "init_control_io c js = (c', js') \<Longrightarrow> sc_static c' = sc_static c \<and> sc_state c' = sc_state c"
  by (auto simp: free_control_io_def init_up_io_def init_control_io_def sc_static_def BConnection_SendAsync_Free_def
      BConnection_RecvAsync_Free_def BConnection_SendAsync_Init_def BConnection_RecvAsync_Init_def Let_def
      split: prod.splits if_splits)

lemma static_write_methods: "sc_static (write_methods i ais c) = sc_static c"
  by (induction i ais c rule: write_methods.induct) simp_all

lemma static_auth_finished:
  "auth_finished ralloc c js = (c', js', ev) \<Longrightarrow> sc_static c' = sc_static c \<and> (sc_state c' = STATE_CONNECTING \<longrightarrow> sc_state c = STATE_CONNECTING)"
  by (auto simp: auth_finished_def Let_def split: option.splits prod.splits BAddr.splits
      dest!: static_prims(1) static_prims(4))

lemma static_send_password:
  "send_password ralloc ai c js = (c', js', ev) \<Longrightarrow> sc_static c' = sc_static c \<and> (sc_state c' = STATE_CONNECTING \<longrightarrow> sc_state c = STATE_CONNECTING)"
  by (auto simp: send_password_def Let_def static_prims(5) split: option.splits prod.splits
      dest!: static_prims(1) static_prims(4))

lemma static_send_hello:
  "send_hello ralloc c js = Some (c', js') \<Longrightarrow> sc_static c' = sc_static c \<and> sc_state c' = STATE_SENDING_HELLO"
  by (auto simp: send_hello_def Let_def static_write_methods split: option.splits prod.splits if_splits
      dest!: static_prims(1) static_prims(4))

lemma static_recv_handler_done:
  assumes "recv_handler_done ralloc n c js = (c', js', ev)" and "sc_state c \<noteq> STATE_CONNECTING"
  shows "sc_static c' = sc_static c \<and> sc_state c' \<noteq> STATE_CONNECTING"
proof -
  define c1 where "c1 = c\<lparr>sc_recv_len := sc_recv_len c + n\<rparr>"
  have c1: "sc_static c1 = sc_static c" "sc_state c1 = sc_state c" by (simp_all add: c1_def)
  have "received_hello ralloc buf c1 js = (c', js', ev) \<Longrightarrow> ?thesis" for buf
    using assms(2) static_auth_finished [of ralloc c1 js c' js' ev] static_send_password [of ralloc _ c1 js c' js' ev] c1
    by (auto simp: received_hello_def Let_def split: if_splits)
  moreover have "received_password_reply ralloc buf c1 js = (c', js', ev) \<Longrightarrow> ?thesis" for buf
    using assms(2) static_auth_finished [of ralloc c1 js c' js' ev] c1
    by (auto simp: received_password_reply_def split: if_splits)
  moreover have "received_reply_header buf c1 js = (c', js', ev) \<Longrightarrow> ?thesis" for buf
    using assms(2) c1 static_prims(3) [of _ _ c1 js]
    by (auto simp: received_reply_header_def Let_def split: if_splits prod.splits)
  moreover have "received_reply_rest c1 js = (c', js', ev) \<Longrightarrow> ?thesis"
    using c1 by (auto simp: received_reply_rest_def Let_def split: prod.splits dest!: static_io(1,2))
  moreover have "do_receive c1 js = (c', js') \<Longrightarrow> ?thesis" using static_prims(2) [of c1 js c' js'] c1 assms(2) by simp
  ultimately show ?thesis
    using assms c1 unfolding recv_handler_done_def Let_def c1_def [symmetric]
    by (auto split: if_splits socks_state.splits prod.splits)
qed

lemma static_send_handler_done:
  assumes "send_handler_done ralloc c js = (c', js', ev)" and "sc_state c \<noteq> STATE_CONNECTING"
  shows "sc_static c' = sc_static c \<and> sc_state c' \<noteq> STATE_CONNECTING"
proof -
  have "receive_into ralloc sz n st c js = (c', js', ev) \<Longrightarrow> st \<noteq> STATE_CONNECTING \<Longrightarrow> ?thesis" for sz n st
    using assms(2) by (auto simp: receive_into_def split: option.splits prod.splits dest!: static_prims(1) static_prims(3))
  then show ?thesis using assms unfolding send_handler_done_def Let_def by (cases "sc_state c") auto
qed


section \<open>Properties\<close>

definition sc_winv :: "BSocksClient_auth_info list \<Rightarrow> BAddr \<Rightarrow> 'j sc_world \<Rightarrow> byte list \<Rightarrow> byte list \<Rightarrow> bool" where
  "sc_winv ais dest = (\<lambda>(c, js, fds, ev) ins outs.
     sc_auth_info c = ais \<and> sc_dest_addr c = dest \<and>
     (sc_state c = STATE_CONNECTING \<and> ins = [] \<and> outs = [] \<and> (ev = None \<and> sc_fresh c js \<or> ev = Some BSOCKSCLIENT_EVENT_ERROR) \<or>
      sc_state c \<noteq> STATE_CONNECTING \<and> sc_good (c, js, ev) ins outs))"

lemma sc_winv_handler:
  assumes "sc_good r ins outs" and "sc_static (fst r) = sc_static c" and "sc_state (fst r) \<noteq> STATE_CONNECTING"
    and "sc_auth_info c = ais" and "sc_dest_addr c = dest"
  shows "sc_winv ais dest (sc_finish fds r) ins outs"
  using assms by (cases r) (auto simp: sc_winv_def sc_finish_def sc_static_def)

lemma sc_good_handshake:
  "sc_winv ais dest (c, js, fds, None) ins outs \<Longrightarrow> in_handshake c \<Longrightarrow>
   (sc_sending c js ins outs \<or> sc_receiving c js ins outs) \<and> sc_auth_info c = ais \<and> sc_dest_addr c = dest"
  by (auto simp: sc_winv_def sc_good_def)

lemma sc_winv_sending:
  "sc_sending c js ins outs \<Longrightarrow> sc_winv (sc_auth_info c) (sc_dest_addr c) (c, js, fds, None) ins outs"
  by (auto simp: sc_winv_def sc_good_sending) (auto simp: sc_sending_def)

lemma sc_winv_receiving:
  "sc_receiving c js ins outs \<Longrightarrow> sc_winv (sc_auth_info c) (sc_dest_addr c) (c, js, fds, None) ins outs"
  by (auto simp: sc_winv_def sc_good_receiving) (auto simp: sc_receiving_def)

lemma connector_handler_winv:
  assumes "sc_winv ais dest (c, js, fds, None) ins outs" and st: "sc_state c = STATE_CONNECTING" and ok: "realloc_ok ralloc"
    and js': "js' = js \<or> js = cn_job (sc_connector c) # js'"
  shows "sc_winv ais dest (connector_handler sys ralloc is_error (c\<lparr>sc_connector := cn\<rparr>) js' fds) ins outs"
proof -
  have w: "sc_auth_info c = ais" "sc_dest_addr c = dest" "ins = []" "outs = []" "sc_fresh c js"
    using assms(1) st by (auto simp: sc_winv_def)
  have fr: "sc_fresh (c\<lparr>sc_connector := cn\<rparr>) js'" using w(5) js' by (auto simp: sc_fresh_def Let_def)
  obtain c2 js2 fds2 ev where run: "connector_handler sys ralloc is_error (c\<lparr>sc_connector := cn\<rparr>) js' fds = (c2, js2, fds2, ev)"
    using prod_cases4 by blast
  have "sc_auth_info c2 = ais \<and> sc_dest_addr c2 = dest \<and>
      (sc_state c2 = STATE_CONNECTING \<and> ev = Some BSOCKSCLIENT_EVENT_ERROR \<or> ev = None \<and> sc_sending c2 js2 [] [])"
    using connector_handler_good [OF fr _ ok run] st w by simp
  then show ?thesis using sc_winv_sending [of c2 js2 "[]" "[]" fds2] w(3,4) by (auto simp: run) (simp add: sc_winv_def)
qed

lemma socks_step_winv:
  assumes "socks_step w i u w'" and "sc_winv ais dest w ins outs" and args: "sc_args ais dest"
  shows "sc_winv ais dest w' (ins @ i) (outs @ u)"
  using assms(1)
proof (cases rule: socks_step.cases)
  case (sc_connect_fd c sys events cn is_error ralloc fds)
  then show ?thesis using connector_handler_winv [of ais dest c "[]" fds ins outs ralloc "[]"] assms(2) by simp
next
  case (sc_connect_job c cn is_error ralloc js fds sys)
  then show ?thesis using connector_handler_winv [of ais dest c "cn_job (sc_connector c) # js" fds ins outs ralloc js] assms(2) by simp
next
  case (sc_sender c buf js s js' fds)
  then have g: "sc_sending c js ins outs \<or> sc_receiving c js ins outs" "sc_auth_info c = ais" "sc_dest_addr c = dest"
    using sc_good_handshake assms(2) by blast+
  then have "sc_sending c js ins outs" using sc_idle_no_step sc_sender by blast
  from sc_winv_sending [OF sc_sender_good [OF this]] show ?thesis using sc_sender g by simp
next
  case (sc_sent c x ralloc js fds)
  then have g: "sc_sending c (ppi_job_done (sc_send_if c) # js) ins outs \<or> sc_receiving c (ppi_job_done (sc_send_if c) # js) ins outs"
      "sc_auth_info c = ais" "sc_dest_addr c = dest"
    using sc_good_handshake assms(2) by blast+
  define c1 where "c1 = set_send_if x c"
  have "sc_good (send_handler_done ralloc c1 js) ins outs"
    using sc_sent_good [OF g(1) refl] sc_sent by (simp add: c1_def PacketPassInterface_job_done_def)
  moreover obtain c2 js2 ev where r: "send_handler_done ralloc c1 js = (c2, js2, ev)" using prod_cases3 by blast
  ultimately show ?thesis
    using sc_winv_handler [of "send_handler_done ralloc c1 js" ins outs c1 ais dest fds] static_send_handler_done [OF r] sc_sent g
    by (simp add: c1_def r)
next
  case (sc_recv_op c x p n js fds)
  then have g: "sc_sending c (sri_job_operation (sc_recv_if c) # js) ins outs \<or> sc_receiving c (sri_job_operation (sc_recv_if c) # js) ins outs"
      "sc_auth_info c = ais" "sc_dest_addr c = dest"
    using sc_good_handshake assms(2) by blast+
  from sc_winv_receiving [OF sc_recv_op_good [OF g(1)]] show ?thesis
    using sc_recv_op g by (simp add: StreamRecvInterface_job_operation_def)
next
  case (sc_recv_ready c buf js x js' fds)
  then have g: "sc_sending c js ins outs \<or> sc_receiving c js ins outs" "sc_auth_info c = ais" "sc_dest_addr c = dest"
    using sc_good_handshake assms(2) by blast+
  from sc_winv_receiving [OF sc_recv_ready_good [OF g(1)]] show ?thesis using sc_recv_ready g by simp
next
  case (sc_recv_done c x n ralloc js fds)
  define js0 where "js0 = sri_job_done (sc_recv_if c) # js"
  from sc_recv_done have g: "sc_sending c js0 ins outs \<or> sc_receiving c js0 ins outs" "sc_auth_info c = ais" "sc_dest_addr c = dest"
    using sc_good_handshake assms(2) unfolding js0_def by blast+
  have "\<not> sc_sending c js0 ins outs" by (auto simp: sc_sending_def sc_queue_def js0_def)
  then have rc: "sc_receiving c (sri_job_done (sc_recv_if c) # js) ins outs" using g(1) by (simp add: js0_def)
  define c1 where "c1 = set_recv_if x c"
  have "sc_good (recv_handler_done ralloc n c1 js) ins outs"
    using recv_handler_done_good [OF rc _ _ sc_recv_done(6)] sc_recv_done(7) args g by (simp add: c1_def)
  moreover obtain c2 js2 ev where r: "recv_handler_done ralloc n c1 js = (c2, js2, ev)" using prod_cases3 by blast
  ultimately show ?thesis
    using sc_winv_handler [of "recv_handler_done ralloc n c1 js" ins outs c1 ais dest fds] static_recv_handler_done [OF r] sc_recv_done g
    by (simp add: c1_def r)
next
  case (sc_con_event c js fds event)
  then show ?thesis using assms(2) by (auto simp: sc_winv_def sc_good_def socks_connection_handler_def)
qed

lemma socks_run_winv:
  "socks_run w ins outs w' \<Longrightarrow> sc_args ais dest \<Longrightarrow> sc_winv ais dest w [] [] \<Longrightarrow> sc_winv ais dest w' ins outs"
  by (induction rule: socks_run.induct) (simp_all add: socks_step_winv)

definition sc_start_ok :: "'j BSocksClient \<Rightarrow> 'j jobs \<Rightarrow> bool" where
  "sc_start_ok c js \<longleftrightarrow> sc_fresh c (cn_job (sc_connector c) # js)"

lemma socks_init_winv:
  assumes "BSocksClient_Init sys server ais dest c js fds = (Some c0, js0, fds0)" and "sc_start_ok c js"
  shows "sc_winv ais dest (c0, js0, fds0, None) [] []"
proof -
  obtain cn where cn: "BConnector_Init sys server (sc_connector c) js fds = (Some cn, js0, fds0)"
      and c0: "c0 = c\<lparr>sc_auth_info := ais, sc_dest_addr := dest, sc_buffer := None, sc_connector := cn, sc_state := STATE_CONNECTING\<rparr>"
    using assms(1) by (auto simp: BSocksClient_Init_def Let_def split: prod.splits option.splits)
  have "js0 = js \<or> js0 = BPending_Set (cn_job (sc_connector c)) js"
    using cn by (auto simp: BConnector_Init_def BConnector_InitFrom_def BPending_Init_def Let_def split: option.splits if_splits)
  then have "sc_fresh c js0" using assms(2) by (auto simp: sc_start_ok_def sc_fresh_def Let_def job_simps)
  then show ?thesis by (simp add: sc_winv_def c0 sc_fresh_def)
qed

text \<open>C1. The client reports that it is up exactly after a complete SOCKS5 dialogue.  For every order of
  events, every split of the two streams and every outcome of the allocations, when the client has
  reported \<open>BSOCKSCLIENT_EVENT_UP\<close>, the bytes it has received are the server's choice of a method
  that the client offered, for username and password a positive reply, and a successful reply with an
  IPv4 or IPv6 address, and nothing more; and the bytes it has sent are the hello message, the
  password message for that method, and the request for the destination.\<close>

theorem socks_up_dialogue:
  assumes "BSocksClient_Init sys server ais dest c js fds = (Some c0, js0, fds0)" and "sc_start_ok c js" and "sc_args ais dest"
    and "socks_run (c0, js0, fds0, None) ins outs (c', js', fds', ev)"
  shows "(sc_state c' = STATE_UP \<longleftrightarrow> ev = Some BSOCKSCLIENT_EVENT_UP) \<and>
    (ev = Some BSOCKSCLIENT_EVENT_UP \<longrightarrow>
      (\<exists>rsv atyp a. (atyp = 1 \<and> length a = 6 \<or> atyp = 4 \<and> length a = 18) \<and>
        ((\<exists>ai \<in> set ais. auth_type ai = 0) \<and> ins = [5, 0] @ [5, 0, rsv, atyp] @ a \<and> outs = hello_msg ais @ request_msg dest \<or>
         (\<exists>ai \<in> set ais. auth_type ai = 2 \<and> valid_password ai \<and> ins = [5, 2] @ [1, 0] @ [5, 0, rsv, atyp] @ a \<and>
            outs = hello_msg ais @ password_msg ai @ request_msg dest))))"
proof -
  have W: "sc_winv ais dest (c', js', fds', ev) ins outs"
    using socks_run_winv [OF assms(4,3) socks_init_winv [OF assms(1,2)]] .
  have D: "dialogue ais dest STATE_UP ins outs" if "ev = Some BSOCKSCLIENT_EVENT_UP"
    using W that by (auto simp: sc_winv_def sc_good_def)
  show ?thesis
  proof (intro conjI impI)
    show "sc_state c' = STATE_UP \<longleftrightarrow> ev = Some BSOCKSCLIENT_EVENT_UP" using W by (auto simp: sc_winv_def sc_good_def)
  qed (rule dialogue_up [OF D])
qed

text \<open>C15. The handshake does not stall and stays inside its buffer: while it runs and no event has been
  reported, exactly one of a send and a receive is in progress, what the client has sent and received
  is the dialogue up to its state, a send offers the message in the buffer, and a receive has room
  for all the bytes it may store.\<close>

theorem socks_handshake_progress:
  assumes "BSocksClient_Init sys server ais dest c js fds = (Some c0, js0, fds0)" and "sc_start_ok c js" and "sc_args ais dest"
    and "socks_run (c0, js0, fds0, None) ins outs (c', js', fds', None)" and "sc_state c' \<noteq> STATE_CONNECTING"
  shows "\<exists>buf i0 u0. sc_buffer c' = Some buf \<and>
    (ppi_state (sc_send_if c') \<noteq> STATE_NONE) \<noteq> (sri_state (sc_recv_if c') \<noteq> STATE_NONE) \<and>
    dialogue ais dest (sc_state c') i0 u0 \<and> (\<exists>more. u0 = outs @ more) \<and> (\<exists>part. ins = i0 @ part) \<and>
    (sri_state (sc_recv_if c') \<noteq> STATE_NONE \<longrightarrow> 0 \<le> sri_job_operation_data (sc_recv_if c') \<and>
      0 < sri_job_operation_len (sc_recv_if c') \<and>
      nat (sri_job_operation_data (sc_recv_if c')) + nat (sri_job_operation_len (sc_recv_if c')) \<le> length buf)"
proof -
  have W: "sc_winv ais dest (c', js', fds', None) ins outs"
    using socks_run_winv [OF assms(4,3) socks_init_winv [OF assms(1,2)]] .
  then have a: "sc_auth_info c' = ais" "sc_dest_addr c' = dest" by (simp_all add: sc_winv_def)
  from W assms(5) consider "sc_sending c' js' ins outs" | "sc_receiving c' js' ins outs" by (auto simp: sc_winv_def sc_good_def)
  then show ?thesis
  proof cases
    case 1
    then obtain buf where "sc_buffer c' = Some buf" "ppi_state (sc_send_if c') \<noteq> STATE_NONE" "sri_state (sc_recv_if c') = STATE_NONE"
        "dialogue ais dest (sc_state c') ins (outs @ pss_rest (sc_send_sender c') buf)"
      unfolding sc_sending_def a by blast
    then show ?thesis
      by (intro exI [of _ buf] exI [of _ ins] exI [of _ "outs @ pss_rest (sc_send_sender c') buf"]) simp
  next
    case 2
    then obtain buf dest' tot i0 where R: "sc_buffer c' = Some buf" "recv_shape (sc_state c') i0 = Some (dest', tot, length buf)"
        "dialogue ais dest (sc_state c') i0 outs" "sc_recv_dest c' = int dest'" "sc_recv_total c' = int tot"
        "0 \<le> sc_recv_len c'" "sc_recv_len c' < sc_recv_total c'"
        "sri_job_operation_data (sc_recv_if c') = sc_recv_dest c' + sc_recv_len c'"
        "sri_job_operation_len (sc_recv_if c') = sc_recv_total c' - sc_recv_len c'"
        "ins = i0 @ slice dest' (recv_got c') buf" "sri_state (sc_recv_if c') \<noteq> STATE_NONE"
      unfolding sc_receiving_def a by blast
    moreover have "ppi_state (sc_send_if c') = STATE_NONE" using sc_receiving_not_sending 2 .
    moreover have "nat (sri_job_operation_data (sc_recv_if c')) + nat (sri_job_operation_len (sc_recv_if c')) \<le> length buf"
      using recv_shape_fits [OF R(2)] R(4-9) by linarith
    ultimately show ?thesis by (intro exI [of _ buf] exI [of _ i0] exI [of _ outs]) simp
  qed
qed

text \<open>Who owns the descriptor.\<close>

definition sc_owner :: "fds \<Rightarrow> 'j BSocksClient \<Rightarrow> fds \<Rightarrow> socks_event option \<Rightarrow> bool" where
  "sc_owner fds0 c fds ev \<longleftrightarrow>
     (if sc_state c = STATE_CONNECTING then
        (let fd = cn_fd (sc_connector c)
         in 0 \<le> fd \<and> fds = fds0 @ [Fd_open fd] \<or>
            ev \<noteq> None \<and> fd = -1 \<and> (\<exists>fd'. fds = fds0 @ [Fd_open fd', Fd_close fd']))
      else cn_fd (sc_connector c) = -1 \<and> con_close_fd (sc_con c) \<and> fds = fds0 @ [Fd_open (con_fd (sc_con c))])"

lemma sc_owner_static:
  "sc_owner fds0 c fds None \<Longrightarrow> sc_static c' = sc_static c \<Longrightarrow> sc_state c \<noteq> STATE_CONNECTING \<Longrightarrow>
   sc_state c' \<noteq> STATE_CONNECTING \<Longrightarrow> sc_owner fds0 c' fds ev"
  by (simp add: sc_owner_def sc_static_def)

lemma connector_handler_owner:
  assumes own: "sc_owner fds0 c fds None" and st: "sc_state c = STATE_CONNECTING"
    and run: "connector_handler sys ralloc is_error c js fds = (c', js', fds', ev)"
  shows "sc_owner fds0 c' fds' ev"
proof (cases is_error)
  case True
  then show ?thesis using run own st by (auto simp: connector_handler_def sc_owner_def Let_def)
next
  case False
  define fd where "fd = cn_fd (sc_connector c)"
  have fd: "0 \<le> fd" "fds = fds0 @ [Fd_open fd]" using own st by (simp_all add: sc_owner_def fd_def Let_def)
  obtain r source a js1 fds1 where init:
      "BConnection_Init sys (BCONNECTION_SOURCE_TYPE_CONNECTOR (sc_connector c)) (sc_con c) js fds = (r, source, a, js1, fds1)"
    using prod_cases5 by blast
  define c0 where "c0 = c\<lparr>sc_connector := (sc_connector c)\<lparr>cn_fd := -1\<rparr>\<rparr>"
  note C = connection_from_connector [OF init] and F = connection_init_fds [OF init]
  show ?thesis
  proof (cases r)
    case None
    then have "c' = c0 \<and> fds' = fds1 \<and> ev = Some BSOCKSCLIENT_EVENT_ERROR"
      using run False by (simp add: connector_handler_def init C(1) c0_def)
    then show ?thesis using F(1) [OF None] fd st by (simp add: sc_owner_def c0_def fd_def [symmetric])
  next
    case (Some con)
    have con: "fds1 = fds" "con_fd con = fd" "con_close_fd con" using C(2) [OF Some] F(2) [OF Some] by (simp_all add: fd_def)
    obtain c1 js2 where ini: "init_control_io (c0\<lparr>sc_con := con\<rparr>) js1 = (c1, js2)" by fastforce
    have c1: "con_fd (sc_con c1) = fd" "con_close_fd (sc_con c1)" "cn_fd (sc_connector c1) = -1" "sc_state c1 = STATE_CONNECTING"
      using static_io(3) [OF ini] con st by (simp_all add: sc_static_def c0_def)
    show ?thesis
    proof (cases "send_hello ralloc c1 js2")
      case None
      obtain c2 js3 where f: "free_control_io c1 js2 = (c2, js3)" by fastforce
      have c2: "con_fd (sc_con c2) = fd" "con_close_fd (sc_con c2)" "cn_fd (sc_connector c2) = -1" "sc_state c2 = STATE_CONNECTING"
        using static_io(1) [OF f] c1 by (simp_all add: sc_static_def)
      have "c' = c2\<lparr>sc_con := fst (BConnection_Free (sc_con c2) fds1)\<rparr> \<and> fds' = snd (BConnection_Free (sc_con c2) fds1) \<and>
          ev = Some BSOCKSCLIENT_EVENT_ERROR"
        using run False None f by (auto simp: connector_handler_def init C(1) Some c0_def [symmetric] ini split: prod.splits)
      then show ?thesis using c2 fd con(1) by (simp add: sc_owner_def BConnection_Free_fds)
    next
      case hello: (Some w)
      obtain c3 js3 where w: "w = (c3, js3)" by fastforce
      have "sc_static c3 = sc_static c1" "sc_state c3 = STATE_SENDING_HELLO"
        using static_send_hello hello w by blast+
      moreover have "c' = c3 \<and> fds' = fds1 \<and> ev = None"
        using run False hello w by (simp add: connector_handler_def init C(1) Some c0_def [symmetric] ini)
      ultimately show ?thesis using c1 fd con(1) by (simp add: sc_owner_def sc_static_def)
    qed
  qed
qed

lemma connector_fd_handler_fd: "connector_fd_handler sys events o1 = (o2, e) \<Longrightarrow> cn_fd o2 = cn_fd o1"
  by (auto simp: connector_fd_handler_def Let_def split: option.splits if_splits)

lemma socks_step_owner:
  assumes "socks_step (c, js, fds, ev) i u (c', js', fds', ev')" and "sc_owner fds0 c fds ev"
  shows "sc_owner fds0 c' fds' ev'"
  using assms(1)
proof (cases rule: socks_step.cases)
  case (sc_connect_fd sys events cn is_error ralloc)
  have "cn_fd cn = cn_fd (sc_connector c)"
    using sc_connect_fd(8) by (rule connector_fd_handler_fd)
  then have "sc_owner fds0 (c\<lparr>sc_connector := cn\<rparr>) fds None" using assms(2) sc_connect_fd by (simp add: sc_owner_def)
  from connector_handler_owner [OF this _ sc_connect_fd(5) [symmetric]] show ?thesis using sc_connect_fd(6) by simp
next
  case (sc_connect_job cn is_error ralloc js1 sys)
  have "sc_owner fds0 (c\<lparr>sc_connector := cn\<rparr>) fds None" using assms(2) sc_connect_job by (simp add: sc_owner_def connector_job_handler_def)
  from connector_handler_owner [OF this _ sc_connect_job(5) [symmetric]] show ?thesis using sc_connect_job(6) by simp
next
  case (sc_sender buf s)
  then show ?thesis using sc_owner_static [of fds0 c fds] assms(2) by simp
next
  case (sc_sent x ralloc js1)
  then obtain ev1 where "send_handler_done ralloc (set_send_if x c) js1 = (c', js', ev1)" "fds' = fds"
    by (auto simp: sc_finish_def split: prod.splits)
  with static_send_handler_done [OF this(1)] show ?thesis using sc_owner_static [of fds0 c fds] assms(2) sc_sent by simp
next
  case (sc_recv_op x p n)
  then show ?thesis using sc_owner_static [of fds0 c fds] assms(2) by simp
next
  case (sc_recv_ready buf x)
  have "sc_static c' = sc_static c \<and> sc_state c' = sc_state c" unfolding sc_recv_ready by (simp add: sc_static_def)
  then show ?thesis using sc_owner_static [of fds0 c fds] assms(2) sc_recv_ready by simp
next
  case (sc_recv_done x n ralloc js1)
  then obtain ev1 where "recv_handler_done ralloc n (set_recv_if x c) js1 = (c', js', ev1)" "fds' = fds"
    by (auto simp: sc_finish_def split: prod.splits)
  with static_recv_handler_done [OF this(1)] show ?thesis using sc_owner_static [of fds0 c fds] assms(2) sc_recv_done by simp
next
  case (sc_con_event event)
  then show ?thesis using assms(2) by (simp add: sc_owner_def)
qed

lemma socks_run_owner:
  "socks_run w ins outs w' \<Longrightarrow> sc_owner fds0 (fst w) (fst (snd (snd w))) (snd (snd (snd w))) \<Longrightarrow>
   sc_owner fds0 (fst w') (fst (snd (snd w'))) (snd (snd (snd w')))"
proof (induction rule: socks_run.induct)
  case (sc_snoc w ins outs w' i u w'')
  then show ?case using socks_step_owner [of "fst w'" "fst (snd w')" "fst (snd (snd w'))" "snd (snd (snd w'))" i u
      "fst w''" "fst (snd w'')" "fst (snd (snd w''))" "snd (snd (snd w''))"] by simp
qed simp

lemma socks_free_owner:
  assumes "sc_owner fds0 c fds ev"
  shows "(\<exists>fd. snd (snd (BSocksClient_Free c js fds)) = fds0 @ [Fd_open fd, Fd_close fd]) \<and>
    sc_buffer (fst (BSocksClient_Free c js fds)) = None"
proof (cases "sc_state c = STATE_CONNECTING")
  case True
  then show ?thesis using assms
    by (auto simp: BSocksClient_Free_def BConnector_Free_def sc_owner_def close_fd_def Let_def split: option.split)
next
  case False
  obtain c1 js1 where f: "(if sc_state c = STATE_UP then free_up_io c js else free_control_io c js) = (c1, js1)" by fastforce
  have "sc_static c1 = sc_static c"
    using f static_io(1) [of c js c1 js1]
    by (auto simp: free_up_io_def sc_static_def BConnection_SendAsync_Free_def BConnection_RecvAsync_Free_def Let_def split: if_splits prod.splits)
  then show ?thesis using assms False f
    by (auto simp: BSocksClient_Free_def BConnector_Free_def BConnection_Free_def sc_owner_def sc_static_def close_fd_def Let_def
        split: option.split)
qed

text \<open>C18. The client closes its descriptor exactly once.  A client that cannot be opened has closed the one
  descriptor it opened, if any.  In every state that a client can reach, also after an error, freeing it
  completes a history in which, since before the client was created, exactly one descriptor was opened
  and it was closed once, and leaves no buffer.\<close>

theorem socks_client_no_leak:
  assumes "BSocksClient_Init sys server ais dest c js fds = (r, js0, fds0)" and "cn_job (sc_connector c) \<notin> set js"
  shows "(r = None \<longrightarrow> fds0 = fds \<or> (\<exists>fd. fds0 = fds @ [Fd_open fd, Fd_close fd])) \<and>
    (\<forall>c0 ins outs c' js' fds' ev. r = Some c0 \<longrightarrow> socks_run (c0, js0, fds0, None) ins outs (c', js', fds', ev) \<longrightarrow>
       (\<exists>fd. snd (snd (BSocksClient_Free c' js' fds')) = fds @ [Fd_open fd, Fd_close fd]) \<and>
       sc_buffer (fst (BSocksClient_Free c' js' fds')) = None)"
proof -
  obtain rc where cn: "BConnector_Init sys server (sc_connector c) js fds = (rc, js0, fds0)"
      and r: "r = map_option (\<lambda>cn. c\<lparr>sc_auth_info := ais, sc_dest_addr := dest, sc_buffer := None, sc_connector := cn,
        sc_state := STATE_CONNECTING\<rparr>) rc"
    using assms(1) by (auto simp: BSocksClient_Init_def Let_def split: prod.splits option.splits)
  note K = connector_init_cases [OF cn [unfolded BConnector_Init_def] assms(2)]
  have "(\<exists>fd. snd (snd (BSocksClient_Free c' js' fds')) = fds @ [Fd_open fd, Fd_close fd]) \<and>
      sc_buffer (fst (BSocksClient_Free c' js' fds')) = None"
    if c0: "r = Some c0" and run: "socks_run (c0, js0, fds0, None) ins outs (c', js', fds', ev)" for c0 ins outs c' js' fds' ev
  proof -
    obtain cn' where "rc = Some cn'" using r c0 by (cases rc) auto
    then have "sc_owner fds c0 fds0 None" using K(2) [of cn'] r c0 by (auto simp: sc_owner_def)
    then have "sc_owner fds c' fds' ev" using socks_run_owner [OF run, of fds] by simp
    then show ?thesis by (rule socks_free_owner)
  qed
  then show ?thesis using K(1) r by auto
qed

definition example_socks :: "nat BSocksClient" where
  "example_socks = \<lparr>sc_auth_info = [], sc_dest_addr = BADDR_NONE, sc_state = STATE_CONNECTING, sc_buffer = None,
     sc_connector = \<lparr>cn_job = 9, cn_fd = 0, cn_connected = False, cn_have_bfd = False,
       cn_bfd = \<lparr>bfd_fd = 0, bfd_active = False, bfd_waitEvents = 0\<rparr>\<rparr>,
     sc_con = example_con,
     sc_send_sender = example_pss\<lparr>pss_input := (pss_input example_pss)\<lparr>ppi_job_operation := 6, ppi_job_requestcancel := 7,
       ppi_job_done := 8\<rparr>\<rparr>,
     sc_recv_dest = 0, sc_recv_len = 0, sc_recv_total = 0\<rparr>"

definition example_auth :: "BSocksClient_auth_info list" where
  "example_auth = [\<lparr>auth_type = 0, auth_username = [], auth_password = []\<rparr>]"

text \<open>A client that connects to \<open>127.0.0.1:1080\<close>, and has written its hello message.\<close>

lemma example_socks_run:
  obtains c0 c1 where "BSocksClient_Init example_sock (BADDR_IPV4 0x0100007F 0x3804) example_auth (BADDR_IPV4 0x04030201 0x5000)
      example_socks [] [] = (Some c0, [], [Fd_open 7])"
    and "sc_start_ok example_socks []" and "sc_args example_auth (BADDR_IPV4 0x04030201 0x5000)"
    and "socks_run (c0, [], [Fd_open 7], None) [] [] (c1, [6], [Fd_open 7], None)" and "sc_state c1 = STATE_SENDING_HELLO"
    and "sc_buffer c1 = Some [5, 1, 0]" and "sc_auth_info c1 = example_auth" and "sc_dest_addr c1 = BADDR_IPV4 0x04030201 0x5000"
    and "ppi_job_operation (sc_send_if c1) = 6" and "ppi_state (sc_send_if c1) = STATE_OPERATION_PENDING"
    and "ppi_job_operation_data (sc_send_if c1) = 0" and "ppi_job_operation_len (sc_send_if c1) = 3"
proof -
  define init where "init = BSocksClient_Init example_sock (BADDR_IPV4 0x0100007F 0x3804) example_auth (BADDR_IPV4 0x04030201 0x5000)
      example_socks [] []"
  define c0 where "c0 = the (fst init)"
  note defs = BSocksClient_Init_def BConnector_Init_def BConnector_InitFrom_def BLisCon_from_addr_def
    liscon_sysaddr_def BConnection_AddressSupported_def example_sock_def badvpn_set_nonblocking_def
    BReactor_AddFileDescriptor_def BPending_Init_def example_socks_def open_fd_def Let_def
  have 0: "init = (Some c0, [], [Fd_open 7])" "sc_state c0 = STATE_CONNECTING" "cn_have_bfd (sc_connector c0)"
    by (simp_all add: init_def c0_def defs)
  have ok: "realloc_ok (\<lambda>_ n. Some (replicate n 0))" by (simp add: realloc_ok_def)
  define cn where "cn = fst (connector_fd_handler example_sock 2 (sc_connector c0))"
  have h: "connector_fd_handler example_sock 2 (sc_connector c0) = (cn, False)"
    by (simp add: cn_def connector_fd_handler_def example_sock_def Let_def)
  define w where "w = connector_handler example_sock (\<lambda>_ n. Some (replicate n 0)) False (c0\<lparr>sc_connector := cn\<rparr>) [] [Fd_open 7]"
  have step: "socks_step (c0, [], [Fd_open 7], None) [] [] w" unfolding w_def using sc_connect_fd [OF 0(2,3) h ok] .
  have c0: "sc_con c0 = example_con" "sc_send_sender c0 = sc_send_sender example_socks" "sc_auth_info c0 = example_auth"
      "cn_fd cn = 7" "sc_dest_addr c0 = BADDR_IPV4 0x04030201 0x5000"
    using connector_fd_handler_fd [OF h] by (simp_all add: c0_def init_def defs)
  have hello: "splice 2 [0] (splice 0 (socks_client_hello_header 5 1) (replicate 3 0)) = [5, 1, 0]"
    by (simp add: splice_def socks_client_hello_header_def numeral_2_eq_2 numeral_3_eq_3)
  have w: "fst (snd w) = [6]" "fst (snd (snd w)) = [Fd_open 7]" "snd (snd (snd w)) = None" "sc_state (fst w) = STATE_SENDING_HELLO"
      "sc_buffer (fst w) = Some [5, 1, 0]" "sc_auth_info (fst w) = example_auth" "sc_dest_addr (fst w) = BADDR_IPV4 0x04030201 0x5000"
      "ppi_job_operation (sc_send_if (fst w)) = 6" "ppi_state (sc_send_if (fst w)) = STATE_OPERATION_PENDING"
      "ppi_job_operation_data (sc_send_if (fst w)) = 0" "ppi_job_operation_len (sc_send_if (fst w)) = 3"
    by (simp_all add: w_def connector_handler_def BConnection_Init_def source_fd_def c0 example_sock_def BReactor_AddFileDescriptor_def
        init_control_io_def BConnection_RecvAsync_Init_def BConnection_SendAsync_Init_def PacketStreamSender_Init_def iface_defs
        BPending_Init_def send_hello_def example_auth_def reserve_buffer_def BRealloc_def bsize_add_def bsize_mul_def
        bsize_fromsize_def send_buffer_def memcpy_buffer_def BPending_Set_def example_socks_def Let_def hello)
  have "socks_run (c0, [], [Fd_open 7], None) [] [] (fst w, [6], [Fd_open 7], None)"
    using sc_snoc [OF sc_nil step] w(1-3) by (cases w) auto
  moreover have "sc_start_ok example_socks []"
    by (simp add: sc_start_ok_def sc_fresh_def example_socks_def example_con_def example_pss_def)
  moreover have "sc_args example_auth (BADDR_IPV4 0x04030201 0x5000)" by (simp add: sc_args_def example_auth_def)
  ultimately show thesis using that [of c0 "fst w"] 0(1) w(4-11) unfolding init_def by blast
qed

theorem socks_handshake_progress_witness:
  "\<exists>c0 (c1 :: nat BSocksClient) buf. socks_run (c0, [], [Fd_open 7], None) [] [] (c1, [6], [Fd_open 7], None) \<and>
     sc_state c1 = STATE_SENDING_HELLO \<and> sc_buffer c1 = Some buf \<and>
     (ppi_state (sc_send_if c1) \<noteq> STATE_NONE) \<noteq> (sri_state (sc_recv_if c1) \<noteq> STATE_NONE)"
proof -
  obtain c0 c1 where R: "BSocksClient_Init example_sock (BADDR_IPV4 0x0100007F 0x3804) example_auth (BADDR_IPV4 0x04030201 0x5000)
      example_socks [] [] = (Some c0, [], [Fd_open 7])" "sc_start_ok example_socks []"
      "sc_args example_auth (BADDR_IPV4 0x04030201 0x5000)"
      "socks_run (c0, [], [Fd_open 7], None) [] [] (c1, [6], [Fd_open 7], None)" and st: "sc_state c1 = STATE_SENDING_HELLO"
    using example_socks_run by metis
  have "sc_state c1 \<noteq> STATE_CONNECTING" using st by simp
  from socks_handshake_progress [OF R this] obtain buf where "sc_buffer c1 = Some buf"
      "(ppi_state (sc_send_if c1) \<noteq> STATE_NONE) \<noteq> (sri_state (sc_recv_if c1) \<noteq> STATE_NONE)"
    by (elim exE conjE)
  with R(4) st show ?thesis by (intro exI conjI)
qed

theorem socks_client_no_leak_witness:
  "\<exists>c0 (c1 :: nat BSocksClient). socks_run (c0, [], [Fd_open 7], None) [] [] (c1, [6], [Fd_open 7], None) \<and>
     (\<exists>fd. snd (snd (BSocksClient_Free c1 [6] [Fd_open 7])) = [Fd_open fd, Fd_close fd])"
proof -
  obtain c0 c1 where R: "BSocksClient_Init example_sock (BADDR_IPV4 0x0100007F 0x3804) example_auth (BADDR_IPV4 0x04030201 0x5000)
      example_socks [] [] = (Some c0, [], [Fd_open 7])"
      "socks_run (c0, [], [Fd_open 7], None) [] [] (c1, [6], [Fd_open 7], None)"
    using example_socks_run by metis
  have 2: "cn_job (sc_connector example_socks) \<notin> set []" by simp
  from socks_client_no_leak [OF R(1) 2, THEN conjunct2, rule_format, OF refl R(2)]
  have "\<exists>fd. snd (snd (BSocksClient_Free c1 [6] [Fd_open 7])) = [Fd_open fd, Fd_close fd]" by simp
  with R(2) show ?thesis by blast
qed

text \<open>A whole message that is taken at once, and a whole receive that is filled at once.\<close>

lemma socks_send_all:
  assumes hs: "in_handshake c" and buf: "sc_buffer c = Some buf" "buf \<noteq> []"
    and op: "ppi_state (sc_send_if c) = STATE_OPERATION_PENDING" "ppi_job_operation_data (sc_send_if c) = 0"
      "ppi_job_operation_len (sc_send_if c) = int (length buf)"
  defines "s' \<equiv> (sc_send_sender c)\<lparr>pss_input := (sc_send_if c)\<lparr>ppi_state := STATE_DONE_PENDING\<rparr>,
      pss_output := (pss_output (sc_send_sender c))\<lparr>spi_job_operation_data := 0, spi_job_operation_len := int (length buf),
        spi_job_done_len := int (length buf), spi_state := STATE_NONE\<rparr>,
      pss_in := 0, pss_in_used := int (length buf), pss_in_len := -1\<rparr>"
  shows "socks_run (c, [ppi_job_operation (sc_send_if c)], fds, None) [] buf
    (c\<lparr>sc_send_sender := s'\<rparr>, [ppi_job_done (sc_send_if c)], fds, None)"
proof -
  define s where "s = sc_send_sender c"
  define s1 where "s1 = s\<lparr>pss_input := (pss_input s)\<lparr>ppi_state := STATE_BUSY\<rparr>, pss_in_len := int (length buf), pss_in := 0,
    pss_in_used := 0, pss_output := (pss_output s)\<lparr>spi_job_operation_data := 0, spi_job_operation_len := int (length buf),
      spi_state := STATE_OPERATION_PENDING\<rparr>\<rparr>"
  define s2 where "s2 = s1\<lparr>pss_output := (pss_output s1)\<lparr>spi_state := STATE_BUSY\<rparr>\<rparr>"
  define s3 where "s3 = s2\<lparr>pss_output := (pss_output s2)\<lparr>spi_job_done_len := int (length buf), spi_state := STATE_DONE_PENDING\<rparr>\<rparr>"
  have 1: "pss_step (s, buf, [ppi_job_operation (pss_input s)]) [] [] (s1, buf, [spi_job_operation (pss_output s)])"
    using input_op [of s "(pss_input s)\<lparr>ppi_state := STATE_BUSY\<rparr>" 0 "int (length buf)" "[]" s1 "[spi_job_operation (pss_output s)]" buf]
      op buf(2) by (simp add: s_def s1_def pss_input_handler_send_def send_data_def iface_defs BPending_Set_def)
  have 2: "pss_step (s1, buf, [spi_job_operation (pss_output s)]) [] [] (s2, buf, [])"
    using output_op [of s1 "(pss_output s1)\<lparr>spi_state := STATE_BUSY\<rparr>" _ _ buf "[]"] by (simp add: s1_def s2_def iface_defs)
  have 3: "pss_step (s2, buf, []) [] buf (s3, buf, [spi_job_done (pss_output s)])"
    using output_ready [of s2 "int (length buf)" "[]" "pss_output s3" "[spi_job_done (pss_output s)]" buf] buf(2)
    by (simp add: s2_def s1_def s3_def iface_defs BPending_Set_def slice_0)
  have 4: "pss_step (s3, buf, [spi_job_done (pss_output s)]) [] [] (s', buf, [ppi_job_done (pss_input s)])"
    using output_done [of s3 "(pss_output s3)\<lparr>spi_state := STATE_NONE\<rparr>" "int (length buf)" "[]" s' "[ppi_job_done (pss_input s)]" buf]
    by (simp add: s3_def s2_def s1_def s'_def s_def pss_output_handler_done_def send_data_def iface_defs BPending_Set_def
        BPending_Unset_def)
  have st: "socks_run (c, js, fds, None) [] u (c\<lparr>sc_send_sender := x\<rparr>, js', fds, None) \<Longrightarrow>
      pss_step (x, buf, js') [] u' (x', buf, js'') \<Longrightarrow> ppi_state (pss_input x) = STATE_BUSY \<Longrightarrow>
      socks_run (c, js, fds, None) [] (u @ u') (c\<lparr>sc_send_sender := x'\<rparr>, js'', fds, None)" for js js' js'' u u' x x'
    using sc_snoc [of "(c, js, fds, None)" "[]" u "(c\<lparr>sc_send_sender := x\<rparr>, js', fds, None)" "[]" u'
        "(c\<lparr>sc_send_sender := x'\<rparr>, js'', fds, None)"] sc_sender [of "c\<lparr>sc_send_sender := x\<rparr>" buf js' u' x' js'' fds] hs buf(1)
    by simp
  have "socks_run (c, [ppi_job_operation (pss_input s)], fds, None) [] [] (c\<lparr>sc_send_sender := s1\<rparr>, [spi_job_operation (pss_output s)], fds, None)"
    using sc_snoc [OF sc_nil sc_sender [OF hs buf(1) _ 1 [unfolded s_def]]] op(1) by (simp add: s_def)
  from st [OF st [OF st [OF this 2] 3] 4] show ?thesis by (simp add: s_def s1_def s2_def s3_def)
qed

lemma socks_recv_all:
  assumes hs: "in_handshake c" and buf: "sc_buffer c = Some buf" and d: "d \<noteq> []" "sri_job_operation_len (sc_recv_if c) = int (length d)"
  defines "i \<equiv> (sc_recv_if c)\<lparr>sri_job_done_len := int (length d), sri_state := STATE_DONE_PENDING\<rparr>"
  shows "socks_run (c, [sri_job_operation (sc_recv_if c)], fds, None) d []
    (set_recv_if i (c\<lparr>sc_buffer := Some (splice (nat (sri_job_operation_data (sc_recv_if c))) d buf)\<rparr>),
     [sri_job_done (sc_recv_if c)], fds, None)"
proof -
  define c1 where "c1 = set_recv_if ((sc_recv_if c)\<lparr>sri_state := STATE_BUSY\<rparr>) c"
  have 1: "socks_step (c, [sri_job_operation (sc_recv_if c)], fds, None) [] [] (c1, [], fds, None)"
    using sc_recv_op [OF hs, of "(sc_recv_if c)\<lparr>sri_state := STATE_BUSY\<rparr>" _ _ "[]"] by (simp add: c1_def iface_defs)
  have 2: "socks_step (c1, [], fds, None) d []
    (set_recv_if i (c1\<lparr>sc_buffer := Some (splice (nat (sri_job_operation_data (sc_recv_if c1))) d buf)\<rparr>), [sri_job_done (sc_recv_if c)], fds, None)"
    by (rule sc_recv_ready) (use hs buf d in \<open>simp_all add: c1_def i_def iface_defs BPending_Set_def\<close>)
  from sc_snoc [OF sc_snoc [OF sc_nil 1] 2] show ?thesis by (simp add: c1_def)
qed

lemma socks_run_trans:
  "socks_run w' i' u' w'' \<Longrightarrow> socks_run w i u w' \<Longrightarrow> socks_run w (i @ i') (u @ u') w''"
proof (induction rule: socks_run.induct)
  case (sc_snoc w' ins outs w1 i1 u1 w2)
  then show ?case using socks_run.sc_snoc [of w "i @ ins" "u @ outs" w1 i1 u1 w2] by simp
qed simp

abbreviation (input) zalloc :: realloc where "zalloc \<equiv> (\<lambda>_ n. Some (replicate n 0))"

text \<open>A client in the middle of its handshake, and the exchange of one message and its reply.\<close>

lemma socks_exchange:
  assumes hs: "in_handshake c" and buf: "sc_buffer c = Some buf" "buf \<noteq> []"
    and op: "ppi_state (sc_send_if c) = STATE_OPERATION_PENDING" "ppi_job_operation_data (sc_send_if c) = 0"
      "ppi_job_operation_len (sc_send_if c) = int (length buf)"
    and st: "(sc_state c, st', l, n) \<in> {(STATE_SENDING_HELLO, STATE_SENT_HELLO, 2, 2), (STATE_SENDING_REQUEST, STATE_SENT_REQUEST, 22, 4)}"
    and d: "length d = n"
  shows "\<exists>c'. socks_run (c, [ppi_job_operation (sc_send_if c)], fds, None) d buf (c', [sri_job_done (sc_recv_if c')], fds, None) \<and>
    sc_state c' = st' \<and> sc_buffer c' = Some (d @ replicate (l - n) 0) \<and> sc_recv_len c' = 0 \<and> sc_recv_total c' = int n \<and>
    sri_job_done_len (sc_recv_if c') = int n \<and> sc_auth_info c' = sc_auth_info c \<and> sc_dest_addr c' = sc_dest_addr c"
proof -
  obtain s where 1: "socks_run (c, [ppi_job_operation (sc_send_if c)], fds, None) [] buf
      (c\<lparr>sc_send_sender := s\<rparr>, [ppi_job_done (sc_send_if c)], fds, None)"
    and s: "ppi_job_done (pss_input s) = ppi_job_done (sc_send_if c)" "ppi_job_operation (pss_input s) = ppi_job_operation (sc_send_if c)"
    using socks_send_all [OF hs buf op, of fds] by simp
  define c1 where "c1 = c\<lparr>sc_send_sender := s\<rparr>"
  define i where "i = (sc_recv_if c)\<lparr>sri_job_operation_data := 0, sri_job_operation_len := int n, sri_state := STATE_OPERATION_PENDING\<rparr>"
  define c2 where "c2 = set_recv_if i ((set_send_if ((sc_send_if c1)\<lparr>ppi_state := STATE_NONE\<rparr>) c1)\<lparr>sc_buffer := Some (replicate l 0),
    sc_recv_dest := 0, sc_recv_len := 0, sc_recv_total := int n, sc_state := st'\<rparr>)"
  have "realloc_ok zalloc" by (simp add: realloc_ok_def)
  moreover have "in_handshake c1" using hs by (simp add: c1_def)
  ultimately have "socks_step (c1, [ppi_job_done (sc_send_if c1)], fds, None) [] []
      (sc_finish fds (send_handler_done zalloc (set_send_if ((sc_send_if c1)\<lparr>ppi_state := STATE_NONE\<rparr>) c1) []))"
    by (intro sc_sent) (simp_all add: PacketPassInterface_job_done_def)
  moreover have "sc_finish fds (send_handler_done zalloc (set_send_if ((sc_send_if c1)\<lparr>ppi_state := STATE_NONE\<rparr>) c1) []) =
      (c2, [sri_job_operation (sc_recv_if c)], fds, None)"
    using st by (auto simp: sc_finish_def send_handler_done_def receive_into_def reserve_buffer_def BRealloc_def bsize_add_def bsize_max_def
        bsize_fromsize_def start_receive_def do_receive_def StreamRecvInterface_Receiver_Recv_def BPending_Set_def c1_def c2_def i_def)
  ultimately have 2: "socks_run (c1, [ppi_job_done (sc_send_if c)], fds, None) [] [] (c2, [sri_job_operation (sc_recv_if c)], fds, None)"
    using sc_snoc [OF sc_nil, of "(c1, [ppi_job_done (sc_send_if c)], fds, None)"] s by (simp add: c1_def)
  define c3 where "c3 = set_recv_if ((sc_recv_if c2)\<lparr>sri_job_done_len := int n, sri_state := STATE_DONE_PENDING\<rparr>)
    (c2\<lparr>sc_buffer := Some (splice 0 d (replicate l 0))\<rparr>)"
  have "in_handshake c2" "sc_buffer c2 = Some (replicate l 0)" "d \<noteq> []" "sri_job_operation_len (sc_recv_if c2) = int (length d)"
    using st d by (auto simp: c2_def i_def)
  from socks_recv_all [OF this, of fds] d
  have 3: "socks_run (c2, [sri_job_operation (sc_recv_if c)], fds, None) d [] (c3, [sri_job_done (sc_recv_if c)], fds, None)"
    by (simp add: c3_def c2_def i_def)
  have "splice 0 d (replicate l 0) = d @ replicate (l - n) 0" using d by (simp add: splice_at_start)
  moreover note socks_run_trans [OF 3 socks_run_trans [OF 2 1 [folded c1_def]]]
  ultimately show ?thesis
    by (intro exI [of _ c3]) (simp add: c3_def c2_def c1_def i_def s)
qed

lemma socks_received:
  assumes "in_handshake c" and "sri_job_done_len (sc_recv_if c) = n"
  shows "socks_run (c, sri_job_done (sc_recv_if c) # js, fds, None) [] []
    (sc_finish fds (recv_handler_done zalloc n (set_recv_if ((sc_recv_if c)\<lparr>sri_state := STATE_NONE\<rparr>) c) js))"
  using sc_snoc [OF sc_nil sc_recv_done [of c "(sc_recv_if c)\<lparr>sri_state := STATE_NONE\<rparr>" n zalloc js fds]] assms
  by (simp add: StreamRecvInterface_job_done_def realloc_ok_def)

lemma socks_received_hello:
  assumes "sc_state c = STATE_SENT_HELLO" "sc_buffer c = Some [5, 0]" "sc_recv_len c = 0" "sc_recv_total c = 2"
    "sri_job_done_len (sc_recv_if c) = 2" "sc_auth_info c = example_auth" "sc_dest_addr c = BADDR_IPV4 0x04030201 0x5000"
  shows "\<exists>c'. socks_run (c, [sri_job_done (sc_recv_if c)], fds, None) [] [] (c', [ppi_job_operation (sc_send_if c')], fds, None) \<and>
    sc_state c' = STATE_SENDING_REQUEST \<and> sc_buffer c' = Some (request_msg (BADDR_IPV4 0x04030201 0x5000)) \<and>
    ppi_state (sc_send_if c') = STATE_OPERATION_PENDING \<and> ppi_job_operation_data (sc_send_if c') = 0 \<and>
    ppi_job_operation_len (sc_send_if c') = 10"
proof -
  define w where "w = sc_finish fds (recv_handler_done zalloc 2 (set_recv_if ((sc_recv_if c)\<lparr>sri_state := STATE_NONE\<rparr>) c) [])"
  have "in_handshake c" using assms(1) by simp
  then have "socks_run (c, [sri_job_done (sc_recv_if c)], fds, None) [] [] w"
    unfolding w_def by (rule socks_received) (rule assms(5))
  moreover have "snd w = ([ppi_job_operation (sc_send_if (fst w))], fds, None)" "sc_state (fst w) = STATE_SENDING_REQUEST"
      "sc_buffer (fst w) = Some (request_msg (BADDR_IPV4 0x04030201 0x5000))" "ppi_state (sc_send_if (fst w)) = STATE_OPERATION_PENDING"
      "ppi_job_operation_data (sc_send_if (fst w)) = 0" "ppi_job_operation_len (sc_send_if (fst w)) = 10"
    using assms by (simp_all add: w_def sc_finish_def recv_handler_done_def received_hello_def auth_finished_def reserve_buffer_def
        BRealloc_def bsize_add_def bsize_fromsize_def example_auth_def send_buffer_def memcpy_buffer_def socks_addr_ipv4_def
        socks_request_header_def splice_def mem32_def mem16_def
        BPending_Set_def Let_def iface_defs)
  ultimately show ?thesis by (intro exI [of _ "fst w"]) (metis prod.collapse)
qed

lemma socks_received_reply_header:
  assumes "sc_state c = STATE_SENT_REQUEST" "sc_buffer c = Some ([5, 0, 0, 1] @ replicate 18 0)" "sc_recv_len c = 0" "sc_recv_total c = 4"
    "sri_job_done_len (sc_recv_if c) = 4"
  shows "\<exists>c'. socks_run (c, [sri_job_done (sc_recv_if c)], fds, None) [] [] (c', [sri_job_operation (sc_recv_if c')], fds, None) \<and>
    sc_state c' = STATE_RECEIVED_REPLY_HEADER \<and> sc_buffer c' = sc_buffer c \<and> sc_recv_len c' = 0 \<and> sc_recv_total c' = 6 \<and>
    sri_job_operation_len (sc_recv_if c') = 6"
proof -
  define w where "w = sc_finish fds (recv_handler_done zalloc 4 (set_recv_if ((sc_recv_if c)\<lparr>sri_state := STATE_NONE\<rparr>) c) [])"
  have "in_handshake c" using assms(1) by simp
  then have "socks_run (c, [sri_job_done (sc_recv_if c)], fds, None) [] [] w"
    unfolding w_def by (rule socks_received) (rule assms(5))
  moreover have "snd w = ([sri_job_operation (sc_recv_if (fst w))], fds, None)" "sc_state (fst w) = STATE_RECEIVED_REPLY_HEADER"
      "sc_buffer (fst w) = sc_buffer c" "sc_recv_len (fst w) = 0" "sc_recv_total (fst w) = 6" "sri_job_operation_len (sc_recv_if (fst w)) = 6"
    using assms by (simp_all add: w_def sc_finish_def recv_handler_done_def received_reply_header_def start_receive_def do_receive_def
        BPending_Set_def Let_def iface_defs)
  ultimately show ?thesis by (intro exI [of _ "fst w"]) (metis prod.collapse)
qed

lemma socks_received_reply:
  assumes "sc_state c = STATE_RECEIVED_REPLY_HEADER" "sc_recv_len c = 0" "sc_recv_total c = 6" "sri_job_done_len (sc_recv_if c) = 6"
  shows "\<exists>c' js. socks_run (c, [sri_job_done (sc_recv_if c)], fds, None) [] [] (c', js, fds, Some BSOCKSCLIENT_EVENT_UP)"
proof -
  have "in_handshake c" using assms(1) by simp
  from socks_received [OF this assms(4), of "[]" fds] assms show ?thesis
    by (auto simp: sc_finish_def recv_handler_done_def received_reply_rest_def Let_def split: prod.splits)
qed

lemma example_socks_up:
  obtains c0 c' js where "BSocksClient_Init example_sock (BADDR_IPV4 0x0100007F 0x3804) example_auth (BADDR_IPV4 0x04030201 0x5000)
      example_socks [] [] = (Some c0, [], [Fd_open 7])"
    and "sc_start_ok example_socks []" and "sc_args example_auth (BADDR_IPV4 0x04030201 0x5000)"
    and "socks_run (c0, [], [Fd_open 7], None) ([5, 0] @ [5, 0, 0, 1] @ [9, 9, 9, 9, 0, 80])
      ([5, 1, 0] @ request_msg (BADDR_IPV4 0x04030201 0x5000)) (c', js, [Fd_open 7], Some BSOCKSCLIENT_EVENT_UP)"
proof -
  let ?dest = "BADDR_IPV4 0x04030201 0x5000" and ?fds = "[Fd_open 7] :: fds"
  obtain c0 c1 where I: "BSocksClient_Init example_sock (BADDR_IPV4 0x0100007F 0x3804) example_auth ?dest
      example_socks [] [] = (Some c0, [], ?fds)" "sc_start_ok example_socks []" "sc_args example_auth ?dest"
    and r1: "socks_run (c0, [], ?fds, None) [] [] (c1, [6], ?fds, None)"
    and c1: "sc_state c1 = STATE_SENDING_HELLO" "sc_buffer c1 = Some [5, 1, 0]" "sc_auth_info c1 = example_auth"
      "sc_dest_addr c1 = ?dest" "ppi_job_operation (sc_send_if c1) = 6" "ppi_state (sc_send_if c1) = STATE_OPERATION_PENDING"
      "ppi_job_operation_data (sc_send_if c1) = 0" "ppi_job_operation_len (sc_send_if c1) = 3"
    by (rule example_socks_run)
  obtain c2 where r2: "socks_run (c1, [6], ?fds, None) [5, 0] [5, 1, 0] (c2, [sri_job_done (sc_recv_if c2)], ?fds, None)"
    and c2: "sc_state c2 = STATE_SENT_HELLO" "sc_buffer c2 = Some [5, 0]" "sc_recv_len c2 = 0" "sc_recv_total c2 = 2"
      "sri_job_done_len (sc_recv_if c2) = 2" "sc_auth_info c2 = example_auth" "sc_dest_addr c2 = ?dest"
    using socks_exchange [of c1 "[5, 1, 0]" STATE_SENT_HELLO 2 2 "[5, 0]" ?fds] c1 by auto
  obtain c3 where r3: "socks_run (c2, [sri_job_done (sc_recv_if c2)], ?fds, None) [] [] (c3, [ppi_job_operation (sc_send_if c3)], ?fds, None)"
    and c3: "sc_state c3 = STATE_SENDING_REQUEST" "sc_buffer c3 = Some (request_msg ?dest)"
      "ppi_state (sc_send_if c3) = STATE_OPERATION_PENDING" "ppi_job_operation_data (sc_send_if c3) = 0"
      "ppi_job_operation_len (sc_send_if c3) = 10"
    using socks_received_hello [OF c2, of ?fds] by auto
  obtain c4 where r4: "socks_run (c3, [ppi_job_operation (sc_send_if c3)], ?fds, None) [5, 0, 0, 1] (request_msg ?dest)
      (c4, [sri_job_done (sc_recv_if c4)], ?fds, None)"
    and c4: "sc_state c4 = STATE_SENT_REQUEST" "sc_buffer c4 = Some ([5, 0, 0, 1] @ replicate 18 0)" "sc_recv_len c4 = 0"
      "sc_recv_total c4 = 4" "sri_job_done_len (sc_recv_if c4) = 4"
    using socks_exchange [of c3 "request_msg ?dest" STATE_SENT_REQUEST 22 4 "[5, 0, 0, 1]" ?fds] c3 by auto
  obtain c5 where r5: "socks_run (c4, [sri_job_done (sc_recv_if c4)], ?fds, None) [] [] (c5, [sri_job_operation (sc_recv_if c5)], ?fds, None)"
    and c5: "sc_state c5 = STATE_RECEIVED_REPLY_HEADER" "sc_buffer c5 = Some ([5, 0, 0, 1] @ replicate 18 0)" "sc_recv_len c5 = 0"
      "sc_recv_total c5 = 6" "sri_job_operation_len (sc_recv_if c5) = 6"
    using socks_received_reply_header [OF c4, of ?fds] c4(2) by auto
  define c6 where "c6 = set_recv_if ((sc_recv_if c5)\<lparr>sri_job_done_len := 6, sri_state := STATE_DONE_PENDING\<rparr>)
    (c5\<lparr>sc_buffer := Some (splice (nat (sri_job_operation_data (sc_recv_if c5))) [9, 9, 9, 9, 0, 80] ([5, 0, 0, 1] @ replicate 18 0))\<rparr>)"
  have r6: "socks_run (c5, [sri_job_operation (sc_recv_if c5)], ?fds, None) [9, 9, 9, 9, 0, 80] []
      (c6, [sri_job_done (sc_recv_if c6)], ?fds, None)"
    using socks_recv_all [of c5 _ "[9, 9, 9, 9, 0, 80]" ?fds, OF _ c5(2)] c5(1,5) by (simp add: c6_def)
  obtain c7 js where r7: "socks_run (c6, [sri_job_done (sc_recv_if c6)], ?fds, None) [] [] (c7, js, ?fds, Some BSOCKSCLIENT_EVENT_UP)"
    using socks_received_reply [of c6 ?fds] c5 by (auto simp: c6_def)
  note R = socks_run_trans [OF r7 socks_run_trans [OF r6 socks_run_trans [OF r5 socks_run_trans [OF r4 socks_run_trans [OF r3
    socks_run_trans [OF r2 r1]]]]]]
  have "socks_run (c0, [], ?fds, None) ([5, 0] @ [5, 0, 0, 1] @ [9, 9, 9, 9, 0, 80])
      ([5, 1, 0] @ request_msg ?dest) (c7, js, ?fds, Some BSOCKSCLIENT_EVENT_UP)"
    using R by simp
  then show thesis by (rule that [OF I])
qed

theorem socks_up_dialogue_witness:
  "\<exists>(c0 :: nat BSocksClient) c' js. socks_run (c0, [], [Fd_open 7], None) [5, 0, 5, 0, 0, 1, 9, 9, 9, 9, 0, 80]
     ([5, 1, 0] @ request_msg (BADDR_IPV4 0x04030201 0x5000)) (c', js, [Fd_open 7], Some BSOCKSCLIENT_EVENT_UP) \<and> sc_state c' = STATE_UP"
proof -
  obtain c0 c' js where R: "BSocksClient_Init example_sock (BADDR_IPV4 0x0100007F 0x3804) example_auth (BADDR_IPV4 0x04030201 0x5000)
      example_socks [] [] = (Some c0, [], [Fd_open 7])" "sc_start_ok example_socks []"
      "sc_args example_auth (BADDR_IPV4 0x04030201 0x5000)"
      "socks_run (c0, [], [Fd_open 7], None) ([5, 0] @ [5, 0, 0, 1] @ [9, 9, 9, 9, 0, 80])
        ([5, 1, 0] @ request_msg (BADDR_IPV4 0x04030201 0x5000)) (c', js, [Fd_open 7], Some BSOCKSCLIENT_EVENT_UP)"
    by (rule example_socks_up)
  from socks_up_dialogue [OF R] have "sc_state c' = STATE_UP" by simp
  with R(4) show ?thesis by (intro exI conjI) (simp, assumption)
qed

end
