(* ===== verification/AvlTree.thy ===== *)
theory AvlTree
  imports Main "HOL-Library.Tree" "HOL-Library.Monad_Syntax"
begin

text \<open>
  The memory of the intrusive AVL trees of \<open>structure/\<close> and the trees it stores.  A node holds its
  two links, its parent and its balance factor; the tree holds the link of the root.  Links are
  values of an arbitrary type and the null link is \<open>None\<close>.  \<open>shape\<close> says that the nodes in the
  memory are linked, in both directions, as a tree of the library, and \<open>bal_ok\<close> that their
  balance factors are the differences of the heights and at most one.  A position in a tree is a
  list of frames, from the position up to the root; the lemmas put a subtree into its place and
  take it out again.
\<close>

section \<open>Nodes\<close>

record 'l CAvlNode =
  av_link :: "bool \<Rightarrow> 'l option"
  av_parent :: "'l option"
  av_balance :: int

record 'l CAvl =
  av_root :: "'l option"
  av_node :: "'l \<Rightarrow> 'l CAvlNode"

definition CAvl_link :: "'l CAvl \<Rightarrow> 'l \<Rightarrow> bool \<Rightarrow> 'l option" where
  "CAvl_link t n side = av_link (av_node t n) side"

definition CAvl_parent :: "'l CAvl \<Rightarrow> 'l \<Rightarrow> 'l option" where
  "CAvl_parent t n = av_parent (av_node t n)"

definition CAvl_balance :: "'l CAvl \<Rightarrow> 'l \<Rightarrow> int" where
  "CAvl_balance t n = av_balance (av_node t n)"

text \<open>Assignments to the fields of a node, to the root, and to the place that refers to a node.\<close>

definition set_link :: "'l \<Rightarrow> bool \<Rightarrow> 'l option \<Rightarrow> 'l CAvl \<Rightarrow> 'l CAvl" where
  "set_link n side l t =
     t\<lparr>av_node := (av_node t)(n := (av_node t n)\<lparr>av_link := (av_link (av_node t n))(side := l)\<rparr>)\<rparr>"

definition set_parent :: "'l \<Rightarrow> 'l option \<Rightarrow> 'l CAvl \<Rightarrow> 'l CAvl" where
  "set_parent n p t = t\<lparr>av_node := (av_node t)(n := (av_node t n)\<lparr>av_parent := p\<rparr>)\<rparr>"

definition set_balance :: "'l \<Rightarrow> int \<Rightarrow> 'l CAvl \<Rightarrow> 'l CAvl" where
  "set_balance n b t = t\<lparr>av_node := (av_node t)(n := (av_node t n)\<lparr>av_balance := b\<rparr>)\<rparr>"

definition set_parent_of :: "'l option \<Rightarrow> 'l option \<Rightarrow> 'l CAvl \<Rightarrow> 'l CAvl" where
  "set_parent_of l p t = (case l of None \<Rightarrow> t | Some n \<Rightarrow> set_parent n p t)"

named_theorems avl_simps \<open>reading the fields of a node after an assignment\<close>

lemma link_sets [avl_simps]:
  "CAvl_link (set_link n s l t) m s' = (if m = n \<and> s' = s then l else CAvl_link t m s')"
  "CAvl_link (set_parent n p t) = CAvl_link t"
  "CAvl_link (set_balance n b t) = CAvl_link t"
  "CAvl_link (t\<lparr>av_root := r\<rparr>) = CAvl_link t"
  "CAvl_link (set_parent_of k p t) = CAvl_link t"
  by (auto simp: CAvl_link_def set_link_def set_parent_def set_balance_def set_parent_of_def fun_eq_iff split: option.splits)

lemma parent_sets [avl_simps]:
  "CAvl_parent (set_link n s l t) = CAvl_parent t"
  "CAvl_parent (set_parent n p t) m = (if m = n then p else CAvl_parent t m)"
  "CAvl_parent (set_balance n b t) = CAvl_parent t"
  "CAvl_parent (t\<lparr>av_root := r\<rparr>) = CAvl_parent t"
  "CAvl_parent (set_parent_of k p t) m = (if k = Some m then p else CAvl_parent t m)"
  by (auto simp: CAvl_parent_def set_link_def set_parent_def set_balance_def set_parent_of_def fun_eq_iff split: option.splits)

lemma balance_sets [avl_simps]:
  "CAvl_balance (set_link n s l t) = CAvl_balance t"
  "CAvl_balance (set_parent n p t) = CAvl_balance t"
  "CAvl_balance (set_balance n b t) m = (if m = n then b else CAvl_balance t m)"
  "CAvl_balance (t\<lparr>av_root := r\<rparr>) = CAvl_balance t"
  "CAvl_balance (set_parent_of k p t) = CAvl_balance t"
  by (auto simp: CAvl_balance_def set_link_def set_parent_def set_balance_def set_parent_of_def fun_eq_iff split: option.splits)

lemma root_sets [avl_simps]:
  "av_root (set_link n s l t) = av_root t"
  "av_root (set_parent n p t) = av_root t"
  "av_root (set_balance n b t) = av_root t"
  "av_root (set_parent_of k p t) = av_root t"
  by (simp_all add: set_link_def set_parent_def set_balance_def set_parent_of_def split: option.split)

lemma node_sets [avl_simps]:
  "x \<noteq> n \<Longrightarrow> av_node (set_link n s l t) x = av_node t x"
  "x \<noteq> n \<Longrightarrow> av_node (set_parent n p t) x = av_node t x"
  "x \<noteq> n \<Longrightarrow> av_node (set_balance n b t) x = av_node t x"
  "k \<noteq> Some x \<Longrightarrow> av_node (set_parent_of k p t) x = av_node t x"
  by (auto simp: set_link_def set_parent_def set_balance_def set_parent_of_def split: option.split)

lemma node_eqI:
  assumes "\<And>s. CAvl_link t n s = CAvl_link t' n s" "CAvl_parent t n = CAvl_parent t' n" "CAvl_balance t n = CAvl_balance t' n"
  shows "av_node t n = (av_node t' n :: 'l CAvlNode)"
  using assms by (simp add: CAvl_link_def CAvl_parent_def CAvl_balance_def fun_eq_iff)


section \<open>Trees in memory\<close>

fun root_of :: "'l tree \<Rightarrow> 'l option" where
  "root_of \<langle>\<rangle> = None"
| "root_of \<langle>l, a, r\<rangle> = Some a"

fun shape :: "'l CAvl \<Rightarrow> 'l option \<Rightarrow> 'l tree \<Rightarrow> bool" where
  "shape o1 p \<langle>\<rangle> \<longleftrightarrow> True"
| "shape o1 p \<langle>l, a, r\<rangle> \<longleftrightarrow> CAvl_parent o1 a = p \<and> CAvl_link o1 a False = root_of l \<and> CAvl_link o1 a True = root_of r \<and>
     shape o1 (Some a) l \<and> shape o1 (Some a) r"

fun bal_ok :: "'l CAvl \<Rightarrow> 'l tree \<Rightarrow> bool" where
  "bal_ok o1 \<langle>\<rangle> \<longleftrightarrow> True"
| "bal_ok o1 \<langle>l, a, r\<rangle> \<longleftrightarrow> CAvl_balance o1 a = int (height r) - int (height l) \<and> CAvl_balance o1 a \<in> {-1, 0, 1} \<and>
     bal_ok o1 l \<and> bal_ok o1 r"

lemma root_of_eq_None [simp]: "root_of t = None \<longleftrightarrow> t = \<langle>\<rangle>"
  by (cases t) auto

lemma root_of_SomeD: "root_of t = Some a \<Longrightarrow> a \<in> set_tree t"
  by (cases t) auto

lemma shape_cong:
  "(\<And>x. x \<in> set_tree t \<Longrightarrow> CAvl_parent o1 x = CAvl_parent o2 x) \<Longrightarrow>
   (\<And>x s. x \<in> set_tree t \<Longrightarrow> CAvl_link o1 x s = CAvl_link o2 x s) \<Longrightarrow> shape o1 p t = shape o2 p t"
  by (induction t arbitrary: p) auto

lemma bal_ok_cong: "(\<And>x. x \<in> set_tree t \<Longrightarrow> CAvl_balance o1 x = CAvl_balance o2 x) \<Longrightarrow> bal_ok o1 t = bal_ok o2 t"
  by (induction t) auto

text \<open>A subtree that gets another parent.\<close>

lemma shape_set_parent:
  assumes "shape o1 p t" and "distinct (inorder t)"
    and "\<And>x. x \<in> set_tree t \<Longrightarrow> CAvl_parent o2 x = (if root_of t = Some x then q else CAvl_parent o1 x)"
    and "\<And>x s. x \<in> set_tree t \<Longrightarrow> CAvl_link o2 x s = CAvl_link o1 x s"
  shows "shape o2 q t"
proof (cases t)
  case (Node l a r)
  have "shape o2 (Some a) l = shape o1 (Some a) l" "shape o2 (Some a) r = shape o1 (Some a) r"
    using assms(2-4) Node by (intro shape_cong; auto)+
  then show ?thesis using assms Node by simp
qed simp


section \<open>Positions\<close>

type_synonym 'l frame = "bool \<times> 'l \<times> 'l tree"

definition node_at :: "bool \<Rightarrow> 'l \<Rightarrow> 'l tree \<Rightarrow> 'l tree \<Rightarrow> 'l tree" where
  "node_at side a t u = (if side then \<langle>u, a, t\<rangle> else \<langle>t, a, u\<rangle>)"

fun plug :: "'l frame list \<Rightarrow> 'l tree \<Rightarrow> 'l tree" where
  "plug [] t = t"
| "plug ((side, a, u) # fs) t = plug fs (node_at side a t u)"

fun par_of :: "'l frame list \<Rightarrow> 'l option" where
  "par_of [] = None"
| "par_of ((side, a, u) # fs) = Some a"

fun frame_set :: "'l frame list \<Rightarrow> 'l set" where
  "frame_set [] = {}"
| "frame_set ((side, a, u) # fs) = insert a (set_tree u \<union> frame_set fs)"

fun ctx_shape :: "'l CAvl \<Rightarrow> 'l frame list \<Rightarrow> 'l option \<Rightarrow> bool" where
  "ctx_shape o1 [] hole \<longleftrightarrow> av_root o1 = hole"
| "ctx_shape o1 ((side, a, u) # fs) hole \<longleftrightarrow> CAvl_link o1 a side = hole \<and> CAvl_link o1 a (\<not> side) = root_of u \<and>
     shape o1 (Some a) u \<and> CAvl_parent o1 a = par_of fs \<and> ctx_shape o1 fs (Some a)"

fun ctx_bal :: "'l CAvl \<Rightarrow> 'l frame list \<Rightarrow> int \<Rightarrow> bool" where
  "ctx_bal o1 [] h \<longleftrightarrow> True"
| "ctx_bal o1 ((side, a, u) # fs) h \<longleftrightarrow> CAvl_balance o1 a = (if side then h - int (height u) else int (height u) - h) \<and>
     CAvl_balance o1 a \<in> {-1, 0, 1} \<and> bal_ok o1 u \<and> ctx_bal o1 fs (1 + max h (int (height u)))"

lemma node_at_simps [simp]:
  "root_of (node_at s a t u) = Some a" "set_tree (node_at s a t u) = insert a (set_tree t \<union> set_tree u)"
  "height (node_at s a t u) = Suc (max (height t) (height u))" "node_at s a t u \<noteq> \<langle>\<rangle>"
  by (auto simp: node_at_def)

lemma shape_node_at [simp]:
  "shape o1 p (node_at s a t u) \<longleftrightarrow> CAvl_parent o1 a = p \<and> CAvl_link o1 a s = root_of t \<and> CAvl_link o1 a (\<not> s) = root_of u \<and>
    shape o1 (Some a) t \<and> shape o1 (Some a) u"
  by (cases s) (auto simp: node_at_def)

lemma bal_node_at [simp]:
  "bal_ok o1 (node_at s a t u) \<longleftrightarrow> CAvl_balance o1 a = (if s then int (height t) - int (height u) else int (height u) - int (height t)) \<and>
    CAvl_balance o1 a \<in> {-1, 0, 1} \<and> bal_ok o1 t \<and> bal_ok o1 u"
  by (cases s) (auto simp: node_at_def)

lemma set_plug [simp]: "set_tree (plug fs t) = set_tree t \<union> frame_set fs"
  by (induction fs t rule: plug.induct) auto

lemma inorder_plug_cong: "inorder t = inorder t' \<Longrightarrow> inorder (plug fs t) = inorder (plug fs t')"
proof (induction fs arbitrary: t t')
  case (Cons f fs)
  obtain s a u where "f = (s, a, u)" using prod_cases3 by blast
  then show ?case using Cons.IH [of "node_at s a t u" "node_at s a t' u"] Cons.prems by (simp add: node_at_def)
qed simp

lemma distinct_node_at [simp]:
  "distinct (inorder (node_at s a t u)) \<longleftrightarrow> a \<notin> set_tree t \<and> a \<notin> set_tree u \<and> set_tree t \<inter> set_tree u = {} \<and>
    distinct (inorder t) \<and> distinct (inorder u)"
  by (auto simp: node_at_def)

lemma distinct_plug_cong:
  "set_tree t = set_tree t' \<Longrightarrow> distinct (inorder t) = distinct (inorder t') \<Longrightarrow>
   distinct (inorder (plug fs t)) = distinct (inorder (plug fs t'))"
proof (induction fs arbitrary: t t')
  case (Cons f fs)
  obtain s a u where "f = (s, a, u)" using prod_cases3 by blast
  then show ?case using Cons.prems Cons.IH [of "node_at s a t u" "node_at s a t' u"] by simp
qed simp

lemma distinct_plugD:
  "distinct (inorder (plug fs t)) \<Longrightarrow> distinct (inorder t) \<and> set_tree t \<inter> frame_set fs = {}"
proof (induction fs arbitrary: t)
  case (Cons f fs)
  obtain s a u where "f = (s, a, u)" using prod_cases3 by blast
  then show ?case using Cons.prems Cons.IH [of "node_at s a t u"] by auto
qed simp

lemma plug_shape: "shape o1 None (plug fs t) \<and> av_root o1 = root_of (plug fs t) \<longleftrightarrow> shape o1 (par_of fs) t \<and> ctx_shape o1 fs (root_of t)"
proof (induction fs arbitrary: t)
  case (Cons f fs)
  obtain s a u where f: "f = (s, a, u)" using prod_cases3 by blast
  show ?case using Cons.IH [of "node_at s a t u"] by (auto simp: f)
qed auto

lemma plug_bal: "bal_ok o1 (plug fs t) \<longleftrightarrow> bal_ok o1 t \<and> ctx_bal o1 fs (int (height t))"
proof (induction fs arbitrary: t)
  case (Cons f fs)
  obtain s a u where f: "f = (s, a, u)" using prod_cases3 by blast
  have "1 + max (int (height t)) (int (height u)) = int (height (node_at s a t u))" by simp
  then show ?case using Cons.IH [of "node_at s a t u"] by (auto simp: f simp del: node_at_simps)
qed auto

lemma plug_append: "plug (fs @ gs) t = plug gs (plug fs t)"
  by (induction fs t rule: plug.induct) auto

lemma ctx_shape_cong:
  "(\<And>x. x \<in> frame_set fs \<Longrightarrow> CAvl_parent o1 x = CAvl_parent o2 x) \<Longrightarrow>
   (\<And>x s. x \<in> frame_set fs \<Longrightarrow> CAvl_link o1 x s = CAvl_link o2 x s) \<Longrightarrow> av_root o1 = av_root o2 \<Longrightarrow>
   ctx_shape o1 fs h = ctx_shape o2 fs h"
proof (induction fs arbitrary: h)
  case (Cons f fs)
  obtain s a u where f: "f = (s, a, u)" using prod_cases3 by blast
  have "shape o1 (Some a) u = shape o2 (Some a) u" using Cons.prems by (intro shape_cong) (auto simp: f)
  then show ?case using Cons by (auto simp: f)
qed simp

lemma ctx_bal_cong: "(\<And>x. x \<in> frame_set fs \<Longrightarrow> CAvl_balance o1 x = CAvl_balance o2 x) \<Longrightarrow> ctx_bal o1 fs h = ctx_bal o2 fs h"
proof (induction fs arbitrary: h)
  case (Cons f fs)
  obtain s a u where f: "f = (s, a, u)" using prod_cases3 by blast
  have "bal_ok o1 u = bal_ok o2 u" using Cons.prems by (intro bal_ok_cong) (auto simp: f)
  then show ?case using Cons by (auto simp: f)
qed simp

lemma tree_position: "a \<in> set_tree t \<Longrightarrow> \<exists>fs l r. t = plug fs \<langle>l, a, r\<rangle>"
proof (induction t)
  case (Node l b r)
  consider "a = b" | "a \<in> set_tree l" | "a \<in> set_tree r" using Node.prems by auto
  then show ?case
  proof cases
    case 1
    then show ?thesis by (intro exI [of _ "[]"]) auto
  next
    case 2
    then obtain fs l' r' where "l = plug fs \<langle>l', a, r'\<rangle>" using Node.IH(1) by blast
    then show ?thesis by (intro exI [of _ "fs @ [(False, b, r)]"]) (auto simp: plug_append node_at_def)
  next
    case 3
    then obtain fs l' r' where "r = plug fs \<langle>l', a, r'\<rangle>" using Node.IH(2) by blast
    then show ?thesis by (intro exI [of _ "fs @ [(True, b, l)]"]) (auto simp: plug_append node_at_def)
  qed
qed simp

end
