(* ===== verification/CAvlOps.thy ===== *)
theory CAvlOps
  imports AvlTree
begin

text \<open>
  The intrusive AVL tree of \<open>structure/CAvl_impl.h\<close>, in the configuration of its instances in the
  program (no counts, no associative sums), and its wrapper \<open>structure/SAvl_impl.h\<close>.  The
  comparison of two entries is a parameter.  A null dereference and a loop that does not end are
  \<open>None\<close>, so that the lemmas, which all give a \<open>Some\<close>, show that neither happens on the trees the
  operations build.  The tree refines a sorted list: insertion, removal, the first and the last entry,
  neighbours and lookups are those of the list, and every operation keeps the links, the parents
  and the balance factors.
\<close>

section \<open>Operations\<close>

definition CAvl_OPTNEG :: "int \<Rightarrow> bool \<Rightarrow> int" where
  "CAvl_OPTNEG a neg = (if neg then - a else a)"

text \<open>\<open>CAvl_link(p)[r == CAvl_link(p)[1]] = n\<close>, or the root when there is no parent.\<close>

definition replace_child :: "'l option \<Rightarrow> 'l \<Rightarrow> 'l option \<Rightarrow> 'l CAvl \<Rightarrow> 'l CAvl" where
  "replace_child p r n t =
     (case p of None \<Rightarrow> t\<lparr>av_root := n\<rparr> | Some q \<Rightarrow> set_link q (CAvl_link t q True = Some r) n t)"

definition CAvl_rotate :: "'l CAvl \<Rightarrow> 'l \<Rightarrow> bool \<Rightarrow> 'l option \<Rightarrow> 'l CAvl option" where
  "CAvl_rotate t r dir r_parent = do {
     nr \<leftarrow> CAvl_link t r (\<not> dir);
     let c = CAvl_link t nr dir;
     let t = set_link r (\<not> dir) c t;
     let t = set_parent_of c (Some r) t;
     let t = set_link nr dir (Some r) t;
     let t = set_parent nr r_parent t;
     let t = replace_child r_parent r (Some nr) t;
     Some (set_parent r (Some nr) t)
   }"

partial_function (option) CAvl_descend :: "'l CAvl \<Rightarrow> 'l \<Rightarrow> bool \<Rightarrow> 'l option" where
  "CAvl_descend t n side = (case CAvl_link t n side of None \<Rightarrow> Some n | Some c \<Rightarrow> CAvl_descend t c side)"

definition CAvl_subtree_min :: "'l CAvl \<Rightarrow> 'l \<Rightarrow> 'l option" where
  "CAvl_subtree_min t n = CAvl_descend t n False"

definition CAvl_subtree_max :: "'l CAvl \<Rightarrow> 'l \<Rightarrow> 'l option" where
  "CAvl_subtree_max t n = CAvl_descend t n True"

definition CAvl_replace_subtree_fix_assoc :: "'l CAvl \<Rightarrow> 'l \<Rightarrow> 'l option \<Rightarrow> 'l option \<Rightarrow> 'l CAvl" where
  "CAvl_replace_subtree_fix_assoc t dest n dest_parent =
     (let t = replace_child dest_parent dest n t
      in set_parent_of n (CAvl_parent t dest) t)"

definition CAvl_swap_for_remove :: "'l CAvl \<Rightarrow> 'l \<Rightarrow> 'l \<Rightarrow> 'l option \<Rightarrow> 'l option \<Rightarrow> 'l CAvl" where
  "CAvl_swap_for_remove t node enode node_parent enode_parent =
     (let t =
        (if enode_parent = Some node then
           let side = (Some enode = CAvl_link t node True);
               c = CAvl_link t node (\<not> side);
               t = set_link node False (CAvl_link t enode False) t;
               t = set_parent_of (CAvl_link t node False) (Some node) t;
               t = set_link node True (CAvl_link t enode True) t;
               t = set_parent_of (CAvl_link t node True) (Some node) t;
               t = set_parent enode (CAvl_parent t node) t;
               t = replace_child node_parent node (Some enode) t;
               t = set_link enode side (Some node) t;
               t = set_parent node (Some enode) t;
               t = set_link enode (\<not> side) c t
           in set_parent_of c (Some enode) t
         else
           let temp = node_parent;
               t = set_parent node (CAvl_parent t enode) t;
               t = replace_child enode_parent enode (Some node) t;
               t = set_parent enode temp t;
               t = replace_child temp node (Some enode) t;
               temp = CAvl_link t node False;
               t = set_link node False (CAvl_link t enode False) t;
               t = set_parent_of (CAvl_link t node False) (Some node) t;
               t = set_link enode False temp t;
               t = set_parent_of (CAvl_link t enode False) (Some enode) t;
               temp = CAvl_link t node True;
               t = set_link node True (CAvl_link t enode True) t;
               t = set_parent_of (CAvl_link t node True) (Some node) t;
               t = set_link enode True temp t
           in set_parent_of (CAvl_link t enode True) (Some enode) t);
          b = CAvl_balance t node;
          t = set_balance node (CAvl_balance t enode) t
      in set_balance enode b t)"

text \<open>The transformations of \<open>CAvl_rebalance\<close>, with the node that takes the place of \<open>node\<close>.\<close>

definition rebalance_transform :: "'l CAvl \<Rightarrow> 'l \<Rightarrow> int \<Rightarrow> ('l CAvl \<times> 'l \<times> int) option" where
  "rebalance_transform t node delta =
     (if CAvl_balance t node = 2 \<or> CAvl_balance t node = -2 then
        let bside = (CAvl_balance t node = 2); bsidef = (if CAvl_balance t node = 2 then 1 else -1) in
        do {
          child \<leftarrow> CAvl_link t node bside;
          if CAvl_balance t child * bsidef = 1 then do {
            t \<leftarrow> CAvl_rotate t node (\<not> bside) (CAvl_parent t node);
            Some (set_balance child 0 (set_balance node 0 t), child, delta - 1)
          }
          else if CAvl_balance t child * bsidef = 0 then do {
            t \<leftarrow> CAvl_rotate t node (\<not> bside) (CAvl_parent t node);
            Some (set_balance child (- 1 * bsidef) (set_balance node (1 * bsidef) t), child, delta)
          }
          else do {
            gchild \<leftarrow> CAvl_link t child (\<not> bside);
            t \<leftarrow> CAvl_rotate t child bside (Some node);
            t \<leftarrow> CAvl_rotate t node (\<not> bside) (CAvl_parent t node);
            let t = set_balance node (- max 0 (CAvl_balance t gchild * bsidef) * bsidef) t;
            let t = set_balance child (max 0 (- CAvl_balance t gchild * bsidef) * bsidef) t;
            Some (set_balance gchild 0 t, gchild, delta - 1)
          }
        }
      else Some (t, node, delta))"

partial_function (option) CAvl_rebalance :: "'l CAvl \<Rightarrow> 'l \<Rightarrow> bool \<Rightarrow> int \<Rightarrow> 'l CAvl option" where
  "CAvl_rebalance t node side deltac =
     (if deltac = 0 then Some t
      else
        let delta = max deltac (CAvl_OPTNEG (CAvl_balance t node) side) - max 0 (CAvl_OPTNEG (CAvl_balance t node) side);
            t = set_balance node (CAvl_balance t node - CAvl_OPTNEG deltac side) t
        in Option.bind (rebalance_transform t node delta) (\<lambda>(t, node, delta).
             case CAvl_parent t node of
               None \<Rightarrow> Some t
             | Some p \<Rightarrow> CAvl_rebalance t p (Some node = CAvl_link t p True) delta))"

definition CAvl_Init :: "'l CAvl \<Rightarrow> 'l CAvl" where
  "CAvl_Init t = t\<lparr>av_root := None\<rparr>"

definition init_node :: "'l \<Rightarrow> 'l option \<Rightarrow> 'l CAvl \<Rightarrow> 'l CAvl" where
  "init_node node p t =
     (let t = set_parent node p t;
          t = set_link node False None t;
          t = set_link node True None t
      in set_balance node 0 t)"

text \<open>The search of \<open>CAvl_Insert\<close>: an entry that compares equal, or the place for the new one.\<close>

partial_function (option) insert_search :: "('l \<Rightarrow> int) \<Rightarrow> 'l CAvl \<Rightarrow> 'l \<Rightarrow> ('l + 'l \<times> bool) option" where
  "insert_search cmp t c =
     (let comp = cmp c in
      if comp = 0 then Some (Inl c)
      else
        let side = (comp = 1) in
        case CAvl_link t c side of None \<Rightarrow> Some (Inr (c, side)) | Some c \<Rightarrow> insert_search cmp t c)"

definition CAvl_Insert :: "('l \<Rightarrow> 'l \<Rightarrow> int) \<Rightarrow> 'l CAvl \<Rightarrow> 'l \<Rightarrow> ('l CAvl \<times> bool \<times> 'l option) option" where
  "CAvl_Insert cmp t node =
     (case av_root t of
        None \<Rightarrow> Some (init_node node None (t\<lparr>av_root := Some node\<rparr>), True, None)
      | Some c \<Rightarrow>
          Option.bind (insert_search (cmp node) t c) (\<lambda>res.
            case res of
              Inl c \<Rightarrow> Some (t, False, Some c)
            | Inr (c, side) \<Rightarrow>
                let t = set_link c side (Some node) t;
                    t = init_node node (Some c) t
                in map_option (\<lambda>t. (t, True, Some c)) (CAvl_rebalance t c side 1)))"

text \<open>\<open>CAvl_Remove\<close> from where the node has at most one child, and the whole of it.\<close>

definition remove_single :: "'l CAvl \<Rightarrow> 'l \<Rightarrow> 'l CAvl option" where
  "remove_single t node =
     (let paren = CAvl_parent t node;
          child = (if CAvl_link t node False \<noteq> None then CAvl_link t node False else CAvl_link t node True)
      in case paren of
           Some p \<Rightarrow>
             let side = (Some node = CAvl_link t p True);
                 t = CAvl_replace_subtree_fix_assoc t node child paren
             in CAvl_rebalance t p side (-1)
         | None \<Rightarrow> Some (CAvl_replace_subtree_fix_assoc t node child paren))"

definition CAvl_Remove :: "'l CAvl \<Rightarrow> 'l \<Rightarrow> 'l CAvl option" where
  "CAvl_Remove t node = do {
     t \<leftarrow> (case (CAvl_link t node False, CAvl_link t node True) of
            (Some l, Some r) \<Rightarrow>
              do {
                m \<leftarrow> CAvl_subtree_max t l;
                Some (CAvl_swap_for_remove t node m (CAvl_parent t node) (CAvl_parent t m))
              }
          | _ \<Rightarrow> Some t);
     remove_single t node
   }"

definition CAvl_GetFirst :: "'l CAvl \<Rightarrow> 'l option option" where
  "CAvl_GetFirst t = (case av_root t of None \<Rightarrow> Some None | Some r \<Rightarrow> map_option Some (CAvl_subtree_min t r))"

definition CAvl_GetLast :: "'l CAvl \<Rightarrow> 'l option option" where
  "CAvl_GetLast t = (case av_root t of None \<Rightarrow> Some None | Some r \<Rightarrow> map_option Some (CAvl_subtree_max t r))"

text \<open>The loop to the first ancestor of which the node is not in the subtree at \<open>side\<close>.\<close>

partial_function (option) CAvl_climb :: "'l CAvl \<Rightarrow> 'l \<Rightarrow> bool \<Rightarrow> 'l option option" where
  "CAvl_climb t node side =
     (case CAvl_parent t node of
        None \<Rightarrow> Some None
      | Some p \<Rightarrow> if Some node = CAvl_link t p side then CAvl_climb t p side else Some (Some p))"

definition CAvl_GetNext :: "'l CAvl \<Rightarrow> 'l \<Rightarrow> 'l option option" where
  "CAvl_GetNext t node =
     (case CAvl_link t node True of
        Some c \<Rightarrow> map_option Some (CAvl_descend t c False)
      | None \<Rightarrow> CAvl_climb t node True)"

definition CAvl_GetPrev :: "'l CAvl \<Rightarrow> 'l \<Rightarrow> 'l option option" where
  "CAvl_GetPrev t node =
     (case CAvl_link t node False of
        Some c \<Rightarrow> map_option Some (CAvl_descend t c True)
      | None \<Rightarrow> CAvl_climb t node False)"

definition CAvl_IsEmpty :: "'l CAvl \<Rightarrow> bool" where
  "CAvl_IsEmpty t \<longleftrightarrow> av_root t = None"

text \<open>Lookups, with the comparison of the key and an entry.\<close>

definition CAvl_Lookup :: "('l \<Rightarrow> int) \<Rightarrow> 'l CAvl \<Rightarrow> 'l option option" where
  "CAvl_Lookup cmp t =
     (case av_root t of
        None \<Rightarrow> Some None
      | Some c \<Rightarrow> map_option (\<lambda>res. case res of Inl c \<Rightarrow> Some c | Inr (c, side) \<Rightarrow> Some c) (insert_search cmp t c))"

definition CAvl_LookupExact :: "('l \<Rightarrow> int) \<Rightarrow> 'l CAvl \<Rightarrow> 'l option option" where
  "CAvl_LookupExact cmp t =
     (case av_root t of
        None \<Rightarrow> Some None
      | Some c \<Rightarrow> map_option (\<lambda>res. case res of Inl c \<Rightarrow> Some c | Inr (c, side) \<Rightarrow> None) (insert_search cmp t c))"

section \<open>Rotation and rebalancing\<close>

definition same_outside :: "'l set \<Rightarrow> 'l CAvl \<Rightarrow> 'l CAvl \<Rightarrow> bool" where
  "same_outside S o1 o2 \<longleftrightarrow> (\<forall>x. x \<notin> S \<longrightarrow> av_node o2 x = av_node o1 x)"

text \<open>Another subtree in the place of a node.\<close>

lemma ctx_replace_child:
  assumes "ctx_shape o1 fs (Some r)" and "distinct (inorder (plug fs t))" and "r \<in> set_tree t"
  shows "ctx_shape (replace_child (par_of fs) r n o1) fs n"
    "CAvl_parent (replace_child (par_of fs) r n o1) = CAvl_parent o1"
    "CAvl_balance (replace_child (par_of fs) r n o1) = CAvl_balance o1"
    "x \<in> set_tree t \<Longrightarrow> CAvl_link (replace_child (par_of fs) r n o1) x = CAvl_link o1 x"
    "x \<notin> frame_set fs \<Longrightarrow> av_node (replace_child (par_of fs) r n o1) x = av_node o1 x"
proof -
  have "ctx_shape (replace_child (par_of fs) r n o1) fs n \<and>
    (x \<in> set_tree t \<longrightarrow> CAvl_link (replace_child (par_of fs) r n o1) x = CAvl_link o1 x) \<and>
    (x \<notin> frame_set fs \<longrightarrow> av_node (replace_child (par_of fs) r n o1) x = av_node o1 x)"
  proof (cases fs)
    case Nil
    then show ?thesis using assms(1) by (simp add: replace_child_def CAvl_link_def fun_eq_iff)
  next
    case (Cons f gs)
    obtain s a u where f: "f = (s, a, u)" using prod_cases3 by blast
    let ?o = "replace_child (Some a) r n o1"
    have d: "distinct (inorder (node_at s a t u))" "set_tree (node_at s a t u) \<inter> frame_set gs = {}"
      using distinct_plugD [of gs "node_at s a t u"] assms(2) by (auto simp: Cons f)
    have side: "(CAvl_link o1 a True = Some r) = s"
      using assms(1,3) d(1) root_of_SomeD [of u r] by (cases s) (auto simp: Cons f)
    have sh: "shape ?o (Some a) u = shape o1 (Some a) u"
      using d(1) by (intro shape_cong) (auto simp: replace_child_def avl_simps)
    have cs: "ctx_shape ?o gs (Some a) = ctx_shape o1 gs (Some a)"
      using d(2) by (intro ctx_shape_cong) (auto simp: replace_child_def avl_simps)
    show ?thesis using assms(1) d sh cs side
      by (auto simp: Cons f replace_child_def avl_simps fun_eq_iff)
  qed
  then show "ctx_shape (replace_child (par_of fs) r n o1) fs n"
    "x \<in> set_tree t \<Longrightarrow> CAvl_link (replace_child (par_of fs) r n o1) x = CAvl_link o1 x"
    "x \<notin> frame_set fs \<Longrightarrow> av_node (replace_child (par_of fs) r n o1) x = av_node o1 x"
    by simp_all
qed (auto simp: replace_child_def avl_simps split: option.split)

lemma CAvl_rotate_shape:
  fixes o1 :: "'l CAvl"
  assumes ctx: "ctx_shape o1 fs (Some r)" and sh: "shape o1 (par_of fs) (node_at (\<not> dir) r (node_at dir nr B C) A)"
    and d: "distinct (inorder (plug fs (node_at (\<not> dir) r (node_at dir nr B C) A)))"
  obtains o2 where "CAvl_rotate o1 r dir (par_of fs) = Some o2" "ctx_shape o2 fs (Some nr)"
    "shape o2 (par_of fs) (node_at dir nr (node_at (\<not> dir) r B A) C)" "CAvl_balance o2 = CAvl_balance o1"
    "same_outside (set_tree (node_at (\<not> dir) r (node_at dir nr B C) A) \<union> frame_set fs) o1 o2"
proof -
  let ?t = "node_at (\<not> dir) r (node_at dir nr B C) A"
  define oa where "oa = set_parent nr (par_of fs) (set_link nr dir (Some r) (set_parent_of (root_of B) (Some r) (set_link r (\<not> dir) (root_of B) o1)))"
  define ob where "ob = replace_child (par_of fs) r (Some nr) oa"
  define o2 where "o2 = set_parent r (Some nr) ob"
  from distinct_plugD [OF d] have D: "distinct (inorder ?t)" "set_tree ?t \<inter> frame_set fs = {}" by simp_all
  have B: "root_of B \<noteq> Some x" if "x \<notin> set_tree B" for x using that root_of_SomeD [of B x] by auto
  have "ctx_shape oa fs (Some r) = ctx_shape o1 fs (Some r)"
    using D B by (intro ctx_shape_cong) (auto simp: oa_def avl_simps)
  then have ca: "ctx_shape oa fs (Some r)" using ctx by simp
  have "r \<in> set_tree ?t" by simp
  note rc = ctx_replace_child [OF ca d this, where n = "Some nr"]
  have pb: "CAvl_parent ob = CAvl_parent oa" "CAvl_balance ob = CAvl_balance oa" using rc(2,3) by (simp_all add: ob_def)
  have lb: "CAvl_link ob x = CAvl_link oa x" if "x \<in> set_tree ?t" for x using rc(4) that by (simp add: ob_def)
  have "ctx_shape o2 fs (Some nr) = ctx_shape ob fs (Some nr)"
    using D by (intro ctx_shape_cong) (auto simp: o2_def avl_simps)
  then have 1: "ctx_shape o2 fs (Some nr)" using rc(1) by (simp add: ob_def)
  have l2: "CAvl_link o2 x s = (if x = r \<and> s = (\<not> dir) then root_of B else if x = nr \<and> s = dir then Some r else CAvl_link o1 x s)"
    if "x \<in> set_tree ?t" for x s using lb [OF that] D by (auto simp: o2_def oa_def avl_simps)
  have p2: "CAvl_parent o2 x = (if x = r then Some nr else if x = nr then par_of fs else if root_of B = Some x then Some r else CAvl_parent o1 x)" for x
    using D B by (auto simp: o2_def pb oa_def avl_simps)
  have "shape o2 (Some r) A = shape o1 (Some r) A" using D B by (intro shape_cong) (auto simp: l2 p2)
  moreover have "shape o2 (Some nr) C = shape o1 (Some nr) C" using D B by (intro shape_cong) (auto simp: l2 p2)
  moreover have "shape o2 (Some r) B"
    by (rule shape_set_parent [of o1 "Some nr"]) (use sh D B in \<open>auto simp: l2 p2\<close>)
  ultimately have 2: "shape o2 (par_of fs) (node_at dir nr (node_at (\<not> dir) r B A) C)"
    using sh D by (auto simp: l2 p2)
  have 3: "CAvl_balance o2 = CAvl_balance o1" by (auto simp: o2_def pb oa_def avl_simps fun_eq_iff)
  have "av_node o2 x = av_node o1 x" if "x \<notin> set_tree ?t \<union> frame_set fs" for x
    using that B rc(5) [of x] by (auto simp: o2_def ob_def oa_def avl_simps)
  then have 4: "same_outside (set_tree ?t \<union> frame_set fs) o1 o2" by (simp add: same_outside_def)
  have "CAvl_rotate o1 r dir (par_of fs) = Some o2"
    using sh by (simp add: CAvl_rotate_def o2_def ob_def oa_def Let_def)
  with 1 2 3 4 that show thesis by blast
qed

lemma inorder_rotate: "inorder (node_at dir nr (node_at (\<not> dir) r B A) C) = inorder (node_at (\<not> dir) r (node_at dir nr B C) A)"
  by (simp add: node_at_def)

lemma same_outside_trans: "same_outside S o1 o2 \<Longrightarrow> same_outside S o2 o3 \<Longrightarrow> same_outside S o1 o3"
  by (simp add: same_outside_def)

lemma same_outside_mono: "same_outside S o1 o2 \<Longrightarrow> S \<subseteq> T \<Longrightarrow> same_outside T o1 o2"
  by (auto simp: same_outside_def)

text \<open>
  A node whose two subtrees differ by at most two in height, and whose balance factor says so,
  becomes a balanced subtree with the same entries; \<open>delta\<close> is corrected when it got lower.
\<close>

definition avl_at :: "'l CAvl \<Rightarrow> 'l frame list \<Rightarrow> 'l tree \<Rightarrow> bool" where
  "avl_at o1 fs t \<longleftrightarrow> shape o1 (par_of fs) t \<and> ctx_shape o1 fs (root_of t) \<and> distinct (inorder (plug fs t))"

definition transformed :: "'l CAvl \<Rightarrow> 'l frame list \<Rightarrow> 'l tree \<Rightarrow> int \<Rightarrow> ('l CAvl \<times> 'l \<times> int) option \<Rightarrow> bool" where
  "transformed o1 fs t delta res \<longleftrightarrow> (\<exists>o2 t' n. res = Some (o2, n, delta + int (height t') - int (height t)) \<and> root_of t' = Some n \<and>
     avl_at o2 fs t' \<and> bal_ok o2 t' \<and> inorder t' = inorder t \<and> same_outside (set_tree t \<union> frame_set fs) o1 o2 \<and>
     height t' \<le> height t \<and> height t \<le> Suc (height t') \<and> (\<forall>x. x \<notin> set_tree t \<longrightarrow> CAvl_balance o2 x = CAvl_balance o1 x))"

lemma transformedI:
  assumes "res = Some (o2, n, delta + int (height t') - int (height t))" "root_of t' = Some n" "avl_at o2 fs t'" "bal_ok o2 t'"
    "inorder t' = inorder t" "same_outside (set_tree t \<union> frame_set fs) o1 o2"
    "height t' \<le> height t" "height t \<le> Suc (height t')"
    "\<And>x. x \<notin> set_tree t \<Longrightarrow> CAvl_balance o2 x = CAvl_balance o1 x"
  shows "transformed o1 fs t delta res"
  using assms unfolding transformed_def by blast

lemma avl_at_set_balance [simp]: "avl_at (set_balance n b o1) fs t = avl_at o1 fs t"
proof -
  have "shape (set_balance n b o1) p u = shape o1 p u" for p u by (intro shape_cong) (simp_all add: avl_simps)
  moreover have "ctx_shape (set_balance n b o1) fs h = ctx_shape o1 fs h" for h by (intro ctx_shape_cong) (simp_all add: avl_simps)
  ultimately show ?thesis by (simp add: avl_at_def)
qed

lemma avl_at_rotate:
  assumes "avl_at o1 fs (node_at (\<not> dir) r (node_at dir nr B C) A)"
  obtains o2 where "CAvl_rotate o1 r dir (par_of fs) = Some o2" "avl_at o2 fs (node_at dir nr (node_at (\<not> dir) r B A) C)"
    "CAvl_balance o2 = CAvl_balance o1"
    "same_outside (set_tree (node_at (\<not> dir) r (node_at dir nr B C) A) \<union> frame_set fs) o1 o2"
proof -
  from assms have a: "ctx_shape o1 fs (Some r)" "shape o1 (par_of fs) (node_at (\<not> dir) r (node_at dir nr B C) A)"
    "distinct (inorder (plug fs (node_at (\<not> dir) r (node_at dir nr B C) A)))" by (simp_all add: avl_at_def)
  have "inorder (plug fs (node_at dir nr (node_at (\<not> dir) r B A) C)) = inorder (plug fs (node_at (\<not> dir) r (node_at dir nr B C) A))"
    by (rule inorder_plug_cong) (rule inorder_rotate)
  with a(3) have "distinct (inorder (plug fs (node_at dir nr (node_at (\<not> dir) r B A) C)))" by simp
  with CAvl_rotate_shape [OF a] that show thesis unfolding avl_at_def by (metis node_at_simps(1))
qed

lemma avl_at_plug: "avl_at o1 [] (plug fs t) \<longleftrightarrow> avl_at o1 fs t"
  using plug_shape [of o1 fs t] by (auto simp: avl_at_def)

lemma avl_at_parent: "avl_at o1 fs t \<Longrightarrow> root_of t = Some n \<Longrightarrow> CAvl_parent o1 n = par_of fs"
  by (cases t) (auto simp: avl_at_def)

lemma avl_at_distinct: "avl_at o1 fs t \<Longrightarrow> distinct (inorder t)"
  using distinct_plugD by (auto simp: avl_at_def)

text \<open>A single rotation, when the heavier child leans to its outer side or to none.\<close>

lemma single_rotation:
  fixes o1 :: "'l CAvl"
  assumes at: "avl_at o1 fs (node_at bside node (node_at bside child C B) A)"
    and bal: "bal_ok o1 A" "bal_ok o1 (node_at bside child C B)" "int (height (node_at bside child C B)) = int (height A) + 2"
    and nb: "CAvl_balance o1 node = (if bside then 2 else -2)" and le: "height B \<le> height C"
  shows "transformed o1 fs (node_at bside node (node_at bside child C B) A) delta (rebalance_transform o1 node delta)"
proof -
  let ?t = "node_at bside node (node_at bside child C B) A" and ?t' = "node_at bside child C (node_at bside node B A)"
  let ?f = "if bside then 1 else -1 :: int"
  have t: "node_at (\<not> (\<not> bside)) node (node_at (\<not> bside) child B C) A = ?t" by (simp add: node_at_def)
  have t': "node_at (\<not> bside) child (node_at (\<not> (\<not> bside)) node B A) C = ?t'" by (simp add: node_at_def)
  have fl: "node_at bside child C B = node_at (\<not> bside) child B C" by (simp add: node_at_def)
  obtain o2 where o2: "CAvl_rotate o1 node (\<not> bside) (par_of fs) = Some o2" "avl_at o2 fs ?t'"
      "CAvl_balance o2 = CAvl_balance o1" "same_outside (set_tree ?t \<union> frame_set fs) o1 o2"
    using avl_at_rotate [of o1 fs "\<not> bside" node child B C A] at unfolding t t' by blast
  have par: "CAvl_parent o1 node = par_of fs" using avl_at_parent [OF at] by simp
  have ch: "CAvl_link o1 node bside = Some child" using at by (simp add: avl_at_def)
  have D: "distinct (inorder ?t)" using avl_at_distinct [OF at] .
  have hC: "height C = Suc (height A)" using bal(2,3) le by (auto split: if_splits)
  define b where "b = (if height B = height C then 1 else 0 :: int)"
  have cb: "CAvl_balance o1 child * ?f = 1 - b" using bal(2) le unfolding b_def by (auto split: if_splits)
  define o3 where "o3 = set_balance child (- b * ?f) (set_balance node (b * ?f) o2)"
  have b3: "CAvl_balance o3 x = (if x = child then - b * ?f else if x = node then b * ?f else CAvl_balance o1 x)" for x
    by (simp add: o3_def avl_simps o2(3))
  have cong: "bal_ok o3 u = bal_ok o1 u" if "node \<notin> set_tree u" "child \<notin> set_tree u" for u
    using that by (intro bal_ok_cong) (auto simp: b3)
  have "bal_ok o3 ?t'"
    using bal D le hC cong [of A] cong [of B] cong [of C] by (auto simp: b3 b_def split: if_splits)
  moreover have "rebalance_transform o1 node delta = Some (o3, child, delta + int (height ?t') - int (height ?t))"
    using nb ch par o2(1) cb le hC unfolding o3_def
    by (cases bside) (auto simp: rebalance_transform_def b_def split: if_splits)
  moreover have "same_outside (set_tree ?t \<union> frame_set fs) o1 o3"
    using o2(4) by (auto simp: same_outside_def o3_def avl_simps)
  moreover have "inorder ?t' = inorder ?t" by (simp add: node_at_def)
  moreover have "avl_at o3 fs ?t'" using o2(2) by (simp add: o3_def)
  moreover have "CAvl_balance o3 x = CAvl_balance o1 x" if "x \<notin> set_tree ?t" for x using that by (auto simp: b3)
  moreover have "root_of ?t' = Some child" "height ?t' \<le> height ?t" "height ?t \<le> Suc (height ?t')" using hC le by simp_all
  ultimately show ?thesis by (intro transformedI)
qed

text \<open>A double rotation, when the heavier child leans to its inner side.\<close>

lemma double_rotation:
  fixes o1 :: "'l CAvl"
  assumes at: "avl_at o1 fs (node_at bside node (node_at bside child C (node_at bside g G1 G2)) A)"
    and bal: "bal_ok o1 A" "bal_ok o1 (node_at bside child C (node_at bside g G1 G2))"
      "int (height (node_at bside child C (node_at bside g G1 G2))) = int (height A) + 2"
    and nb: "CAvl_balance o1 node = (if bside then 2 else -2)" and gt: "height C < height (node_at bside g G1 G2)"
  shows "transformed o1 fs (node_at bside node (node_at bside child C (node_at bside g G1 G2)) A) delta (rebalance_transform o1 node delta)"
proof -
  let ?t = "node_at bside node (node_at bside child C (node_at bside g G1 G2)) A"
  let ?t1 = "node_at bside node (node_at bside g (node_at bside child C G1) G2) A"
  let ?t' = "node_at bside g (node_at bside child C G1) (node_at bside node G2 A)"
  let ?f = "if bside then 1 else -1 :: int"
  have par: "CAvl_parent o1 node = par_of fs" using avl_at_parent [OF at] by simp
  have ch: "CAvl_link o1 node bside = Some child" "CAvl_link o1 child (\<not> bside) = Some g" using at by (simp_all add: avl_at_def)
  have D: "distinct (inorder ?t)" using avl_at_distinct [OF at] .
  have e1: "avl_at o1 ((bside, node, A) # fs) (node_at (\<not> bside) child (node_at bside g G1 G2) C)"
    using at by (auto simp: avl_at_def node_at_def)
  obtain o2 where o2: "CAvl_rotate o1 child bside (Some node) = Some o2" "avl_at o2 ((bside, node, A) # fs) (node_at bside g (node_at (\<not> bside) child G1 C) G2)"
      "CAvl_balance o2 = CAvl_balance o1" "same_outside (set_tree ?t \<union> frame_set fs) o1 o2"
    using avl_at_rotate [OF e1] by (auto simp: insert_commute Un_ac)
  have e2: "avl_at o2 fs (node_at (\<not> (\<not> bside)) node (node_at (\<not> bside) g G2 (node_at bside child C G1)) A)"
    using o2(2) by (auto simp: avl_at_def node_at_def)
  have s2: "set_tree (node_at (\<not> (\<not> bside)) node (node_at (\<not> bside) g G2 (node_at bside child C G1)) A) = set_tree ?t" by auto
  have q2: "node_at (\<not> bside) g (node_at (\<not> (\<not> bside)) node G2 A) (node_at bside child C G1) = ?t'" by (simp add: node_at_def)
  obtain o3 where o3: "CAvl_rotate o2 node (\<not> bside) (par_of fs) = Some o3" "avl_at o3 fs ?t'"
      "CAvl_balance o3 = CAvl_balance o2" "same_outside (set_tree ?t \<union> frame_set fs) o2 o3"
    using avl_at_rotate [OF e2] unfolding s2 q2 by blast
  have par2: "CAvl_parent o2 node = par_of fs" using avl_at_parent [OF e2] by simp
  define b where "b = CAvl_balance o1 g * ?f"
  define o4 where "o4 = set_balance g 0 (set_balance child (max 0 (- b) * ?f) (set_balance node (- max 0 b * ?f) o3))"
  have ne: "node \<noteq> child" "node \<noteq> g" "child \<noteq> g" using D by auto
  have b4: "CAvl_balance o4 x = (if x = g then 0 else if x = child then max 0 (- b) * ?f else if x = node then - max 0 b * ?f
      else CAvl_balance o1 x)" for x by (simp add: o4_def avl_simps o3(3) o2(3))
  have cong: "bal_ok o4 u = bal_ok o1 u" if "node \<notin> set_tree u" "child \<notin> set_tree u" "g \<notin> set_tree u" for u
    using that by (intro bal_ok_cong) (auto simp: b4)
  have hg: "height (node_at bside g G1 G2) = Suc (height C)" "height C = height A" using bal(2,3) gt by (auto split: if_splits)
  have bg: "b = int (height G1) - int (height G2)" "b \<in> {-1, 0, 1}" using bal(2) by (auto simp: b_def split: if_splits)
  have sub: "bal_ok o4 A" "bal_ok o4 C" "bal_ok o4 G1" "bal_ok o4 G2"
    using bal D cong [of A] cong [of C] cong [of G1] cong [of G2] by simp_all
  have hb: "int (height C) = int (height A)" "int (max (height G1) (height G2)) = int (height A)" using hg by simp_all
  have "bal_ok o4 ?t'"
    using sub ne bg hb by (cases bside) (simp_all add: b4, auto)
  moreover have "rebalance_transform o1 node delta = Some (o4, g, delta + int (height ?t') - int (height ?t))"
    using nb ch par par2 o2(1,3) o3(1,3) bal(2) gt hg bg ne unfolding o4_def b_def
    by (cases bside) (auto simp: rebalance_transform_def avl_simps Let_def split: if_splits)
  moreover have "same_outside (set_tree ?t \<union> frame_set fs) o1 o4"
    using same_outside_trans [OF o2(4) o3(4)] by (auto simp: same_outside_def o4_def avl_simps)
  moreover have "inorder ?t' = inorder ?t" by (simp add: node_at_def)
  moreover have "avl_at o4 fs ?t'" using o3(2) by (simp add: o4_def)
  moreover have "CAvl_balance o4 x = CAvl_balance o1 x" if "x \<notin> set_tree ?t" for x using that by (auto simp: b4)
  moreover have "root_of ?t' = Some g" "height ?t' \<le> height ?t" "height ?t \<le> Suc (height ?t')" using hg by simp_all
  ultimately show ?thesis by (intro transformedI)
qed

lemma node_at_cases:
  obtains "t = \<langle>\<rangle>" | a u v where "t = node_at s a u v"
  by (cases t; cases s) (auto simp: node_at_def)

lemma heavy_side:
  assumes at: "avl_at o1 fs (node_at bside node T A)" and bal: "bal_ok o1 A" "bal_ok o1 T" "int (height T) = int (height A) + 2"
    and nb: "CAvl_balance o1 node = (if bside then 2 else -2)"
  shows "transformed o1 fs (node_at bside node T A) delta (rebalance_transform o1 node delta)"
proof (cases rule: node_at_cases [where t = T and s = bside])
  case 1
  then show ?thesis using bal(3) by simp
next
  case (2 child C B)
  show ?thesis
  proof (cases "height B \<le> height C")
    case True
    then show ?thesis using single_rotation [OF at [unfolded 2] bal(1) bal(2,3) [unfolded 2] nb] by (simp add: 2)
  next
    case False
    show ?thesis
    proof (cases rule: node_at_cases [where t = B and s = bside])
      case 1
      then show ?thesis using False by simp
    next
      case B: (2 g G1 G2)
      from False have "height C < height (node_at bside g G1 G2)" by (simp add: B)
      from double_rotation [OF at [unfolded 2 B] bal(1) bal(2,3) [unfolded 2 B] nb this] show ?thesis by (simp add: 2 B)
    qed
  qed
qed

lemma rebalance_transform_ok:
  assumes at: "avl_at o1 fs (node_at side a t u)" and bal: "bal_ok o1 t" "bal_ok o1 u"
    and nb: "CAvl_balance o1 a = (if side then int (height t) - int (height u) else int (height u) - int (height t))"
    and d: "\<bar>int (height t) - int (height u)\<bar> \<le> 2"
  shows "transformed o1 fs (node_at side a t u) delta (rebalance_transform o1 a delta)"
proof -
  consider "int (height t) = int (height u) + 2" | "int (height u) = int (height t) + 2" | "\<bar>int (height t) - int (height u)\<bar> \<le> 1"
    using d by linarith
  then show ?thesis
  proof cases
    case 1
    then show ?thesis using heavy_side [OF at bal(2,1)] nb by simp
  next
    case 2
    have e: "node_at (\<not> side) a u t = node_at side a t u" by (simp add: node_at_def)
    show ?thesis using heavy_side [of o1 fs "\<not> side" a u t, OF _ bal 2] at nb 2 unfolding e by simp
  next
    case 3
    then have "CAvl_balance o1 a \<in> {-1, 0, 1}" using nb by auto
    moreover from this have "rebalance_transform o1 a delta = Some (o1, a, delta)" by (auto simp: rebalance_transform_def)
    ultimately show ?thesis using at bal nb
      by (intro transformedI [of _ o1 a _ "node_at side a t u"]) (auto simp: same_outside_def)
  qed
qed

lemma CAvl_rebalance_step:
  assumes at: "avl_at o1 ((side, a, u) # fs) t" and bal: "bal_ok o1 t" and cb: "ctx_bal o1 ((side, a, u) # fs) (int (height t) - d)"
    and d: "d \<in> {-1, 1}"
  obtains o2 t' n d' where
    "CAvl_rebalance o1 a side d = (case par_of fs of None \<Rightarrow> Some o2 | Some p \<Rightarrow> CAvl_rebalance o2 p (Some n = CAvl_link o2 p True) d')"
    "root_of t' = Some n" "avl_at o2 fs t'" "bal_ok o2 t'" "ctx_bal o2 fs (int (height t') - d')" "d' \<in> {-1, 0, 1}"
    "inorder t' = inorder (node_at side a t u)" "same_outside (set_tree (plug ((side, a, u) # fs) t)) o1 o2"
proof -
  let ?T = "node_at side a t u"
  define delta where "delta = max d (CAvl_OPTNEG (CAvl_balance o1 a) side) - max 0 (CAvl_OPTNEG (CAvl_balance o1 a) side)"
  define oa where "oa = set_balance a (CAvl_balance o1 a - CAvl_OPTNEG d side) o1"
  define h where "h = int (height t) - d"
  have cb': "CAvl_balance o1 a = (if side then h - int (height u) else int (height u) - h)" "\<bar>h - int (height u)\<bar> \<le> 1" "bal_ok o1 u"
    "ctx_bal o1 fs (1 + max h (int (height u)))" using cb by (auto simp: h_def split: if_splits)
  have at': "avl_at o1 fs ?T" using at by (auto simp: avl_at_def)
  have D: "a \<notin> set_tree t" "a \<notin> set_tree u" "set_tree ?T \<inter> frame_set fs = {}"
    using avl_at_distinct [OF at'] distinct_plugD [of fs ?T] at' by (auto simp: avl_at_def)
  have ba: "CAvl_balance oa x = (if x = a then CAvl_balance o1 a - CAvl_OPTNEG d side else CAvl_balance o1 x)" for x
    by (simp add: oa_def avl_simps)
  have "bal_ok oa t = bal_ok o1 t" "bal_ok oa u = bal_ok o1 u" using D by (intro bal_ok_cong; auto simp: ba)+
  then have b: "bal_ok oa t" "bal_ok oa u" using bal cb'(3) by simp_all
  have nb: "CAvl_balance oa a = (if side then int (height t) - int (height u) else int (height u) - int (height t))"
    using cb'(1) by (simp add: ba CAvl_OPTNEG_def h_def)
  have d2: "\<bar>int (height t) - int (height u)\<bar> \<le> 2" using cb'(2) d by (auto simp: h_def)
  have dl: "delta = int (height ?T) - (1 + max h (int (height u)))" using d cb'(1) by (auto simp: delta_def CAvl_OPTNEG_def h_def)
  have "avl_at oa fs ?T" using at' by (simp add: oa_def)
  from rebalance_transform_ok [OF this b nb d2, of delta] obtain o2 t' n where
    r: "rebalance_transform oa a delta = Some (o2, n, delta + int (height t') - int (height ?T))" "root_of t' = Some n"
      "avl_at o2 fs t'" "bal_ok o2 t'" "inorder t' = inorder ?T" "same_outside (set_tree ?T \<union> frame_set fs) oa o2"
      "height t' \<le> height ?T" "height ?T \<le> Suc (height t')" "\<And>x. x \<notin> set_tree ?T \<Longrightarrow> CAvl_balance o2 x = CAvl_balance oa x"
    unfolding transformed_def by blast
  define d' where "d' = delta + int (height t') - int (height ?T)"
  have "CAvl_balance o2 x = CAvl_balance o1 x" if "x \<in> frame_set fs" for x
  proof -
    from that D(3) have "x \<notin> set_tree ?T" by blast
    then show ?thesis using r(9) [of x] by (simp add: ba)
  qed
  then have "ctx_bal o2 fs x = ctx_bal o1 fs x" for x by (rule ctx_bal_cong)
  then have 5: "ctx_bal o2 fs (int (height t') - d')" using cb'(4) by (simp add: d'_def dl)
  have 6: "d' \<in> {-1, 0, 1}"
  proof (cases "\<bar>int (height t) - int (height u)\<bar> = 2")
    case True
    then show ?thesis using r(7,8) d cb'(2) by (auto simp: d'_def dl h_def)
  next
    case False
    then have "rebalance_transform oa a delta = Some (oa, a, delta)" using nb by (auto simp: rebalance_transform_def)
    then have "d' = delta" using r(1) by (simp add: d'_def)
    then show ?thesis using d cb'(2) by (auto simp: dl h_def)
  qed
  have 1: "CAvl_rebalance o1 a side d = (case par_of fs of None \<Rightarrow> Some o2 | Some p \<Rightarrow> CAvl_rebalance o2 p (Some n = CAvl_link o2 p True) d')"
    using d avl_at_parent [OF r(3,2)] r(1) [folded d'_def]
    by (subst CAvl_rebalance.simps) (auto simp: oa_def [symmetric] delta_def [symmetric])
  have "same_outside (set_tree (plug ((side, a, u) # fs) t)) o1 o2"
    using r(6) by (auto simp: same_outside_def oa_def avl_simps)
  with 1 r(2-5) 5 6 that show thesis by blast
qed

lemma avl_at_side:
  assumes "avl_at o1 ((side, a, u) # fs) t" and "root_of t = Some n"
  shows "(CAvl_link o1 a True = Some n) = side"
proof -
  have "root_of u \<noteq> Some n"
    using assms root_of_SomeD [of u n] root_of_SomeD [of t n] distinct_plugD [of fs "node_at side a t u"] by (auto simp: avl_at_def)
  then show ?thesis using assms by (cases side) (auto simp: avl_at_def)
qed

lemma CAvl_rebalance_none:
  assumes "avl_at o1 fs t" and "bal_ok o1 t" and "ctx_bal o1 fs (int (height t))"
  shows "\<exists>o2 t'. CAvl_rebalance o1 a side 0 = Some o2 \<and> avl_at o2 [] t' \<and> bal_ok o2 t' \<and>
    inorder t' = inorder (plug fs t) \<and> same_outside S o1 o2"
proof -
  have "avl_at o1 [] (plug fs t)" "bal_ok o1 (plug fs t)" using assms plug_shape [of o1 fs t] by (auto simp: avl_at_def plug_bal)
  then show ?thesis by (intro exI [of _ o1] exI [of _ "plug fs t"]) (simp add: CAvl_rebalance.simps same_outside_def)
qed

lemma CAvl_rebalance_ok:
  assumes "avl_at o1 ((side, a, u) # fs) t" and "bal_ok o1 t" and "ctx_bal o1 ((side, a, u) # fs) (int (height t) - d)" and "d \<in> {-1, 0, 1}"
  shows "\<exists>o2 t'. CAvl_rebalance o1 a side d = Some o2 \<and> avl_at o2 [] t' \<and> bal_ok o2 t' \<and>
    inorder t' = inorder (plug ((side, a, u) # fs) t) \<and> same_outside (set_tree (plug ((side, a, u) # fs) t)) o1 o2"
  using assms
proof (induction fs arbitrary: side a u t o1 d)
  case Nil
  show ?case
  proof (cases "d = 0")
    case True
    with Nil.prems(3) have "ctx_bal o1 ((side, a, u) # []) (int (height t))" by (simp only: diff_0_right)
    from CAvl_rebalance_none [OF Nil.prems(1,2) this] show ?thesis unfolding True .
  next
    case False
    with Nil.prems(4) have d: "d \<in> {-1, 1}" by blast
    show ?thesis
    proof (rule CAvl_rebalance_step [OF Nil.prems(1-3) d])
      fix o2 t' n d'
      assume r: "CAvl_rebalance o1 a side d = (case par_of [] of None \<Rightarrow> Some o2 | Some p \<Rightarrow> CAvl_rebalance o2 p (Some n = CAvl_link o2 p True) d')"
        "avl_at o2 [] t'" "bal_ok o2 t'" "inorder t' = inorder (node_at side a t u)"
        "same_outside (set_tree (plug [(side, a, u)] t)) o1 o2"
      then show ?thesis by (intro exI [of _ o2] exI [of _ t']) simp
    qed
  qed
next
  case (Cons g gs)
  obtain gs' ga gu where g: "g = (gs', ga, gu)" using prod_cases3 by blast
  show ?case
  proof (cases "d = 0")
    case True
    with Cons.prems(3) have "ctx_bal o1 ((side, a, u) # g # gs) (int (height t))" by (simp only: diff_0_right)
    from CAvl_rebalance_none [OF Cons.prems(1,2) this] show ?thesis unfolding True .
  next
    case False
    with Cons.prems(4) have d: "d \<in> {-1, 1}" by blast
    show ?thesis
    proof (rule CAvl_rebalance_step [OF Cons.prems(1-3) d])
      fix o2 t' n d'
      assume r: "CAvl_rebalance o1 a side d = (case par_of (g # gs) of None \<Rightarrow> Some o2 | Some p \<Rightarrow> CAvl_rebalance o2 p (Some n = CAvl_link o2 p True) d')"
        "root_of t' = Some n" "avl_at o2 (g # gs) t'" "bal_ok o2 t'" "ctx_bal o2 (g # gs) (int (height t') - d')" "d' \<in> {-1, 0, 1}"
        "inorder t' = inorder (node_at side a t u)" "same_outside (set_tree (plug ((side, a, u) # g # gs) t)) o1 o2"
      have "CAvl_rebalance o1 a side d = CAvl_rebalance o2 ga gs' d'"
        using r(1) avl_at_side [OF r(3) [unfolded g] r(2)] by (simp add: g eq_commute)
      moreover have io: "inorder (plug (g # gs) t') = inorder (plug ((side, a, u) # g # gs) t)"
        using r(7) inorder_plug_cong [of t' "node_at side a t u" "g # gs"] by simp
      moreover have "set_tree (plug (g # gs) t') = set_tree (plug ((side, a, u) # g # gs) t)"
        using arg_cong [OF io, of set] by (simp only: set_inorder)
      ultimately show ?thesis using Cons.IH [OF r(3-6) [unfolded g]] same_outside_trans [OF r(8)] unfolding g by metis
    qed
  qed
qed

section \<open>Insertion\<close>

definition avl_tree :: "'l CAvl \<Rightarrow> 'l list \<Rightarrow> bool" where
  "avl_tree o1 xs \<longleftrightarrow> (\<exists>t. avl_at o1 [] t \<and> bal_ok o1 t \<and> inorder t = xs)"

lemma avl_tree_distinct: "avl_tree o1 xs \<Longrightarrow> distinct xs"
  unfolding avl_tree_def using avl_at_distinct by blast

lemma avl_tree_root: "avl_tree o1 xs \<Longrightarrow> av_root o1 = None \<longleftrightarrow> xs = []"
proof -
  assume "avl_tree o1 xs"
  then obtain t where t: "avl_at o1 [] t" "inorder t = xs" by (auto simp: avl_tree_def)
  then have "av_root o1 = root_of t" by (simp add: avl_at_def)
  then show ?thesis using t(2) by (cases t) auto
qed

text \<open>The entries before and after a position.\<close>

fun before :: "'l frame list \<Rightarrow> 'l list" where
  "before [] = []"
| "before ((side, a, u) # fs) = before fs @ (if side then inorder u @ [a] else [])"

fun after :: "'l frame list \<Rightarrow> 'l list" where
  "after [] = []"
| "after ((side, a, u) # fs) = (if side then [] else a # inorder u) @ after fs"

lemma inorder_plug: "inorder (plug fs t) = before fs @ inorder t @ after fs"
proof (induction fs arbitrary: t)
  case (Cons f fs)
  obtain s a u where "f = (s, a, u)" using prod_cases3 by blast
  then show ?case using Cons [of "node_at s a t u"] by (simp add: node_at_def)
qed simp

lemma before_append: "before (fs @ gs) = before gs @ before fs"
  by (induction fs rule: before.induct) auto

lemma after_append: "after (fs @ gs) = after fs @ after gs"
  by (induction fs rule: after.induct) auto

text \<open>A comparison with the key that goes down along the entries in order.\<close>

definition descending :: "('l \<Rightarrow> int) \<Rightarrow> 'l list \<Rightarrow> bool" where
  "descending f xs \<longleftrightarrow> (\<forall>x \<in> set xs. f x \<in> {-1, 0, 1}) \<and> sorted_wrt (\<lambda>x y. f y \<le> f x) xs"

lemma descending_append:
  "descending f (xs @ ys) \<longleftrightarrow> descending f xs \<and> descending f ys \<and> (\<forall>x \<in> set xs. \<forall>y \<in> set ys. f y \<le> f x)"
  by (auto simp: descending_def sorted_wrt_append)

lemma descending_Cons:
  "descending f (x # ys) \<longleftrightarrow> f x \<in> {-1, 0, 1} \<and> descending f ys \<and> (\<forall>y \<in> set ys. f y \<le> f x)"
  by (auto simp: descending_def)

lemma descending_range: "descending f xs \<Longrightarrow> x \<in> set xs \<Longrightarrow> f x \<in> {-1, 0, 1}"
  by (simp add: descending_def)

text \<open>The search ends at an entry that compares equal, or at the empty place between the lesser and the greater entries.\<close>

lemma insert_search_ok:
  assumes "shape o1 p t" and "root_of t = Some c" and "descending f (inorder t)"
  shows "(\<exists>e \<in> set_tree t. f e = 0 \<and> insert_search f o1 c = Some (Inl e)) \<or>
    (\<exists>side a u fs. insert_search f o1 c = Some (Inr (a, side)) \<and> t = plug ((side, a, u) # fs) \<langle>\<rangle> \<and>
      (\<forall>x \<in> set (before ((side, a, u) # fs)). f x = 1) \<and> (\<forall>x \<in> set (after ((side, a, u) # fs)). f x = -1))"
  using assms
proof (induction t arbitrary: p c)
  case (Node l a r)
  have c: "c = a" using Node.prems(2) by simp
  have ls: "CAvl_link o1 a False = root_of l" "CAvl_link o1 a True = root_of r" "shape o1 (Some a) l" "shape o1 (Some a) r"
    using Node.prems(1) by simp_all
  have D: "descending f (inorder l)" "descending f (inorder r)" "f a \<in> {-1, 0, 1}"
      "\<forall>x \<in> set_tree l. f a \<le> f x" "\<forall>x \<in> set_tree r. f x \<le> f a"
    using Node.prems(3) by (auto simp: descending_append descending_Cons)
  have L: "\<forall>x \<in> set_tree l. f x \<in> {-1, 0, 1}" "\<forall>x \<in> set_tree r. f x \<in> {-1, 0, 1}"
    using D(1,2) descending_range by (metis set_inorder)+
  consider "f a = 0" | "f a = 1" | "f a = -1" using D(3) by auto
  then show ?case
  proof cases
    case 1
    then show ?thesis by (auto simp: c insert_search.simps [of f o1 a])
  next
    case 2
    have l1: "\<forall>x \<in> set_tree l. f x = 1" using D(4) L(1) 2 by fastforce
    show ?thesis
    proof (cases "root_of r")
      case None
      then have "insert_search f o1 c = Some (Inr (a, True)) \<and> \<langle>l, a, r\<rangle> = plug [(True, a, l)] \<langle>\<rangle>"
        using 2 ls by (simp add: c insert_search.simps [of f o1 a] node_at_def)
      then show ?thesis using l1 2 by (intro disjI2 exI [of _ True] exI [of _ a] exI [of _ l] exI [of _ "[]"]) auto
    next
      case (Some d)
      then have e: "insert_search f o1 c = insert_search f o1 d" using 2 ls by (simp add: c insert_search.simps [of f o1 a])
      from Node.IH(2) [OF ls(4) Some D(2)] show ?thesis
      proof (elim disjE bexE exE conjE, goal_cases)
        case (2 side b u fs)
        then show ?case using l1 \<open>f a = 1\<close> unfolding e
          by (intro disjI2 exI [of _ side] exI [of _ b] exI [of _ u] exI [of _ "fs @ [(True, a, l)]"])
            (auto simp: plug_append node_at_def before_append after_append)
      qed (auto simp: e)
    qed
  next
    case 3
    have r1: "\<forall>x \<in> set_tree r. f x = -1" using D(5) L(2) 3 by fastforce
    show ?thesis
    proof (cases "root_of l")
      case None
      then have "insert_search f o1 c = Some (Inr (a, False)) \<and> \<langle>l, a, r\<rangle> = plug [(False, a, r)] \<langle>\<rangle>"
        using 3 ls by (simp add: c insert_search.simps [of f o1 a] node_at_def)
      then show ?thesis using r1 3 by (intro disjI2 exI [of _ False] exI [of _ a] exI [of _ r] exI [of _ "[]"]) auto
    next
      case (Some d)
      then have e: "insert_search f o1 c = insert_search f o1 d" using 3 ls by (simp add: c insert_search.simps [of f o1 a])
      from Node.IH(1) [OF ls(3) Some D(1)] show ?thesis
      proof (elim disjE bexE exE conjE, goal_cases)
        case (2 side b u fs)
        then show ?case using r1 \<open>f a = -1\<close> unfolding e
          by (intro disjI2 exI [of _ side] exI [of _ b] exI [of _ u] exI [of _ "fs @ [(False, a, r)]"])
            (auto simp: plug_append node_at_def before_append after_append)
      qed (auto simp: e)
    qed
  qed
qed simp

text \<open>The new entry in an empty place, before rebalancing.\<close>

lemma init_leaf:
  assumes at: "avl_at o1 ((side, c, u) # fs) \<langle>\<rangle>" and bal: "ctx_bal o1 ((side, c, u) # fs) 0"
    and fresh: "node \<notin> frame_set ((side, c, u) # fs)"
  defines "o2 \<equiv> init_node node (Some c) (set_link c side (Some node) o1)"
  shows "avl_at o2 ((side, c, u) # fs) \<langle>\<langle>\<rangle>, node, \<langle>\<rangle>\<rangle>" "bal_ok o2 \<langle>\<langle>\<rangle>, node, \<langle>\<rangle>\<rangle>" "ctx_bal o2 ((side, c, u) # fs) 0"
    "same_outside {c, node} o1 o2"
proof -
  from fresh have n: "node \<noteq> c" "node \<notin> set_tree u" "node \<notin> frame_set fs" by auto
  have d: "distinct (inorder (node_at side c \<langle>\<rangle> u))" "set_tree (node_at side c \<langle>\<rangle> u) \<inter> frame_set fs = {}"
    using at distinct_plugD [of fs "node_at side c \<langle>\<rangle> u"] by (auto simp: avl_at_def)
  note o2 = o2_def init_node_def avl_simps Let_def
  have "shape o2 (Some c) u = shape o1 (Some c) u" using n d by (intro shape_cong) (auto simp: o2)
  moreover have "ctx_shape o2 fs h = ctx_shape o1 fs h" for h using n d by (intro ctx_shape_cong) (auto simp: o2)
  moreover have "shape o2 (Some c) \<langle>\<langle>\<rangle>, node, \<langle>\<rangle>\<rangle>" using n by (simp add: o2)
  ultimately have "shape o2 (par_of ((side, c, u) # fs)) \<langle>\<langle>\<rangle>, node, \<langle>\<rangle>\<rangle> \<and> ctx_shape o2 ((side, c, u) # fs) (Some node)"
    using at n by (auto simp: avl_at_def o2)
  moreover have "distinct (inorder (plug ((side, c, u) # fs) \<langle>\<langle>\<rangle>, node, \<langle>\<rangle>\<rangle>))"
  proof -
    have "distinct (before ((side, c, u) # fs) @ after ((side, c, u) # fs))"
      using at inorder_plug [of "(side, c, u) # fs" "\<langle>\<rangle>"] by (simp add: avl_at_def)
    moreover have "node \<notin> set (before ((side, c, u) # fs) @ after ((side, c, u) # fs))"
    proof -
      have "set (inorder (plug ((side, c, u) # fs) \<langle>\<rangle>)) = frame_set ((side, c, u) # fs)" by (simp only: set_inorder set_plug tree.set Un_empty_left)
      then show ?thesis using fresh unfolding inorder_plug by simp
    qed
    ultimately show ?thesis unfolding inorder_plug by auto
  qed
  ultimately show "avl_at o2 ((side, c, u) # fs) \<langle>\<langle>\<rangle>, node, \<langle>\<rangle>\<rangle>" by (simp add: avl_at_def)
  show "bal_ok o2 \<langle>\<langle>\<rangle>, node, \<langle>\<rangle>\<rangle>" by (simp add: o2)
  have "ctx_bal o2 ((side, c, u) # fs) 0 = ctx_bal o1 ((side, c, u) # fs) 0"
    using fresh by (intro ctx_bal_cong) (auto simp: o2)
  then show "ctx_bal o2 ((side, c, u) # fs) 0" using bal by (rule iffD2)
  show "same_outside {c, node} o1 o2" by (auto simp: same_outside_def o2)
qed

definition sorted_insert :: "('l \<Rightarrow> int) \<Rightarrow> 'l \<Rightarrow> 'l list \<Rightarrow> 'l list" where
  "sorted_insert f x xs = takeWhile (\<lambda>y. f y = 1) xs @ x # dropWhile (\<lambda>y. f y = 1) xs"

lemma sorted_insert_split:
  "\<forall>x \<in> set xs. f x = 1 \<Longrightarrow> \<forall>y \<in> set ys. f y = -1 \<Longrightarrow> sorted_insert f a (xs @ ys) = xs @ a # ys"
  by (cases ys) (auto simp: sorted_insert_def takeWhile_append dropWhile_append)

lemma insert_at_place:
  assumes at: "avl_at o1 ((side, a, u) # fs) \<langle>\<rangle>" and bal: "ctx_bal o1 ((side, a, u) # fs) 0"
    and fr: "node \<notin> frame_set ((side, a, u) # fs)"
  obtains o2 where "CAvl_rebalance (init_node node (Some a) (set_link a side (Some node) o1)) a side 1 = Some o2"
    "avl_tree o2 (before ((side, a, u) # fs) @ node # after ((side, a, u) # fs))"
    "same_outside (insert node (frame_set ((side, a, u) # fs))) o1 o2"
proof -
  let ?fs = "(side, a, u) # fs" and ?S = "insert node (frame_set ((side, a, u) # fs))"
  define oa where "oa = init_node node (Some a) (set_link a side (Some node) o1)"
  note il = init_leaf [OF at bal fr, folded oa_def]
  have "ctx_bal oa ?fs (int (height \<langle>\<langle>\<rangle>, node, \<langle>\<rangle>\<rangle>) - 1)" using il(3) by (simp del: ctx_bal.simps)
  from CAvl_rebalance_ok [OF il(1,2) this] obtain o2 t' where
    r: "CAvl_rebalance oa a side 1 = Some o2" "avl_at o2 [] t'" "bal_ok o2 t'"
      "inorder t' = inorder (plug ?fs \<langle>\<langle>\<rangle>, node, \<langle>\<rangle>\<rangle>)" "same_outside (set_tree (plug ?fs \<langle>\<langle>\<rangle>, node, \<langle>\<rangle>\<rangle>)) oa o2" by auto
  have "inorder t' = before ?fs @ node # after ?fs" unfolding r(4) inorder_plug by simp
  then have "avl_tree o2 (before ?fs @ node # after ?fs)" using r(2,3) unfolding avl_tree_def by blast
  moreover have s: "set_tree (plug ?fs \<langle>\<langle>\<rangle>, node, \<langle>\<rangle>\<rangle>) = ?S" by (simp only: set_plug) auto
  moreover have "same_outside ?S o1 oa" using same_outside_mono [OF il(4)] by auto
  ultimately show thesis using that [of o2] r(1,5) same_outside_trans unfolding oa_def by metis
qed

lemma CAvl_Insert_ok:
  assumes t: "avl_tree o1 xs" and f: "descending (cmp node) xs"
  shows "(\<exists>e \<in> set xs. cmp node e = 0 \<and> CAvl_Insert cmp o1 node = Some (o1, False, Some e)) \<or>
    ((\<forall>e \<in> set xs. cmp node e \<noteq> 0) \<and> (node \<notin> set xs \<longrightarrow> (\<exists>o2 r. CAvl_Insert cmp o1 node = Some (o2, True, r) \<and>
      avl_tree o2 (sorted_insert (cmp node) node xs) \<and> same_outside (insert node (set xs)) o1 o2 \<and>
      (r = None \<longleftrightarrow> xs = []) \<and> (\<forall>e. r = Some e \<longrightarrow> e \<in> set xs))))"
proof -
  from t obtain T where T: "avl_at o1 [] T" "bal_ok o1 T" "inorder T = xs" by (auto simp: avl_tree_def)
  then have root: "av_root o1 = root_of T" by (simp add: avl_at_def)
  show ?thesis
  proof (cases "root_of T")
    case None
    then have "T = \<langle>\<rangle>" by simp
    define o2 where "o2 = init_node node None (o1\<lparr>av_root := Some node\<rparr>)"
    have "avl_at o2 [] \<langle>\<langle>\<rangle>, node, \<langle>\<rangle>\<rangle>" "bal_ok o2 \<langle>\<langle>\<rangle>, node, \<langle>\<rangle>\<rangle>"
      by (simp_all add: avl_at_def o2_def init_node_def avl_simps Let_def)
    then have "avl_tree o2 [node]" by (auto simp: avl_tree_def)
    moreover have "CAvl_Insert cmp o1 node = Some (o2, True, None)" using root None by (simp add: CAvl_Insert_def o2_def)
    moreover have "same_outside {node} o1 o2" by (simp add: same_outside_def o2_def init_node_def avl_simps Let_def)
    ultimately show ?thesis using T(3) \<open>T = \<langle>\<rangle>\<close> by (auto simp: sorted_insert_def)
  next
    case (Some c)
    have sh: "shape o1 None T" using T(1) by (simp add: avl_at_def)
    from insert_search_ok [OF sh Some f [folded T(3)]] show ?thesis
    proof (elim disjE bexE exE conjE, goal_cases)
      case (1 e)
      then have "e \<in> set xs" using T(3) by (metis set_inorder)
      moreover have "CAvl_Insert cmp o1 node = Some (o1, False, Some e)" using 1 root Some by (simp add: CAvl_Insert_def)
      ultimately show ?case using 1 by blast
    next
      case (2 side a u fs)
      let ?fs = "(side, a, u) # fs"
      have xs: "xs = before ?fs @ after ?fs" using T(3) 2(2) inorder_plug [of ?fs "\<langle>\<rangle>"] by simp
      have set: "frame_set ?fs = set xs" using T(3) 2(2) set_plug [of ?fs "\<langle>\<rangle>"] by (metis Un_empty_left set_inorder tree.set(1))
      have at: "avl_at o1 ?fs \<langle>\<rangle>" using T(1) 2(2) plug_shape [of o1 ?fs "\<langle>\<rangle>"] by (simp add: avl_at_def)
      have bal: "ctx_bal o1 ?fs 0" using T(2) 2(2) plug_bal [of o1 ?fs "\<langle>\<rangle>"] by (simp del: ctx_bal.simps plug.simps)
      have ins: "CAvl_Insert cmp o1 node = map_option (\<lambda>t. (t, True, Some a))
          (CAvl_rebalance (init_node node (Some a) (set_link a side (Some node) o1)) a side 1)"
        using 2(1) root Some by (simp add: CAvl_Insert_def)
      have si: "sorted_insert (cmp node) node xs = before ?fs @ node # after ?fs"
        unfolding xs by (rule sorted_insert_split [OF 2(3,4)])
      have "\<forall>e \<in> set xs. cmp node e \<noteq> 0" using 2(3,4) unfolding xs by auto
      moreover have "a \<in> set xs" using set by auto
      moreover have "\<exists>o2 r. CAvl_Insert cmp o1 node = Some (o2, True, r) \<and>
          avl_tree o2 (sorted_insert (cmp node) node xs) \<and> same_outside (insert node (set xs)) o1 o2 \<and>
          (r = None \<longleftrightarrow> xs = []) \<and> (\<forall>e. r = Some e \<longrightarrow> e \<in> set xs)" if "node \<notin> set xs"
        by (rule insert_at_place [OF at bal that [folded set]]) (use \<open>a \<in> set xs\<close> in \<open>auto simp: ins si set simp del: before.simps after.simps frame_set.simps\<close>)
      ultimately show ?case by blast
    qed
  qed
qed

section \<open>Removal\<close>

text \<open>What the links of a tree say about the neighbours of a node.\<close>

lemma shape_neighbours:
  assumes "shape o1 p t" and "distinct (inorder t)" and "x \<in> set_tree t" and "\<And>q. p = Some q \<Longrightarrow> q \<notin> set_tree t"
  shows "(CAvl_link o1 x s = Some y \<longrightarrow> y \<in> set_tree t \<and> CAvl_parent o1 y = Some x \<and> y \<noteq> x \<and> CAvl_link o1 x (\<not> s) \<noteq> Some y) \<and>
    (root_of t = Some x \<and> CAvl_parent o1 x = p \<or>
     root_of t \<noteq> Some x \<and> (\<exists>q s'. CAvl_parent o1 x = Some q \<and> q \<in> set_tree t \<and> CAvl_link o1 q s' = Some x))"
  using assms
proof (induction t arbitrary: p)
  case (Node l a r)
  have l: "root_of l = Some y \<Longrightarrow> y \<in> set_tree l \<and> CAvl_parent o1 y = Some a" for y
    using Node.prems(1) by (cases l) auto
  have r: "root_of r = Some y \<Longrightarrow> y \<in> set_tree r \<and> CAvl_parent o1 y = Some a" for y
    using Node.prems(1) by (cases r) auto
  consider "x = a" | "x \<in> set_tree l" | "x \<in> set_tree r" using Node.prems(3) by auto
  then show ?case
  proof cases
    case 1
    then show ?thesis using Node.prems(1,2) l r by (cases s) auto
  next
    case 2
    with Node.IH(1) [of "Some a"] Node.prems(1,2) l show ?thesis by auto
  next
    case 3
    with Node.IH(2) [of "Some a"] Node.prems(1,2) r show ?thesis by auto
  qed
qed simp

text \<open>A heap in which two nodes have changed places stores the tree in which they have.\<close>

definition swapped :: "'l \<Rightarrow> 'l \<Rightarrow> 'l \<Rightarrow> 'l" where
  "swapped a m x = (if x = a then m else if x = m then a else x)"

lemma swapped_swapped [simp]: "swapped a m (swapped a m x) = x"
  by (simp add: swapped_def)

lemma swapped_inj: "inj (swapped a m)"
  by (rule inj_on_inverseI [of _ "swapped a m"]) simp

lemma root_of_map [simp]: "root_of (map_tree f t) = map_option f (root_of t)"
  by (cases t) auto

lemma shape_map:
  assumes "\<And>x s. x \<in> set_tree t \<Longrightarrow> CAvl_link o2 (f x) s = map_option f (CAvl_link o1 x s)"
    and "\<And>x. x \<in> set_tree t \<Longrightarrow> CAvl_parent o2 (f x) = map_option f (CAvl_parent o1 x)" and "shape o1 p t"
  shows "shape o2 (map_option f p) (map_tree f t)"
  using assms by (induction t arbitrary: p) (auto split: option.splits, force+)

lemma bal_map: "(\<And>x. x \<in> set_tree t \<Longrightarrow> CAvl_balance o2 (f x) = CAvl_balance o1 x) \<Longrightarrow> bal_ok o1 t \<Longrightarrow> bal_ok o2 (map_tree f t)"
  by (induction t) auto

definition linked :: "'l set \<Rightarrow> 'l CAvl \<Rightarrow> bool" where
  "linked S o1 \<longleftrightarrow>
     (\<forall>x \<in> S. \<forall>s y. CAvl_link o1 x s = Some y \<longrightarrow> y \<in> S \<and> CAvl_parent o1 y = Some x \<and> y \<noteq> x \<and> CAvl_link o1 x (\<not> s) \<noteq> Some y) \<and>
     (\<forall>x \<in> S. (CAvl_parent o1 x = None \<longleftrightarrow> av_root o1 = Some x) \<and>
        (\<forall>q. CAvl_parent o1 x = Some q \<longrightarrow> q \<in> S \<and> q \<noteq> x \<and> (\<exists>s. CAvl_link o1 q s = Some x)))"

lemma avl_at_linked:
  assumes "avl_at o1 [] t"
  shows "linked (set_tree t) o1"
proof -
  have sh: "shape o1 None t" "distinct (inorder t)" "av_root o1 = root_of t" using assms by (simp_all add: avl_at_def)
  note N = shape_neighbours [OF sh(1,2)]
  show ?thesis unfolding linked_def sh(3)
  proof (intro conjI ballI allI impI)
    fix x s y assume "x \<in> set_tree t" "CAvl_link o1 x s = Some y"
    then show "y \<in> set_tree t" "CAvl_parent o1 y = Some x" "y \<noteq> x" "CAvl_link o1 x (\<not> s) \<noteq> Some y" using N [of x s y] by auto
  next
    fix x assume x: "x \<in> set_tree t"
    then show "CAvl_parent o1 x = None \<longleftrightarrow> root_of t = Some x" using N [of x] by auto
    fix q assume "CAvl_parent o1 x = Some q"
    then obtain s where s: "q \<in> set_tree t" "CAvl_link o1 q s = Some x" using N [OF x] by auto
    with N [OF s(1), of s x] show "q \<in> set_tree t" "q \<noteq> x" "\<exists>s. CAvl_link o1 q s = Some x" by auto
  qed
qed

lemma linkedD:
  assumes "linked S o1" "x \<in> S"
  shows "CAvl_link o1 x s = Some y \<Longrightarrow> y \<in> S" "CAvl_link o1 x s = Some y \<Longrightarrow> CAvl_parent o1 y = Some x"
    "CAvl_link o1 x s \<noteq> Some x" "CAvl_link o1 x s = Some y \<Longrightarrow> CAvl_link o1 x s' = Some y \<longleftrightarrow> s' = s"
    "CAvl_parent o1 x = None \<longleftrightarrow> av_root o1 = Some x" "CAvl_parent o1 x \<noteq> Some x" "CAvl_parent o1 x = Some q \<Longrightarrow> q \<in> S"
    "CAvl_parent o1 x = Some q \<Longrightarrow> \<exists>s. CAvl_link o1 q s = Some x"
proof -
  have a: "CAvl_link o1 x s = Some y \<Longrightarrow> y \<in> S \<and> CAvl_parent o1 y = Some x \<and> y \<noteq> x \<and> CAvl_link o1 x (\<not> s) \<noteq> Some y" for s y
    using assms unfolding linked_def by blast
  have b: "CAvl_parent o1 x = None \<longleftrightarrow> av_root o1 = Some x"
    "CAvl_parent o1 x = Some q \<Longrightarrow> q \<in> S \<and> q \<noteq> x \<and> (\<exists>s. CAvl_link o1 q s = Some x)" for q
    using assms unfolding linked_def by blast+
  show "CAvl_link o1 x s = Some y \<Longrightarrow> y \<in> S" "CAvl_link o1 x s = Some y \<Longrightarrow> CAvl_parent o1 y = Some x" "CAvl_link o1 x s \<noteq> Some x"
    using a by blast+
  show "CAvl_link o1 x s = Some y \<Longrightarrow> CAvl_link o1 x s' = Some y \<longleftrightarrow> s' = s" using a [of s y] by (cases s; cases s') auto
  show "CAvl_parent o1 x = None \<longleftrightarrow> av_root o1 = Some x" "CAvl_parent o1 x \<noteq> Some x" "CAvl_parent o1 x = Some q \<Longrightarrow> q \<in> S"
    "CAvl_parent o1 x = Some q \<Longrightarrow> \<exists>s. CAvl_link o1 q s = Some x"
    using b by blast+
qed

text \<open>The place that refers to a node, after another one has been put there.\<close>

lemma replace_child_fields:
  assumes "CAvl_parent o1 r = p" and "\<And>q. p = Some q \<Longrightarrow> \<exists>s. CAvl_link o1 q s = Some r \<and> CAvl_link o1 q (\<not> s) \<noteq> Some r"
  shows "CAvl_link (replace_child p r n o1) x s = (if p = Some x \<and> CAvl_link o1 x s = Some r then n else CAvl_link o1 x s)"
    "CAvl_parent (replace_child p r n o1) = CAvl_parent o1" "CAvl_balance (replace_child p r n o1) = CAvl_balance o1"
    "av_root (replace_child p r n o1) = (if p = None then n else av_root o1)"
proof -
  show "CAvl_link (replace_child p r n o1) x s = (if p = Some x \<and> CAvl_link o1 x s = Some r then n else CAvl_link o1 x s)"
  proof (cases p)
    case (Some q)
    with assms(2) obtain s' where "CAvl_link o1 q s' = Some r" "CAvl_link o1 q (\<not> s') \<noteq> Some r" by blast
    then show ?thesis using Some by (cases s'; cases s) (auto simp: replace_child_def avl_simps)
  qed (simp add: replace_child_def avl_simps)
qed (auto simp: replace_child_def avl_simps split: option.split)

definition heap_swapped :: "'l set \<Rightarrow> 'l \<Rightarrow> 'l \<Rightarrow> 'l CAvl \<Rightarrow> 'l CAvl \<Rightarrow> bool" where
  "heap_swapped S a m o1 o2 \<longleftrightarrow> (\<forall>x \<in> S.
     (\<forall>s. CAvl_link o2 (swapped a m x) s = map_option (swapped a m) (CAvl_link o1 x s)) \<and>
     CAvl_parent o2 (swapped a m x) = map_option (swapped a m) (CAvl_parent o1 x)) \<and>
   av_root o2 = map_option (swapped a m) (av_root o1)"

lemma map_swapped [simp]:
  "y \<noteq> Some a \<Longrightarrow> y \<noteq> Some m \<Longrightarrow> map_option (swapped a m) y = y"
  "swapped a m a = m" "swapped a m m = a"
  by (cases y; auto simp: swapped_def)+

lemma heap_swappedI:
  assumes "a \<in> S" "m \<in> S" "a \<noteq> m"
    and "\<And>s. CAvl_link o2 m s = map_option (swapped a m) (CAvl_link o1 a s)" "\<And>s. CAvl_link o2 a s = map_option (swapped a m) (CAvl_link o1 m s)"
    and "\<And>x s. x \<in> S \<Longrightarrow> x \<noteq> a \<Longrightarrow> x \<noteq> m \<Longrightarrow> CAvl_link o2 x s = map_option (swapped a m) (CAvl_link o1 x s)"
    and "CAvl_parent o2 m = map_option (swapped a m) (CAvl_parent o1 a)" "CAvl_parent o2 a = map_option (swapped a m) (CAvl_parent o1 m)"
    and "\<And>x. x \<in> S \<Longrightarrow> x \<noteq> a \<Longrightarrow> x \<noteq> m \<Longrightarrow> CAvl_parent o2 x = map_option (swapped a m) (CAvl_parent o1 x)"
    and "av_root o2 = map_option (swapped a m) (av_root o1)"
  shows "heap_swapped S a m o1 o2"
  unfolding heap_swapped_def
proof (intro conjI ballI allI)
  have sw: "swapped a m a = m" "swapped a m m = a" "x \<noteq> a \<Longrightarrow> x \<noteq> m \<Longrightarrow> swapped a m x = x" for x by (simp_all add: swapped_def)
  fix x s assume x: "x \<in> S"
  show "CAvl_link o2 (swapped a m x) s = map_option (swapped a m) (CAvl_link o1 x s)"
    using x assms(4-6) assms(3) by (cases "x = a"; cases "x = m") (simp_all add: sw)
  show "CAvl_parent o2 (swapped a m x) = map_option (swapped a m) (CAvl_parent o1 x)"
    using x assms(7-9) assms(3) by (cases "x = a"; cases "x = m") (simp_all add: sw)
qed (rule assms)

lemma child_other:
  assumes "linked S o1" "x \<in> S" "CAvl_parent o1 n \<noteq> Some x"
  shows "CAvl_link o1 x s \<noteq> Some n"
  using linkedD(2) [OF assms(1,2)] assms(3) by blast

lemma parent_iff: "linked S o1 \<Longrightarrow> x \<in> S \<Longrightarrow> y \<in> S \<Longrightarrow> CAvl_parent o1 x = Some y \<longleftrightarrow> (\<exists>s. CAvl_link o1 y s = Some x)"
  using linkedD(2,8) by metis

lemma swap_direct_fields:
  assumes L: "linked S o1" and S: "node \<in> S" "enode \<in> S" and p: "CAvl_parent o1 enode = Some node" and P2: "CAvl_parent o1 node \<noteq> Some enode"
  defines "side \<equiv> (Some enode = CAvl_link o1 node True)"
  defines "o2 \<equiv> CAvl_swap_for_remove o1 node enode (CAvl_parent o1 node) (CAvl_parent o1 enode)"
  shows "CAvl_link o1 node side = Some enode"
    "CAvl_link o2 x s = (if x = enode then (if s = side then Some node else CAvl_link o1 node (\<not> side))
      else if x = node then CAvl_link o1 enode s
      else if CAvl_parent o1 node = Some x \<and> CAvl_link o1 x s = Some node then Some enode else CAvl_link o1 x s)"
    "CAvl_parent o2 x = (if CAvl_link o1 node (\<not> side) = Some x then Some enode else if x = node then Some enode
      else if x = enode then CAvl_parent o1 node
      else if CAvl_link o1 enode False = Some x \<or> CAvl_link o1 enode True = Some x then Some node else CAvl_parent o1 x)"
    "CAvl_balance o2 x = (if x = enode then CAvl_balance o1 node else if x = node then CAvl_balance o1 enode else CAvl_balance o1 x)"
    "av_root o2 = (if CAvl_parent o1 node = None then Some enode else av_root o1)"
proof -
  have ne: "enode \<noteq> node" using linkedD(6) [OF L S(2)] p by auto
  obtain s0 where s0: "CAvl_link o1 node s0 = Some enode" using linkedD(8) [OF L S(2) p] by blast
  show side: "CAvl_link o1 node side = Some enode"
    using s0 linkedD(4) [OF L S(1) s0, of True] by (cases s0) (auto simp: side_def)
  have P1: "CAvl_parent o1 node \<noteq> Some node" using linkedD(6) [OF L S(1)] .
  have en: "CAvl_link o1 enode s \<noteq> Some node" for s using child_other [OF L S(2) P2] .
  define oa where "oa = set_parent enode (CAvl_parent o1 node)
    (set_parent_of (CAvl_link o1 enode True) (Some node) (set_link node True (CAvl_link o1 enode True)
      (set_parent_of (CAvl_link o1 enode False) (Some node) (set_link node False (CAvl_link o1 enode False) o1))))"
  have la: "CAvl_link oa x s = (if x = node then CAvl_link o1 enode s else CAvl_link o1 x s)" for x s
    using ne by (auto simp: oa_def avl_simps)
  have pa: "CAvl_parent oa x = (if x = enode then CAvl_parent o1 node
      else if CAvl_link o1 enode False = Some x \<or> CAvl_link o1 enode True = Some x then Some node else CAvl_parent o1 x)" for x
    by (auto simp: oa_def avl_simps)
  have ba: "CAvl_balance oa = CAvl_balance o1" "av_root oa = av_root o1" by (simp_all add: oa_def avl_simps fun_eq_iff)
  have "CAvl_parent oa node = CAvl_parent o1 node" using ne en by (simp add: pa)
  moreover have "\<exists>s. CAvl_link oa q s = Some node \<and> CAvl_link oa q (\<not> s) \<noteq> Some node" if q: "CAvl_parent o1 node = Some q" for q
  proof -
    obtain s where s: "CAvl_link o1 q s = Some node" using linkedD(8) [OF L S(1) q] by blast
    then show ?thesis using linkedD(4) [OF L linkedD(7) [OF L S(1) q] s, of "\<not> s"] P1 q by (intro exI [of _ s]) (auto simp: la)
  qed
  ultimately have rc: "CAvl_link (replace_child (CAvl_parent o1 node) node (Some enode) oa) x s =
      (if CAvl_parent o1 node = Some x \<and> CAvl_link oa x s = Some node then Some enode else CAvl_link oa x s)"
    "CAvl_parent (replace_child (CAvl_parent o1 node) node (Some enode) oa) = CAvl_parent oa"
    "CAvl_balance (replace_child (CAvl_parent o1 node) node (Some enode) oa) = CAvl_balance oa"
    "av_root (replace_child (CAvl_parent o1 node) node (Some enode) oa) = (if CAvl_parent o1 node = None then Some enode else av_root oa)" for x s
    using replace_child_fields [of oa node "CAvl_parent o1 node" "Some enode"] by blast+
  define ob where "ob = replace_child (CAvl_parent o1 node) node (Some enode) oa"
  define oc where "oc = set_parent_of (CAvl_link o1 node (\<not> side)) (Some enode) (set_link enode (\<not> side) (CAvl_link o1 node (\<not> side))
    (set_parent node (Some enode) (set_link enode side (Some node) ob)))"
  have o2: "o2 = set_balance enode (CAvl_balance oc node) (set_balance node (CAvl_balance oc enode) oc)"
    using ne en unfolding o2_def CAvl_swap_for_remove_def p side_def [symmetric] oc_def ob_def oa_def by (simp add: avl_simps Let_def)
  show "CAvl_link o2 x s = (if x = enode then (if s = side then Some node else CAvl_link o1 node (\<not> side))
      else if x = node then CAvl_link o1 enode s
      else if CAvl_parent o1 node = Some x \<and> CAvl_link o1 x s = Some node then Some enode else CAvl_link o1 x s)" for x s
    using ne P1 by (simp add: o2 oc_def avl_simps ob_def rc la)
  show "CAvl_parent o2 x = (if CAvl_link o1 node (\<not> side) = Some x then Some enode else if x = node then Some enode
      else if x = enode then CAvl_parent o1 node
      else if CAvl_link o1 enode False = Some x \<or> CAvl_link o1 enode True = Some x then Some node else CAvl_parent o1 x)" for x
    by (simp add: o2 oc_def avl_simps ob_def rc pa)
  show "CAvl_balance o2 x = (if x = enode then CAvl_balance o1 node else if x = node then CAvl_balance o1 enode else CAvl_balance o1 x)" for x
    by (simp add: o2 oc_def avl_simps ob_def rc ba)
  show "av_root o2 = (if CAvl_parent o1 node = None then Some enode else av_root o1)"
    by (simp add: o2 oc_def avl_simps ob_def rc ba)
qed

lemma swap_direct:
  assumes L: "linked S o1" and S: "node \<in> S" "enode \<in> S" and p: "CAvl_parent o1 enode = Some node" and P2: "CAvl_parent o1 node \<noteq> Some enode"
  shows "heap_swapped S node enode o1 (CAvl_swap_for_remove o1 node enode (CAvl_parent o1 node) (CAvl_parent o1 enode))"
proof -
  note F = swap_direct_fields [OF assms]
  have ne: "node \<noteq> enode" using linkedD(6) [OF L S(2)] p by auto
  have kn: "CAvl_link o1 node s = Some enode \<longleftrightarrow> s = (Some enode = CAvl_link o1 node True)" for s using linkedD(4) [OF L S(1) F(1)] .
  have sk: "CAvl_link o1 x s \<noteq> Some enode" if "x \<in> S" "x \<noteq> node" for x s using child_other [OF L that(1)] p that(2) by simp
  have no: "CAvl_link o1 node s \<noteq> Some node" "CAvl_link o1 enode s \<noteq> Some node" "CAvl_link o1 enode s \<noteq> Some enode" for s
    using linkedD(3) [OF L] S child_other [OF L S(2) P2] by blast+
  have P1: "CAvl_parent o1 node \<noteq> Some node" using linkedD(6) [OF L S(1)] .
  show ?thesis
  proof (rule heap_swappedI [OF S ne], unfold F(2,3,5), goal_cases)
    case (1 s)
    show ?case
    proof (cases "s = (Some enode = CAvl_link o1 node True)")
      case True
      then show ?thesis using F(1) by simp
    next
      case False
      moreover from this have "s = (\<not> (Some enode = CAvl_link o1 node True))" by blast
      ultimately show ?thesis using kn no by simp
    qed
  next
    case (2 s)
    then show ?case using ne no by simp
  next
    case (3 x s)
    then show ?case using sk linkedD(2) [OF L 3(1), of s] by (cases "CAvl_link o1 x s = Some node") auto
  next
    case 4
    then show ?case using ne P1 P2 F(1) kn [of "\<not> (Some enode = CAvl_link o1 node True)"] by simp
  next
    case 5
    then show ?case using ne no p by simp
  next
    case (6 x)
    have "CAvl_link o1 node (\<not> (Some enode = CAvl_link o1 node True)) = Some x \<longleftrightarrow> CAvl_parent o1 x = Some node"
      using parent_iff [OF L 6(1) S(1)] kn F(1) 6(3) by (metis (full_types) option.inject)
    moreover have "CAvl_link o1 enode False = Some x \<or> CAvl_link o1 enode True = Some x \<longleftrightarrow> CAvl_parent o1 x = Some enode"
      using parent_iff [OF L 6(1) S(2)] by (metis (full_types))
    ultimately show ?case using 6 ne by simp
  next
    case 7
    then show ?case using linkedD(5) [OF L S(1)] linkedD(5) [OF L S(2)] p by auto
  qed
qed

lemma place_of:
  assumes "linked S o1" "n \<in> S" "CAvl_parent o1 n = Some q"
  shows "\<exists>s. CAvl_link o1 q s = Some n \<and> CAvl_link o1 q (\<not> s) \<noteq> Some n"
proof -
  obtain s where s: "CAvl_link o1 q s = Some n" using linkedD(8) [OF assms] by blast
  then show ?thesis using linkedD(4) [OF assms(1) linkedD(7) [OF assms] s, of "\<not> s"] by (intro exI [of _ s]) auto
qed

lemma swap_apart_fields:
  assumes L: "linked S o1" and S: "node \<in> S" "enode \<in> S" and ne: "node \<noteq> enode"
    and E: "CAvl_parent o1 enode = E" "E \<noteq> Some node" "E \<noteq> None" and P: "CAvl_parent o1 node = P" "P \<noteq> Some enode" "P \<noteq> E"
  defines "o2 \<equiv> CAvl_swap_for_remove o1 node enode P E"
  shows "CAvl_link o2 x s = (if x = enode then CAvl_link o1 node s else if x = node then CAvl_link o1 enode s
      else if P = Some x \<and> CAvl_link o1 x s = Some node then Some enode
      else if E = Some x \<and> CAvl_link o1 x s = Some enode then Some node else CAvl_link o1 x s)"
    "CAvl_parent o2 x = (if CAvl_link o1 node True = Some x then Some enode else if CAvl_link o1 enode True = Some x then Some node
      else if CAvl_link o1 node False = Some x then Some enode else if CAvl_link o1 enode False = Some x then Some node
      else if x = enode then P else if x = node then E else CAvl_parent o1 x)"
    "CAvl_balance o2 x = (if x = enode then CAvl_balance o1 node else if x = node then CAvl_balance o1 enode else CAvl_balance o1 x)"
    "av_root o2 = (if P = None then Some enode else av_root o1)"
proof -
  have self: "P \<noteq> Some node" "E \<noteq> Some enode" using linkedD(6) [OF L] S E(1) P(1) by blast+
  define oa where "oa = replace_child E enode (Some node) (set_parent node E o1)"
  have "CAvl_parent (set_parent node E o1) enode = E" using ne E(1) by (simp add: avl_simps)
  moreover have "\<exists>s. CAvl_link (set_parent node E o1) q s = Some enode \<and> CAvl_link (set_parent node E o1) q (\<not> s) \<noteq> Some enode"
    if "E = Some q" for q using place_of [OF L S(2)] E(1) that by (simp add: avl_simps)
  ultimately have ra: "CAvl_link oa x s = (if E = Some x \<and> CAvl_link o1 x s = Some enode then Some node else CAvl_link o1 x s)"
    "CAvl_parent oa x = (if x = node then E else CAvl_parent o1 x)" "CAvl_balance oa = CAvl_balance o1" "av_root oa = av_root o1" for x s
    using replace_child_fields [of "set_parent node E o1" enode E "Some node"] E(3) by (simp_all add: oa_def avl_simps)
  define ob where "ob = replace_child P node (Some enode) (set_parent enode P oa)"
  have lP: "CAvl_link oa q s = CAvl_link o1 q s" if "P = Some q" for q s using that P(3) by (auto simp: ra)
  have rb: "CAvl_link ob x s = (if P = Some x \<and> CAvl_link o1 x s = Some node then Some enode else CAvl_link oa x s)"
    "CAvl_parent ob x = (if x = enode then P else if x = node then E else CAvl_parent o1 x)" "CAvl_balance ob = CAvl_balance o1"
    "av_root ob = (if P = None then Some enode else av_root o1)" for x s
  proof -
    have "CAvl_link ob x s = (if P = Some x \<and> CAvl_link oa x s = Some node then Some enode else CAvl_link oa x s)"
    proof (cases P)
      case (Some q)
      from place_of [OF L S(1), of q] P(1) Some obtain s' where "CAvl_link oa q s' = Some node" "CAvl_link oa q (\<not> s') \<noteq> Some node"
        using lP by auto
      then show ?thesis using Some by (cases s'; cases s) (auto simp: ob_def replace_child_def avl_simps)
    qed (simp add: ob_def replace_child_def avl_simps)
    then show "CAvl_link ob x s = (if P = Some x \<and> CAvl_link o1 x s = Some node then Some enode else CAvl_link oa x s)" using lP by auto
  qed (auto simp: ob_def replace_child_def avl_simps ra split: option.split)
  have lb: "CAvl_link ob node s = CAvl_link o1 node s" "CAvl_link ob enode s = CAvl_link o1 enode s" for s
    using self E(2) P(2) by (simp_all add: rb ra)
  define oc where "oc = set_parent_of (CAvl_link o1 node False) (Some enode) (set_link enode False (CAvl_link o1 node False)
    (set_parent_of (CAvl_link o1 enode False) (Some node) (set_link node False (CAvl_link o1 enode False) ob)))"
  define od where "od = set_parent_of (CAvl_link o1 node True) (Some enode) (set_link enode True (CAvl_link o1 node True)
    (set_parent_of (CAvl_link o1 enode True) (Some node) (set_link node True (CAvl_link o1 enode True) oc)))"
  have lc: "CAvl_link oc node True = CAvl_link o1 node True" "CAvl_link oc enode True = CAvl_link o1 enode True"
    using ne by (simp_all add: oc_def avl_simps lb)
  have o2: "o2 = set_balance enode (CAvl_balance od node) (set_balance node (CAvl_balance od enode) od)"
    using ne E(1,2) unfolding o2_def CAvl_swap_for_remove_def od_def oc_def oa_def [symmetric] ob_def [symmetric]
    by (simp add: avl_simps Let_def lb oa_def [symmetric] ob_def [symmetric])
  show "CAvl_link o2 x s = (if x = enode then CAvl_link o1 node s else if x = node then CAvl_link o1 enode s
      else if P = Some x \<and> CAvl_link o1 x s = Some node then Some enode
      else if E = Some x \<and> CAvl_link o1 x s = Some enode then Some node else CAvl_link o1 x s)" for x s
    using ne by (auto simp: o2 od_def oc_def avl_simps rb ra lb)
  show "CAvl_parent o2 x = (if CAvl_link o1 node True = Some x then Some enode else if CAvl_link o1 enode True = Some x then Some node
      else if CAvl_link o1 node False = Some x then Some enode else if CAvl_link o1 enode False = Some x then Some node
      else if x = enode then P else if x = node then E else CAvl_parent o1 x)" for x
    by (simp add: o2 od_def oc_def avl_simps rb)
  show "CAvl_balance o2 x = (if x = enode then CAvl_balance o1 node else if x = node then CAvl_balance o1 enode else CAvl_balance o1 x)" for x
    by (simp add: o2 od_def oc_def avl_simps rb)
  show "av_root o2 = (if P = None then Some enode else av_root o1)" by (simp add: o2 od_def oc_def avl_simps rb)
qed

lemma swap_apart:
  assumes L: "linked S o1" and S: "node \<in> S" "enode \<in> S" and ne: "node \<noteq> enode"
    and E: "CAvl_parent o1 enode = E" "E \<noteq> Some node" "E \<noteq> None" and P: "CAvl_parent o1 node = P" "P \<noteq> Some enode" "P \<noteq> E"
  shows "heap_swapped S node enode o1 (CAvl_swap_for_remove o1 node enode P E)"
proof -
  note F = swap_apart_fields [OF assms]
  have no: "CAvl_link o1 node s \<noteq> Some node" "CAvl_link o1 enode s \<noteq> Some node" "CAvl_link o1 enode s \<noteq> Some enode"
    "CAvl_link o1 node s \<noteq> Some enode" for s
    using linkedD(3) [OF L] S child_other [OF L S(2)] child_other [OF L S(1)] E P by blast+
  have self: "P \<noteq> Some node" "E \<noteq> Some enode" using linkedD(6) [OF L] S E(1) P(1) by blast+
  show ?thesis
  proof (rule heap_swappedI [OF S ne], unfold F(1,2,4), goal_cases)
    case (3 x s)
    have "CAvl_link o1 x s = Some node \<Longrightarrow> P = Some x" "CAvl_link o1 x s = Some enode \<Longrightarrow> E = Some x"
      using linkedD(2) [OF L 3(1)] E(1) P(1) by auto
    then show ?case using 3 ne by (cases "CAvl_link o1 x s = Some node"; cases "CAvl_link o1 x s = Some enode") auto
  next
    case (6 x)
    have "CAvl_link o1 node True = Some x \<or> CAvl_link o1 node False = Some x \<longleftrightarrow> CAvl_parent o1 x = Some node"
      using parent_iff [OF L 6(1) S(1)] by (metis (full_types))
    moreover have "CAvl_link o1 enode False = Some x \<or> CAvl_link o1 enode True = Some x \<longleftrightarrow> CAvl_parent o1 x = Some enode"
      using parent_iff [OF L 6(1) S(2)] by (metis (full_types))
    ultimately show ?case using 6 ne by (cases "CAvl_parent o1 x = Some node"; cases "CAvl_parent o1 x = Some enode") auto
  next
    case 7
    then show ?case using linkedD(5) [OF L S(1)] linkedD(5) [OF L S(2)] E P by (cases "P = None") auto
  qed (use ne no E P self in simp_all)
qed

lemma inorder_map: "inorder (map_tree f t) = map f (inorder t)"
  by (induction t) auto

lemma map_plug: "map_tree f (plug fs t) = plug (map (\<lambda>(s, a, u). (s, f a, map_tree f u)) fs) (map_tree f t)"
  by (induction fs t rule: plug.induct) (auto simp: node_at_def)

lemma heap_swapped_tree:
  assumes at: "avl_at o1 [] t" and hs: "heap_swapped (set_tree t) a m o1 o2" and am: "a \<in> set_tree t" "m \<in> set_tree t"
  shows "avl_at o2 [] (map_tree (swapped a m) t)"
proof -
  let ?f = "swapped a m"
  have "shape o2 (map_option ?f None) (map_tree ?f t)"
    by (rule shape_map [of t o2 ?f o1]) (use hs at in \<open>auto simp: heap_swapped_def avl_at_def\<close>)
  moreover have "distinct (inorder (map_tree ?f t))"
    using at inj_on_subset [OF swapped_inj] by (simp add: avl_at_def inorder_map distinct_map)
  ultimately show ?thesis using hs at by (simp add: avl_at_def heap_swapped_def)
qed

text \<open>The largest entry of a subtree ends a path to the right.\<close>

lemma CAvl_descend_max:
  assumes "shape o1 p t" "root_of t = Some n"
  obtains fs l m where "CAvl_descend o1 n True = Some m" "t = plug fs \<langle>l, m, \<langle>\<rangle>\<rangle>" "list_all fst fs"
  using assms
proof (induction t arbitrary: p n thesis)
  case (Node l a r)
  have n: "n = a" using Node.prems(3) by simp
  show ?case
  proof (cases "root_of r")
    case None
    then have "CAvl_descend o1 n True = Some a" "\<langle>l, a, r\<rangle> = plug [] \<langle>l, a, \<langle>\<rangle>\<rangle>"
      using Node.prems(2) by (simp_all add: n CAvl_descend.simps [of o1 a])
    then show ?thesis by (rule Node.prems(1)) simp
  next
    case (Some b)
    have sh: "shape o1 (Some a) r" using Node.prems(2) by simp
    obtain fs l' m where m: "CAvl_descend o1 b True = Some m" "r = plug fs \<langle>l', m, \<langle>\<rangle>\<rangle>" "list_all fst fs"
      using Node.IH(2) [OF _ sh Some] by blast
    have "CAvl_descend o1 n True = Some m" using m(1) Some Node.prems(2) by (simp add: n CAvl_descend.simps [of o1 a])
    moreover have "\<langle>l, a, r\<rangle> = plug (fs @ [(True, a, l)]) \<langle>l', m, \<langle>\<rangle>\<rangle>" using m(2) by (simp add: plug_append node_at_def)
    ultimately show ?thesis by (rule Node.prems(1)) (use m(3) in simp)
  qed
qed simp

lemma CAvl_descend_min:
  assumes "shape o1 p t" "root_of t = Some n"
  shows "CAvl_descend o1 n False = Some (hd (inorder t))"
  using assms
proof (induction t arbitrary: p n)
  case (Node l a r)
  then have n: "n = a" "CAvl_link o1 a False = root_of l" "shape o1 (Some a) l" by simp_all
  show ?case
  proof (cases "root_of l")
    case (Some b)
    then have "inorder l \<noteq> []" by auto
    then show ?thesis using Some n Node.IH(1) [OF n(3) Some] by (simp add: CAvl_descend.simps [of o1 a])
  qed (use n in \<open>simp add: CAvl_descend.simps [of o1 a]\<close>)
qed simp

lemma list_all_fst_after: "list_all fst fs \<Longrightarrow> after fs = []"
  by (induction fs rule: after.induct) auto

lemma CAvl_descend_last:
  assumes "shape o1 p t" "root_of t = Some n"
  shows "CAvl_descend o1 n True = Some (last (inorder t))"
proof (rule CAvl_descend_max [OF assms])
  fix fs l m assume "CAvl_descend o1 n True = Some m" "t = plug fs \<langle>l, m, \<langle>\<rangle>\<rangle>" "list_all fst fs"
  then show ?thesis by (simp add: inorder_plug list_all_fst_after)
qed

lemma replace_single:
  assumes at: "avl_at o1 fs \<langle>l, a, r\<rangle>" and one: "l = \<langle>\<rangle> \<or> r = \<langle>\<rangle>" and bal: "bal_ok o1 \<langle>l, a, r\<rangle>" "ctx_bal o1 fs (int (height \<langle>l, a, r\<rangle>))"
  defines "c \<equiv> (if l = \<langle>\<rangle> then r else l)"
  defines "o2 \<equiv> CAvl_replace_subtree_fix_assoc o1 a (root_of c) (par_of fs)"
  shows "avl_at o2 fs c" "bal_ok o2 c" "ctx_bal o2 fs (int (height c) - (-1))" "inorder (plug fs c) = removeAll a (inorder (plug fs \<langle>l, a, r\<rangle>))"
proof -
  have d: "distinct (inorder (plug fs \<langle>l, a, r\<rangle>))" and cs: "ctx_shape o1 fs (Some a)" and p: "CAvl_parent o1 a = par_of fs"
    and sh: "shape o1 (Some a) c" using at by (auto simp: avl_at_def c_def)
  have D: "distinct (inorder \<langle>l, a, r\<rangle>)" "set_tree \<langle>l, a, r\<rangle> \<inter> frame_set fs = {}" using distinct_plugD [OF d] by auto
  have io: "inorder \<langle>l, a, r\<rangle> = [a] @ inorder c \<or> inorder \<langle>l, a, r\<rangle> = inorder c @ [a]" using one by (auto simp: c_def)
  have a: "a \<notin> set (before fs)" "a \<notin> set (after fs)" "a \<notin> set_tree c" using d D(1) unfolding inorder_plug by (auto simp: c_def)
  have "inorder c = removeAll a (inorder \<langle>l, a, r\<rangle>)"
    using io a(3) by (elim disjE; simp only: removeAll_append) simp_all
  then show rem: "inorder (plug fs c) = removeAll a (inorder (plug fs \<langle>l, a, r\<rangle>))" using a(1,2) unfolding inorder_plug by simp
  define oa where "oa = replace_child (par_of fs) a (root_of c) o1"
  have "a \<in> set_tree \<langle>l, a, r\<rangle>" by simp
  note rc = ctx_replace_child [OF cs d this, where n = "root_of c", folded oa_def]
  have o2: "o2 = set_parent_of (root_of c) (par_of fs) oa" using p rc(2) by (simp add: o2_def CAvl_replace_subtree_fix_assoc_def oa_def [symmetric] Let_def)
  have sub: "set_tree c \<subseteq> set_tree \<langle>l, a, r\<rangle>" by (auto simp: c_def)
  have nr: "root_of c \<noteq> Some x" if "x \<notin> set_tree c" for x using that root_of_SomeD [of c x] by blast
  have "shape o2 (par_of fs) c"
    by (rule shape_set_parent [OF sh]) (use D(1) sub rc(2,4) in \<open>auto simp: o2 avl_simps c_def split: if_splits\<close>)
  moreover have "ctx_shape o2 fs (root_of c) = ctx_shape oa fs (root_of c)"
  proof (rule ctx_shape_cong)
    fix x assume "x \<in> frame_set fs"
    then have "x \<notin> set_tree c" using D(2) sub by blast
    then show "CAvl_parent o2 x = CAvl_parent oa x" using nr by (simp add: o2 avl_simps)
  qed (simp_all add: o2 avl_simps)
  moreover have "distinct (inorder (plug fs c))" unfolding rem using d by (rule distinct_removeAll)
  ultimately show "avl_at o2 fs c" using rc(1) by (simp add: avl_at_def)
  have b: "CAvl_balance o2 = CAvl_balance o1" using rc(3) by (simp add: o2 avl_simps)
  have "bal_ok o2 c = bal_ok o1 c" by (intro bal_ok_cong) (simp add: b)
  then show "bal_ok o2 c" using bal(1) by (auto simp: c_def)
  have "ctx_bal o2 fs h = ctx_bal o1 fs h" for h by (intro ctx_bal_cong) (simp add: b)
  moreover have "int (height \<langle>l, a, r\<rangle>) = int (height c) - (-1)" using one by (auto simp: c_def)
  ultimately show "ctx_bal o2 fs (int (height c) - (-1))" using bal(2) by metis
qed

lemma remove_single_ok:
  assumes at: "avl_at o1 fs \<langle>l, a, r\<rangle>" and one: "l = \<langle>\<rangle> \<or> r = \<langle>\<rangle>" and bal: "bal_ok o1 \<langle>l, a, r\<rangle>" "ctx_bal o1 fs (int (height \<langle>l, a, r\<rangle>))"
  obtains o2 where "remove_single o1 a = Some o2" "avl_tree o2 (removeAll a (inorder (plug fs \<langle>l, a, r\<rangle>)))"
proof -
  define c where "c = (if l = \<langle>\<rangle> then r else l)"
  define oa where "oa = CAvl_replace_subtree_fix_assoc o1 a (root_of c) (par_of fs)"
  note R = replace_single [OF assms, folded c_def, folded oa_def]
  have p: "CAvl_parent o1 a = par_of fs" using avl_at_parent [OF at] by simp
  have "CAvl_link o1 a False = root_of l" "CAvl_link o1 a True = root_of r" using at by (simp_all add: avl_at_def)
  then have rs: "remove_single o1 a = (case par_of fs of Some p \<Rightarrow> CAvl_rebalance oa p (Some a = CAvl_link o1 p True) (-1) | None \<Rightarrow> Some oa)"
    using one by (auto simp: remove_single_def p oa_def c_def Let_def split: option.split)
  show thesis
  proof (cases fs)
    case Nil
    then have "avl_tree oa (removeAll a (inorder (plug fs \<langle>l, a, r\<rangle>)))" using R unfolding avl_tree_def R(4) [symmetric] by auto
    then show thesis using that rs Nil by simp
  next
    case (Cons f gs)
    obtain s b u where f: "f = (s, b, u)" using prod_cases3 by blast
    have side: "(Some a = CAvl_link o1 b True) = s" using avl_at_side [OF at [unfolded Cons f]] by (auto simp: eq_commute)
    have "(-1 :: int) \<in> {-1, 0, 1}" by simp
    from CAvl_rebalance_ok [OF R(1-3) [unfolded Cons f] this] obtain o2 t' where
      "CAvl_rebalance oa b s (-1) = Some o2" "avl_at o2 [] t'" "bal_ok o2 t'" "inorder t' = inorder (plug fs c)"
      unfolding Cons f by blast
    then show thesis using that [of o2] rs side R(4) unfolding avl_tree_def by (auto simp: Cons f simp del: plug.simps)
  qed
qed

lemma swap_for_remove_ok:
  assumes at: "avl_at o1 [] T" and T: "T = plug fs \<langle>l, a, r\<rangle>" and l: "l = plug gs \<langle>ml, m, \<langle>\<rangle>\<rangle>"
  defines "o2 \<equiv> CAvl_swap_for_remove o1 a m (CAvl_parent o1 a) (CAvl_parent o1 m)"
  shows "heap_swapped (set_tree T) a m o1 o2" "\<And>x. CAvl_balance o2 (swapped a m x) = CAvl_balance o1 x"
proof -
  have L: "linked (set_tree T) o1" using avl_at_linked [OF at] .
  have S: "a \<in> set_tree T" "m \<in> set_tree T" by (auto simp: T l)
  have d: "distinct (inorder T)" using at by (simp add: avl_at_def)
  have D: "set_tree \<langle>l, a, r\<rangle> \<inter> frame_set fs = {}" "a \<noteq> m" "m \<notin> frame_set gs" "a \<notin> frame_set gs" "frame_set gs \<subseteq> set_tree l" "m \<in> set_tree l"
    using distinct_plugD [of fs "\<langle>l, a, r\<rangle>"] distinct_plugD [of gs "\<langle>ml, m, \<langle>\<rangle>\<rangle>"] d by (auto simp: T l)
  have "shape o1 None (plug fs \<langle>l, a, r\<rangle>) \<and> av_root o1 = root_of (plug fs \<langle>l, a, r\<rangle>)" using at by (simp add: avl_at_def T)
  then have P: "CAvl_parent o1 a = par_of fs" using plug_shape [of o1 fs "\<langle>l, a, r\<rangle>"] by simp
  have "plug fs \<langle>l, a, r\<rangle> = plug (gs @ (False, a, r) # fs) \<langle>ml, m, \<langle>\<rangle>\<rangle>" by (simp add: plug_append l node_at_def)
  then have E: "CAvl_parent o1 m = par_of (gs @ (False, a, r) # fs)"
    using plug_shape [of o1 "gs @ (False, a, r) # fs" "\<langle>ml, m, \<langle>\<rangle>\<rangle>"] at by (simp add: avl_at_def T)
  have pf: "par_of fs = None \<or> (\<exists>q. par_of fs = Some q \<and> q \<in> frame_set fs)" by (cases fs rule: par_of.cases) auto
  then have P2: "par_of fs \<noteq> Some m" using D by auto
  have "heap_swapped (set_tree T) a m o1 o2 \<and> (\<forall>x. CAvl_balance o2 (swapped a m x) = CAvl_balance o1 x)"
  proof (cases gs)
    case Nil
    then have p: "CAvl_parent o1 m = Some a" using E by simp
    have P3: "CAvl_parent o1 a \<noteq> Some m" using P2 P by simp
    show ?thesis using swap_direct [OF L S p P3] swap_direct_fields(4) [OF L S p P3] D(2) unfolding o2_def by (auto simp: swapped_def)
  next
    case (Cons g hs)
    obtain s b u where g: "g = (s, b, u)" using prod_cases3 by blast
    have E': "CAvl_parent o1 m = Some b" using E by (simp add: Cons g)
    have b: "b \<in> frame_set gs" by (simp add: Cons g)
    have "Some b \<noteq> Some a" "Some b \<noteq> None" "par_of fs \<noteq> Some b" using b D pf by auto
    note A = L S D(2) E' this(1,2) P P2 this(3)
    show ?thesis using swap_apart [OF A] swap_apart_fields(3) [OF A] D(2) unfolding o2_def P E' by (auto simp: swapped_def)
  qed
  then show "heap_swapped (set_tree T) a m o1 o2" "\<And>x. CAvl_balance o2 (swapped a m x) = CAvl_balance o1 x" by blast+
qed

lemma removeAll_swapped:
  assumes "distinct (xs @ [m, a] @ ys)"
  shows "removeAll a (map (swapped a m) (xs @ [m, a] @ ys)) = removeAll a (xs @ [m, a] @ ys)"
proof -
  have "map (swapped a m) xs = xs" "map (swapped a m) ys = ys" using assms by (auto intro!: map_idI simp: swapped_def)
  then show ?thesis by (simp add: swapped_def)
qed

lemma CAvl_Remove_ok:
  assumes "avl_tree o1 xs" and "a \<in> set xs"
  obtains o2 where "CAvl_Remove o1 a = Some o2" "avl_tree o2 (remove1 a xs)"
proof -
  from assms(1) obtain T where T: "avl_at o1 [] T" "bal_ok o1 T" "inorder T = xs" by (auto simp: avl_tree_def)
  have d: "distinct xs" using avl_tree_distinct [OF assms(1)] .
  have rm: "remove1 a xs = removeAll a xs" by (rule distinct_remove1_removeAll [OF d])
  obtain fs l r where p: "T = plug fs \<langle>l, a, r\<rangle>" using tree_position [of a T] assms(2) T(3) by (metis set_inorder)
  have at: "avl_at o1 fs \<langle>l, a, r\<rangle>" using T(1) unfolding p avl_at_plug .
  have bal: "bal_ok o1 \<langle>l, a, r\<rangle>" "ctx_bal o1 fs (int (height \<langle>l, a, r\<rangle>))" using T(2) unfolding p plug_bal by blast+
  have links: "CAvl_link o1 a False = root_of l" "CAvl_link o1 a True = root_of r" and sl: "shape o1 (Some a) l" using at by (simp_all add: avl_at_def)
  show thesis
  proof (cases "l = \<langle>\<rangle> \<or> r = \<langle>\<rangle>")
    case True
    have "CAvl_Remove o1 a = remove_single o1 a" using True links by (auto simp: CAvl_Remove_def split: option.split)
    then show thesis using remove_single_ok [OF at True bal] that T(3) rm by (metis p)
  next
    case False
    then obtain n n' where n: "root_of l = Some n" "root_of r = Some n'" by fastforce
    obtain gs ml m where m: "CAvl_descend o1 n True = Some m" "l = plug gs \<langle>ml, m, \<langle>\<rangle>\<rangle>" "list_all fst gs"
      using CAvl_descend_max [OF sl n(1)] by blast
    define o2 where "o2 = CAvl_swap_for_remove o1 a m (CAvl_parent o1 a) (CAvl_parent o1 m)"
    note SW = swap_for_remove_ok [OF T(1) p m(2), folded o2_def]
    have rem: "CAvl_Remove o1 a = remove_single o2 a" using n m(1) links by (simp add: CAvl_Remove_def CAvl_subtree_max_def o2_def)
    define T2 where "T2 = map_tree (swapped a m) T"
    define FS where "FS = map (\<lambda>(s, a', u). (s, swapped a m a', map_tree (swapped a m) u)) (gs @ (False, a, r) # fs)"
    have "T = plug (gs @ (False, a, r) # fs) \<langle>ml, m, \<langle>\<rangle>\<rangle>" by (simp add: p plug_append m(2) node_at_def)
    then have T2: "T2 = plug FS \<langle>map_tree (swapped a m) ml, a, \<langle>\<rangle>\<rangle>" unfolding T2_def FS_def by (simp only: map_plug) simp
    have "avl_at o2 [] T2" unfolding T2_def using heap_swapped_tree [OF T(1) SW(1)] p m(2) by simp
    then have at2: "avl_at o2 FS \<langle>map_tree (swapped a m) ml, a, \<langle>\<rangle>\<rangle>" unfolding T2 avl_at_plug .
    have "bal_ok o2 T2" unfolding T2_def by (rule bal_map [of T o2 "swapped a m" o1]) (use SW(2) T(2) in auto)
    then have bal2: "bal_ok o2 \<langle>map_tree (swapped a m) ml, a, \<langle>\<rangle>\<rangle>" "ctx_bal o2 FS (int (height \<langle>map_tree (swapped a m) ml, a, \<langle>\<rangle>\<rangle>))"
      unfolding T2 plug_bal by blast+
    have xs: "xs = (before fs @ before gs @ inorder ml) @ [m, a] @ (inorder r @ after fs)"
      using T(3) by (simp add: p inorder_plug m(2) list_all_fst_after [OF m(3)])
    have "removeAll a (inorder T2) = removeAll a xs"
      using removeAll_swapped d unfolding T2_def inorder_map T(3) by (metis xs)
    then show thesis using remove_single_ok [OF at2 _ bal2] that unfolding rem rm T2 by auto
  qed
qed

section \<open>Reading\<close>

lemma CAvl_GetFirst_ok:
  assumes "avl_tree o1 xs"
  shows "CAvl_GetFirst o1 = Some (if xs = [] then None else Some (hd xs))" "CAvl_GetLast o1 = Some (if xs = [] then None else Some (last xs))"
    "CAvl_IsEmpty o1 \<longleftrightarrow> xs = []"
proof -
  from assms obtain t where t: "shape o1 None t" "inorder t = xs" "av_root o1 = root_of t" by (auto simp: avl_tree_def avl_at_def)
  show "CAvl_IsEmpty o1 \<longleftrightarrow> xs = []" using avl_tree_root [OF assms] by (simp add: CAvl_IsEmpty_def)
  show "CAvl_GetFirst o1 = Some (if xs = [] then None else Some (hd xs))" "CAvl_GetLast o1 = Some (if xs = [] then None else Some (last xs))"
    using t CAvl_descend_min [OF t(1)] CAvl_descend_last [OF t(1)]
    by (cases t; auto simp: CAvl_GetFirst_def CAvl_GetLast_def CAvl_subtree_min_def CAvl_subtree_max_def)+
qed

text \<open>The loop upwards ends at the first frame that was entered from the other side.\<close>

lemma CAvl_climb_ok:
  assumes "avl_at o1 fs t" and "root_of t = Some n"
  shows "CAvl_climb o1 n True = Some (if after fs = [] then None else Some (hd (after fs)))"
    "CAvl_climb o1 n False = Some (if before fs = [] then None else Some (last (before fs)))"
  using assms
proof (induction fs arbitrary: t n)
  case Nil
  {
    case 1
    then show ?case using avl_at_parent [OF 1] by (simp add: CAvl_climb.simps [of o1 n])
  next
    case 2
    then show ?case using avl_at_parent [OF 2] by (simp add: CAvl_climb.simps [of o1 n])
  }
next
  case (Cons f fs)
  obtain s a u where f: "f = (s, a, u)" using prod_cases3 by blast
  {
    case 1
    have p: "CAvl_parent o1 n = Some a" using avl_at_parent [OF 1] by (simp add: f)
    have side: "(CAvl_link o1 a True = Some n) = s" using avl_at_side [OF 1 [unfolded f]] .
    have up: "avl_at o1 fs (node_at s a t u)" using 1(1) by (auto simp: f avl_at_def)
    show ?case using Cons.IH(1) [OF up] side p by (cases s) (auto simp: f CAvl_climb.simps [of o1 n])
  next
    case 2
    have p: "CAvl_parent o1 n = Some a" using avl_at_parent [OF 2] by (simp add: f)
    have side: "(CAvl_link o1 a True = Some n) = s" using avl_at_side [OF 2 [unfolded f]] .
    have l: "CAvl_link o1 a s = Some n" using 2 by (simp add: f avl_at_def)
    have up: "avl_at o1 fs (node_at s a t u)" using 2(1) by (auto simp: f avl_at_def)
    have "(CAvl_link o1 a False = Some n) = (\<not> s)"
    proof (cases s)
      case True
      have "root_of u \<noteq> Some n"
        using 2 root_of_SomeD [of u n] root_of_SomeD [of t n] avl_at_distinct [OF up] by auto
      then show ?thesis using True 2(1) by (simp add: f avl_at_def)
    qed (use l in simp)
    then show ?case using Cons.IH(2) [OF up] p by (cases s) (auto simp: f CAvl_climb.simps [of o1 n])
  }
qed

lemma CAvl_GetNext_ok:
  assumes "avl_tree o1 (ys @ a # zs)"
  shows "CAvl_GetNext o1 a = Some (if zs = [] then None else Some (hd zs))"
    "CAvl_GetPrev o1 a = Some (if ys = [] then None else Some (last ys))"
proof -
  from assms obtain t where t: "avl_at o1 [] t" "inorder t = ys @ a # zs" by (auto simp: avl_tree_def)
  have "a \<in> set_tree t" using arg_cong [OF t(2), of set] by simp
  then obtain fs l r where p: "t = plug fs \<langle>l, a, r\<rangle>" using tree_position by metis
  have at: "avl_at o1 fs \<langle>l, a, r\<rangle>" using t(1) unfolding p avl_at_plug .
  have d: "distinct (ys @ a # zs)" using avl_at_distinct [OF t(1)] t(2) by simp
  have "(before fs @ inorder l) @ a # (inorder r @ after fs) = ys @ a # zs" using t(2) unfolding p inorder_plug by simp
  with d have e: "ys = before fs @ inorder l" "zs = inorder r @ after fs" by (auto simp: append_eq_append_conv2 append_eq_Cons_conv Cons_eq_append_conv)
  have sh: "shape o1 (Some a) l" "shape o1 (Some a) r" "CAvl_link o1 a False = root_of l" "CAvl_link o1 a True = root_of r"
    using at by (simp_all add: avl_at_def)
  note C = CAvl_climb_ok [OF at]
  show "CAvl_GetNext o1 a = Some (if zs = [] then None else Some (hd zs))"
    using C CAvl_descend_min [OF sh(2)] sh(4) unfolding e by (cases r) (auto simp: CAvl_GetNext_def hd_append)
  show "CAvl_GetPrev o1 a = Some (if ys = [] then None else Some (last ys))"
    using C CAvl_descend_last [OF sh(1)] sh(3) unfolding e by (cases l) (auto simp: CAvl_GetPrev_def)
qed

lemma CAvl_Lookup_ok:
  assumes "avl_tree o1 xs" and "descending f xs"
  shows "\<exists>e. CAvl_LookupExact f o1 = Some e \<and> (case e of None \<Rightarrow> \<forall>x \<in> set xs. f x \<noteq> 0 | Some x \<Rightarrow> x \<in> set xs \<and> f x = 0)"
    "\<exists>e. CAvl_Lookup f o1 = Some e \<and> (case e of None \<Rightarrow> xs = [] | Some x \<Rightarrow> x \<in> set xs \<and>
      (f x = 0 \<or> (\<forall>y \<in> set xs. f y \<noteq> 0) \<and> (f x = 1 \<and> x = last (filter (\<lambda>y. f y = 1) xs) \<or> f x = -1 \<and> x = hd (filter (\<lambda>y. f y = -1) xs))))"
proof -
  from assms(1) obtain t where t: "shape o1 None t" "inorder t = xs" "av_root o1 = root_of t" by (auto simp: avl_tree_def avl_at_def)
  have "(\<exists>e. CAvl_LookupExact f o1 = Some e \<and> (case e of None \<Rightarrow> \<forall>x \<in> set xs. f x \<noteq> 0 | Some x \<Rightarrow> x \<in> set xs \<and> f x = 0)) \<and>
    (\<exists>e. CAvl_Lookup f o1 = Some e \<and> (case e of None \<Rightarrow> xs = [] | Some x \<Rightarrow> x \<in> set xs \<and>
      (f x = 0 \<or> (\<forall>y \<in> set xs. f y \<noteq> 0) \<and> (f x = 1 \<and> x = last (filter (\<lambda>y. f y = 1) xs) \<or> f x = -1 \<and> x = hd (filter (\<lambda>y. f y = -1) xs)))))"
  proof (cases "root_of t")
    case None
    then show ?thesis using t by (auto simp: CAvl_LookupExact_def CAvl_Lookup_def)
  next
    case (Some c)
    from insert_search_ok [OF t(1) Some assms(2) [folded t(2)]] show ?thesis
    proof (elim disjE bexE exE conjE, goal_cases)
      case (1 e)
      then have "e \<in> set xs" using t(2) by (metis set_inorder)
      then show ?case using 1 t(3) Some by (simp add: CAvl_LookupExact_def CAvl_Lookup_def)
    next
      case (2 side a u fs)
      let ?fs = "(side, a, u) # fs"
      have xs: "xs = before ?fs @ after ?fs" using t(2) 2 inorder_plug [of ?fs "\<langle>\<rangle>"] by simp
      have b: "\<forall>x \<in> set (before ?fs). f x = 1" "\<forall>x \<in> set (after ?fs). f x = -1" using 2 by auto
      then have fl: "filter (\<lambda>y. f y = 1) xs = before ?fs" "filter (\<lambda>y. f y = -1) xs = after ?fs" "\<forall>x \<in> set xs. f x \<noteq> 0"
        unfolding xs by (auto simp del: before.simps after.simps)
      have "a \<in> set xs" "f a = 1 \<and> a = last (before ?fs) \<or> f a = -1 \<and> a = hd (after ?fs)" using b(1) b(2) unfolding xs by (cases side; simp)+
      moreover have "CAvl_LookupExact f o1 = Some None" "CAvl_Lookup f o1 = Some (Some a)"
        using 2 t(3) Some by (simp_all add: CAvl_LookupExact_def CAvl_Lookup_def)
      ultimately show ?case using fl by simp
    qed
  qed
  then show "\<exists>e. CAvl_LookupExact f o1 = Some e \<and> (case e of None \<Rightarrow> \<forall>x \<in> set xs. f x \<noteq> 0 | Some x \<Rightarrow> x \<in> set xs \<and> f x = 0)"
    "\<exists>e. CAvl_Lookup f o1 = Some e \<and> (case e of None \<Rightarrow> xs = [] | Some x \<Rightarrow> x \<in> set xs \<and>
      (f x = 0 \<or> (\<forall>y \<in> set xs. f y \<noteq> 0) \<and> (f x = 1 \<and> x = last (filter (\<lambda>y. f y = 1) xs) \<or> f x = -1 \<and> x = hd (filter (\<lambda>y. f y = -1) xs))))"
    by blast+
qed


section \<open>A sorted set of entries\<close>

text \<open>What the tree relies on in the comparison of entries: the sign of a total order.\<close>

locale entry_order =
  fixes cmp :: "'l \<Rightarrow> 'l \<Rightarrow> int"
  assumes cmp_range: "cmp x y \<in> {-1, 0, 1}"
    and cmp_swap: "cmp y x = - cmp x y"
    and cmp_le_trans: "cmp x y \<le> 0 \<Longrightarrow> cmp y z \<le> 0 \<Longrightarrow> cmp x z \<le> 0"
begin

abbreviation ordered :: "'l list \<Rightarrow> bool" where
  "ordered xs \<equiv> sorted_wrt (\<lambda>x y. cmp x y = -1) xs"

lemma cmp_same: "cmp x x = 0"
  using cmp_swap [of x x] by simp

lemma cmp_mono:
  assumes "cmp x y = -1"
  shows "cmp k y \<le> cmp k x"
proof -
  have "cmp k x = 1 \<or> cmp k x = 0 \<and> cmp k y \<le> 0 \<or> cmp k x = -1 \<and> cmp k y = -1"
  proof -
    consider "cmp k x = 1" | "cmp k x = 0" | "cmp k x = -1" using cmp_range [of k x] by auto
    then show ?thesis
    proof cases
      case 2
      then show ?thesis using cmp_le_trans [of k x y] assms by simp
    next
      case 3
      have "cmp k y \<le> 0" using cmp_le_trans [of k x y] 3 assms by simp
      moreover have "cmp k y \<noteq> 0"
      proof
        assume "cmp k y = 0"
        then have "cmp y x \<le> 0" using cmp_le_trans [of y k x] cmp_swap [of k y] 3 by simp
        then show False using cmp_swap [of x y] assms by simp
      qed
      ultimately show ?thesis using 3 cmp_range [of k y] by auto
    qed simp
  qed
  then show ?thesis using cmp_range [of k y] by auto
qed

lemma ordered_descending: "ordered xs \<Longrightarrow> descending (cmp k) xs"
  using sorted_wrt_mono_rel [of xs "\<lambda>x y. cmp x y = -1" "\<lambda>x y. cmp k y \<le> cmp k x"] cmp_mono cmp_range
  by (simp add: descending_def)

lemma ordered_sorted_insert:
  assumes "ordered xs" and "\<forall>e \<in> set xs. cmp x e \<noteq> 0"
  shows "ordered (sorted_insert (cmp x) x xs)"
proof -
  define ts where "ts = takeWhile (\<lambda>y. cmp x y = 1) xs"
  define ds where "ds = dropWhile (\<lambda>y. cmp x y = 1) xs"
  have xs: "xs = ts @ ds" by (simp add: ts_def ds_def)
  have o: "ordered ts" "ordered ds" "\<forall>y \<in> set ts. \<forall>z \<in> set ds. cmp y z = -1" using assms(1) unfolding xs sorted_wrt_append by blast+
  have t: "\<forall>y \<in> set ts. cmp y x = -1"
  proof
    fix y assume "y \<in> set ts"
    then have "cmp x y = 1" unfolding ts_def by (rule set_takeWhileD [THEN conjunct2])
    then show "cmp y x = -1" using cmp_swap [of y x] by linarith
  qed
  have d: "\<forall>y \<in> set ds. cmp x y = -1"
  proof
    fix y assume y: "y \<in> set ds"
    then have ne: "cmp x y \<noteq> 0" using assms(2) xs by simp
    obtain h hs where h: "ds = h # hs" using y by (cases ds) auto
    have "cmp x h \<noteq> 1" using hd_dropWhile [of "\<lambda>y. cmp x y = 1" xs] h unfolding ds_def by simp
    then have le: "cmp x h \<le> 0" using cmp_range [of x h] by auto
    have "y = h \<or> cmp h y = -1" using o(2) y unfolding h by auto
    then have "cmp x y \<le> cmp x h" using cmp_mono [of h y x] by blast
    with le have "cmp x y \<le> 0" by linarith
    then show "cmp x y = -1" using ne cmp_range [of x y] by auto
  qed
  show ?thesis using o t d unfolding sorted_insert_def ts_def [symmetric] ds_def [symmetric] sorted_wrt_append by simp
qed

lemma ordered_remove1: "ordered xs \<Longrightarrow> ordered (remove1 x xs)"
  by (induction xs) (auto dest: set_remove1_subset [THEN subsetD])

lemma ordered_eq: "ordered xs \<Longrightarrow> x \<in> set xs \<Longrightarrow> y \<in> set xs \<Longrightarrow> cmp x y = 0 \<Longrightarrow> x = y"
proof (induction xs)
  case (Cons a xs)
  have "cmp a y \<noteq> 0" if "y \<in> set xs" for y using Cons.prems(1) that by simp
  moreover have "cmp y a \<noteq> 0" if "y \<in> set xs" for y using Cons.prems(1) that cmp_swap [of y a] by simp
  ultimately show ?case using Cons by auto
qed simp

end

text \<open>Sequences of insertions and removals, on the tree and on a sorted list.\<close>

datatype 'l avl_op = Op_Insert 'l | Op_Remove 'l

fun avl_run :: "('l \<Rightarrow> 'l \<Rightarrow> int) \<Rightarrow> 'l avl_op list \<Rightarrow> 'l CAvl \<Rightarrow> 'l CAvl option" where
  "avl_run cmp [] t = Some t"
| "avl_run cmp (Op_Insert x # ops) t = Option.bind (CAvl_Insert cmp t x) (\<lambda>(t, _, _). avl_run cmp ops t)"
| "avl_run cmp (Op_Remove x # ops) t = Option.bind (CAvl_Remove t x) (avl_run cmp ops)"

fun list_op :: "('l \<Rightarrow> 'l \<Rightarrow> int) \<Rightarrow> 'l avl_op \<Rightarrow> 'l list \<Rightarrow> 'l list" where
  "list_op cmp (Op_Insert x) xs = (if list_ex (\<lambda>e. cmp x e = 0) xs then xs else sorted_insert (cmp x) x xs)"
| "list_op cmp (Op_Remove x) xs = remove1 x xs"

fun list_run :: "('l \<Rightarrow> 'l \<Rightarrow> int) \<Rightarrow> 'l avl_op list \<Rightarrow> 'l list \<Rightarrow> 'l list" where
  "list_run cmp [] xs = xs"
| "list_run cmp (op # ops) xs = list_run cmp ops (list_op cmp op xs)"

text \<open>Only entries that are in the tree are removed.\<close>

fun avl_legal :: "('l \<Rightarrow> 'l \<Rightarrow> int) \<Rightarrow> 'l avl_op list \<Rightarrow> 'l list \<Rightarrow> bool" where
  "avl_legal cmp [] xs \<longleftrightarrow> True"
| "avl_legal cmp (op # ops) xs \<longleftrightarrow> (case op of Op_Insert x \<Rightarrow> True | Op_Remove x \<Rightarrow> x \<in> set xs) \<and> avl_legal cmp ops (list_op cmp op xs)"

context entry_order
begin

lemma Insert_refines:
  assumes "avl_tree o1 xs" "ordered xs"
  shows "\<exists>o2 r. CAvl_Insert cmp o1 x = Some (o2, \<not> list_ex (\<lambda>e. cmp x e = 0) xs, r) \<and> avl_tree o2 (list_op cmp (Op_Insert x) xs) \<and>
    ordered (list_op cmp (Op_Insert x) xs)"
  using CAvl_Insert_ok [where cmp = cmp and node = x, OF assms(1) ordered_descending [OF assms(2)]]
proof (elim disjE bexE conjE)
  fix e assume "e \<in> set xs" "cmp x e = 0" "CAvl_Insert cmp o1 x = Some (o1, False, Some e)"
  then show ?thesis using assms by (auto simp: list_ex_iff)
next
  assume a: "\<forall>e \<in> set xs. cmp x e \<noteq> 0" "x \<notin> set xs \<longrightarrow> (\<exists>o2 r. CAvl_Insert cmp o1 x = Some (o2, True, r) \<and>
      avl_tree o2 (sorted_insert (cmp x) x xs) \<and> same_outside (insert x (set xs)) o1 o2 \<and>
      (r = None \<longleftrightarrow> xs = []) \<and> (\<forall>e. r = Some e \<longrightarrow> e \<in> set xs))"
  then have "x \<notin> set xs" using cmp_same by blast
  with a ordered_sorted_insert [OF assms(2) a(1)] show ?thesis by (auto simp: list_ex_iff)
qed

lemma run_refines:
  "avl_tree o1 xs \<Longrightarrow> ordered xs \<Longrightarrow> avl_legal cmp ops xs \<Longrightarrow>
   \<exists>o2. avl_run cmp ops o1 = Some o2 \<and> avl_tree o2 (list_run cmp ops xs) \<and> ordered (list_run cmp ops xs)"
proof (induction ops arbitrary: o1 xs)
  case (Cons op ops)
  show ?case
  proof (cases op)
    case (Op_Insert x)
    from Insert_refines [OF Cons.prems(1,2), of x] obtain o2 b r where
      o2: "CAvl_Insert cmp o1 x = Some (o2, b, r)" "avl_tree o2 (list_op cmp op xs)" "ordered (list_op cmp op xs)" unfolding Op_Insert by blast
    then show ?thesis using Cons.IH [OF o2(2,3)] Cons.prems(3) by (simp add: Op_Insert)
  next
    case (Op_Remove x)
    then have "x \<in> set xs" using Cons.prems(3) by simp
    from CAvl_Remove_ok [OF Cons.prems(1) this] obtain o2 where o2: "CAvl_Remove o1 x = Some o2" "avl_tree o2 (list_op cmp op xs)"
      by (auto simp: Op_Remove)
    have "ordered (list_op cmp op xs)" using ordered_remove1 [OF Cons.prems(2)] by (simp add: Op_Remove)
    from Cons.IH [OF o2(2) this] show ?thesis using o2(1) Cons.prems(3) by (simp add: Op_Remove)
  qed
qed simp

end

lemma avl_tree_Init: "avl_tree (CAvl_Init o1) []"
  unfolding avl_tree_def by (intro exI [of _ "\<langle>\<rangle>"]) (simp add: avl_at_def CAvl_Init_def)

text \<open>C3. The AVL tree is a sorted set.  After every sequence of insertions of entries and removals of
  entries it holds, no operation has dereferenced a null link or failed to end, and the tree stores
  exactly the entries of the list on which the same operations are insertion in order, refused when
  an equal entry is there, and removal: the list is strictly ordered, the first and the last entry and
  the neighbours of every entry are those of the list, and a lookup finds exactly the entry that compares equal.\<close>

theorem cavl_refines_sorted_list:
  assumes "entry_order cmp" and "avl_legal cmp ops []"
  defines "xs \<equiv> list_run cmp ops []"
  shows "\<exists>t. avl_run cmp ops (CAvl_Init t0) = Some t \<and> sorted_wrt (\<lambda>x y. cmp x y = -1) xs \<and>
    CAvl_GetFirst t = Some (if xs = [] then None else Some (hd xs)) \<and>
    CAvl_GetLast t = Some (if xs = [] then None else Some (last xs)) \<and>
    (CAvl_IsEmpty t \<longleftrightarrow> xs = []) \<and>
    (\<forall>ys a zs. xs = ys @ a # zs \<longrightarrow> CAvl_GetNext t a = Some (if zs = [] then None else Some (hd zs)) \<and>
       CAvl_GetPrev t a = Some (if ys = [] then None else Some (last ys))) \<and>
    (\<forall>k. \<exists>e. CAvl_LookupExact (cmp k) t = Some e \<and> (case e of None \<Rightarrow> \<forall>x \<in> set xs. cmp k x \<noteq> 0 | Some x \<Rightarrow> x \<in> set xs \<and> cmp k x = 0))"
proof -
  have "sorted_wrt (\<lambda>x y. cmp x y = -1) []" by simp
  from entry_order.run_refines [OF assms(1) avl_tree_Init this assms(2)] obtain t where
    t: "avl_run cmp ops (CAvl_Init t0) = Some t" "avl_tree t xs" "sorted_wrt (\<lambda>x y. cmp x y = -1) xs" unfolding xs_def by blast
  show ?thesis
  proof (intro exI [of _ t] conjI allI impI)
    fix ys a zs assume "xs = ys @ a # zs"
    with t(2) have "avl_tree t (ys @ a # zs)" by simp
    from CAvl_GetNext_ok [OF this] show "CAvl_GetNext t a = Some (if zs = [] then None else Some (hd zs))"
      "CAvl_GetPrev t a = Some (if ys = [] then None else Some (last ys))" .
  next
    fix k
    show "\<exists>e. CAvl_LookupExact (cmp k) t = Some e \<and> (case e of None \<Rightarrow> \<forall>x \<in> set xs. cmp k x \<noteq> 0 | Some x \<Rightarrow> x \<in> set xs \<and> cmp k x = 0)"
      by (rule CAvl_Lookup_ok(1) [OF t(2) entry_order.ordered_descending [OF assms(1) t(3)]])
  qed (use t CAvl_GetFirst_ok [OF t(2)] in simp_all)
qed

section \<open>Depth\<close>

fun walk :: "'l CAvl \<Rightarrow> 'l \<Rightarrow> bool list \<Rightarrow> 'l option" where
  "walk t n [] = Some n"
| "walk t n (s # ss) = Option.bind (CAvl_link t n s) (\<lambda>m. walk t m ss)"

lemma walk_depth: "shape o1 p t \<Longrightarrow> root_of t = Some n \<Longrightarrow> walk o1 n ss = Some m \<Longrightarrow> length ss < height t"
proof (induction ss arbitrary: t p n)
  case Nil
  then show ?case by (cases t) auto
next
  case (Cons s ss)
  then obtain l r where t: "t = \<langle>l, n, r\<rangle>" by (cases t) auto
  have "\<exists>k. root_of (if s then r else l) = Some k \<and> walk o1 k ss = Some m"
    using Cons.prems t by (cases s) (auto simp: bind_eq_Some_conv)
  then obtain k where k: "root_of (if s then r else l) = Some k" "walk o1 k ss = Some m" by blast
  have "shape o1 (Some n) (if s then r else l)" using Cons.prems(1) t by simp
  from Cons.IH [OF this k] show ?case using t by (auto split: if_splits)
qed

text \<open>The two subtrees of a node with heights \<open>h\<close> and \<open>h - 1\<close>, by the squares of their sizes.\<close>

lemma square_sum:
  fixes x y :: nat
  assumes "2 ^ Suc k \<le> x\<^sup>2" and "2 ^ k \<le> y\<^sup>2"
  shows "2 ^ Suc (Suc k) \<le> (x + y)\<^sup>2"
proof -
  have "(2 ^ k)\<^sup>2 \<le> (2::nat) ^ Suc k * 2 ^ k" by (simp add: power2_eq_square)
  also have "\<dots> \<le> (x * y)\<^sup>2" using mult_le_mono [OF assms] by (simp add: power_mult_distrib)
  finally have "2 ^ k \<le> x * y" by (rule power2_le_imp_le) simp
  then show ?thesis using assms by (simp add: power2_sum)
qed

lemma avl_size: "bal_ok o1 t \<Longrightarrow> 2 ^ height t \<le> (size t + 1)\<^sup>2"
proof (induction t)
  case (Node l a r)
  define lo hi where "lo = (if height l \<le> height r then l else r)" and "hi = (if height l \<le> height r then r else l)"
  have IH: "2 ^ height lo \<le> (size lo + 1)\<^sup>2" "2 ^ height hi \<le> (size hi + 1)\<^sup>2"
    using Node by (simp_all add: lo_def hi_def)
  have h: "height \<langle>l, a, r\<rangle> = Suc (height hi)" "size \<langle>l, a, r\<rangle> + 1 = (size hi + 1) + (size lo + 1)"
    by (auto simp: lo_def hi_def)
  show ?case
  proof (cases "height hi = Suc (height lo)")
    case True
    then show ?thesis using square_sum [of "height lo" "size hi + 1" "size lo + 1"] IH unfolding h by simp
  next
    case False
    then have eq: "height hi = height lo" using Node.prems by (auto simp: lo_def hi_def split: if_splits)
    show ?thesis
    proof (cases "height lo")
      case 0
      then show ?thesis unfolding h eq by (simp add: power2_eq_square)
    next
      case (Suc k)
      then have "(2::nat) ^ k \<le> 2 ^ height lo" by simp
      then have "2 ^ k \<le> (size lo + 1)\<^sup>2" using IH(1) by linarith
      with square_sum [of k "size hi + 1" "size lo + 1"] IH(2) show ?thesis unfolding h eq Suc by simp
    qed
  qed
qed simp

lemma avl_tree_depth:
  assumes "avl_tree o1 xs" and "av_root o1 = Some n" and "walk o1 n ss = Some m"
  shows "2 ^ Suc (length ss) \<le> (length xs + 1)\<^sup>2"
proof -
  from assms(1) obtain t where t: "shape o1 None t" "inorder t = xs" "av_root o1 = root_of t" "bal_ok o1 t" by (auto simp: avl_tree_def avl_at_def)
  have "Suc (length ss) \<le> height t" using walk_depth [OF t(1) _ assms(3)] t(3) assms(2) by simp
  then have "(2::nat) ^ Suc (length ss) \<le> 2 ^ height t" by (intro power_increasing) auto
  also have "\<dots> \<le> (length xs + 1)\<^sup>2" using avl_size [OF t(4)] t(2) length_inorder [of t] by simp
  finally show ?thesis .
qed

text \<open>Every entry is at the end of a path from the root.\<close>

lemma shape_walk:
  "shape o1 p t \<Longrightarrow> a \<in> set_tree t \<Longrightarrow> \<exists>r ss. root_of t = Some r \<and> walk o1 r ss = Some a"
proof (induction t arbitrary: p)
  case (Node l b r)
  have link: "CAvl_link o1 b False = root_of l" "CAvl_link o1 b True = root_of r"
    and sub: "shape o1 (Some b) l" "shape o1 (Some b) r" using Node.prems(1) by auto
  consider "a = b" | "a \<in> set_tree l" | "a \<in> set_tree r" using Node.prems(2) by auto
  then have "\<exists>ss. walk o1 b ss = Some a"
  proof cases
    case 1
    then show ?thesis by (intro exI [of _ "[]"]) simp
  next
    case 2
    with Node.IH(1) [OF sub(1)] link obtain k ss where "CAvl_link o1 b False = Some k" "walk o1 k ss = Some a" by auto
    then show ?thesis by (intro exI [of _ "False # ss"]) simp
  next
    case 3
    with Node.IH(2) [OF sub(2)] link obtain k ss where "CAvl_link o1 b True = Some k" "walk o1 k ss = Some a" by auto
    then show ?thesis by (intro exI [of _ "True # ss"]) simp
  qed
  then show ?case by simp
qed simp

lemma avl_tree_walk:
  assumes "avl_tree o1 xs" and "a \<in> set xs"
  shows "\<exists>r ss. av_root o1 = Some r \<and> walk o1 r ss = Some a"
proof -
  from assms(1) obtain t where t: "shape o1 None t" "inorder t = xs" "av_root o1 = root_of t" by (auto simp: avl_tree_def avl_at_def)
  with assms(2) have "a \<in> set_tree t" by (metis set_inorder)
  with shape_walk [OF t(1)] t(3) show ?thesis by simp
qed

text \<open>C20. The tree has logarithmic depth.  After any sequence of insertions and removals of entries it
  holds, every path of links from the root has a number \<open>d\<close> of nodes with \<open>2 ^ d\<close> at most \<open>(n + 1)\<^sup>2\<close>, that is,
  at most \<open>2 log2 (n + 1)\<close> nodes, where \<open>n\<close> is the number of entries; and every entry is at the end of
  such a path.\<close>

theorem cavl_depth_logarithmic:
  assumes "entry_order cmp" and "avl_legal cmp ops []"
  defines "xs \<equiv> list_run cmp ops []"
  shows "\<exists>t. avl_run cmp ops (CAvl_Init t0) = Some t \<and>
    (\<forall>r ss m. av_root t = Some r \<longrightarrow> walk t r ss = Some m \<longrightarrow> 2 ^ Suc (length ss) \<le> (length xs + 1)\<^sup>2) \<and>
    (\<forall>a \<in> set xs. \<exists>r ss. av_root t = Some r \<and> walk t r ss = Some a)"
proof -
  have "sorted_wrt (\<lambda>x y. cmp x y = -1) []" by simp
  from entry_order.run_refines [OF assms(1) avl_tree_Init this assms(2)] obtain t where
    t: "avl_run cmp ops (CAvl_Init t0) = Some t" "avl_tree t xs" unfolding xs_def by blast
  then show ?thesis using avl_tree_depth [OF t(2)] avl_tree_walk [OF t(2)] by blast
qed

definition nat_cmp :: "nat \<Rightarrow> nat \<Rightarrow> int" where
  "nat_cmp x y = (if x < y then -1 else if x = y then 0 else 1)"

lemma nat_cmp_order: "entry_order nat_cmp"
  by unfold_locales (auto simp: nat_cmp_def split: if_splits)

definition example_avl :: "nat CAvl" where
  "example_avl = \<lparr>av_root = Some 0, av_node = \<lambda>_. \<lparr>av_link = \<lambda>_. None, av_parent = None, av_balance = 7\<rparr>\<rparr>"

definition example_ops :: "nat avl_op list" where
  "example_ops = [Op_Insert 3, Op_Insert 1, Op_Insert 2, Op_Insert 5, Op_Insert 4, Op_Insert 3, Op_Remove 2]"

lemma example_ops_run: "avl_legal nat_cmp example_ops []" "list_run nat_cmp example_ops [] = [1, 3, 4, 5]"
  by (simp_all add: example_ops_def nat_cmp_def sorted_insert_def)

theorem cavl_refines_sorted_list_witness:
  "\<exists>t. avl_run nat_cmp example_ops (CAvl_Init example_avl) = Some t \<and> CAvl_GetFirst t = Some (Some 1) \<and> CAvl_GetNext t 3 = Some (Some 4)"
proof -
  from cavl_refines_sorted_list [OF nat_cmp_order example_ops_run(1), of example_avl, unfolded example_ops_run(2)] obtain t where
    t: "avl_run nat_cmp example_ops (CAvl_Init example_avl) = Some t" "CAvl_GetFirst t = Some (Some 1)"
      "\<forall>ys a zs. [1, 3, 4, 5] = ys @ a # zs \<longrightarrow> CAvl_GetNext t a = Some (if zs = [] then None else Some (hd zs))"
    by auto
  have "CAvl_GetNext t 3 = Some (Some 4)" using t(3) [rule_format, of "[1]" 3 "[4, 5]"] by simp
  with t show ?thesis by blast
qed

theorem cavl_depth_logarithmic_witness:
  "\<exists>t r ss. avl_run nat_cmp example_ops (CAvl_Init example_avl) = Some t \<and> av_root t = Some r \<and> walk t r ss = Some 4 \<and>
     2 ^ Suc (length ss) \<le> (5 :: nat)\<^sup>2"
proof -
  from cavl_depth_logarithmic [OF nat_cmp_order example_ops_run(1), of example_avl, unfolded example_ops_run(2)] obtain t where
    t: "avl_run nat_cmp example_ops (CAvl_Init example_avl) = Some t"
      "\<And>r ss m. av_root t = Some r \<Longrightarrow> walk t r ss = Some m \<Longrightarrow> 2 ^ Suc (length ss) \<le> (length [1, 3, 4, 5 :: nat] + 1)\<^sup>2"
      "\<exists>r ss. av_root t = Some r \<and> walk t r ss = Some 4"
    by auto
  obtain r ss where w: "av_root t = Some r" "walk t r ss = Some 4" using t(3) by blast
  from t(2) [OF w] have "2 ^ Suc (length ss) \<le> (5 :: nat)\<^sup>2" by (simp add: power2_eq_square)
  with t(1) w show ?thesis by blast
qed

section \<open>The wrapper with pointers\<close>

text \<open>\<open>structure/SAvl_impl.h\<close>: the same tree, whose links are pointers to the entries.\<close>

type_synonym 'l SAvl = "'l CAvl"

definition SAvl_Init :: "'l SAvl \<Rightarrow> 'l SAvl" where
  "SAvl_Init t = CAvl_Init t"

definition SAvl_Insert :: "('l \<Rightarrow> 'l \<Rightarrow> int) \<Rightarrow> 'l SAvl \<Rightarrow> 'l \<Rightarrow> ('l SAvl \<times> bool \<times> 'l option) option" where
  "SAvl_Insert cmp t entry = CAvl_Insert cmp t entry"

definition SAvl_Remove :: "'l SAvl \<Rightarrow> 'l \<Rightarrow> 'l SAvl option" where
  "SAvl_Remove t entry = CAvl_Remove t entry"

definition SAvl_GetFirst :: "'l SAvl \<Rightarrow> 'l option option" where
  "SAvl_GetFirst t = CAvl_GetFirst t"

definition SAvl_GetLast :: "'l SAvl \<Rightarrow> 'l option option" where
  "SAvl_GetLast t = CAvl_GetLast t"

definition SAvl_GetNext :: "'l SAvl \<Rightarrow> 'l \<Rightarrow> 'l option option" where
  "SAvl_GetNext t entry = CAvl_GetNext t entry"

definition SAvl_GetPrev :: "'l SAvl \<Rightarrow> 'l \<Rightarrow> 'l option option" where
  "SAvl_GetPrev t entry = CAvl_GetPrev t entry"

definition SAvl_IsEmpty :: "'l SAvl \<Rightarrow> bool" where
  "SAvl_IsEmpty t = CAvl_IsEmpty t"

definition SAvl_Lookup :: "('l \<Rightarrow> int) \<Rightarrow> 'l SAvl \<Rightarrow> 'l option option" where
  "SAvl_Lookup cmp t = CAvl_Lookup cmp t"

definition SAvl_LookupExact :: "('l \<Rightarrow> int) \<Rightarrow> 'l SAvl \<Rightarrow> 'l option option" where
  "SAvl_LookupExact cmp t = CAvl_LookupExact cmp t"

lemmas SAvl_defs = SAvl_Init_def SAvl_Insert_def SAvl_Remove_def SAvl_GetFirst_def SAvl_GetLast_def SAvl_GetNext_def SAvl_GetPrev_def
  SAvl_IsEmpty_def SAvl_Lookup_def SAvl_LookupExact_def

end
