(* ===== verification/FairQueue.thy ===== *)
theory FairQueue
  imports CAvlOps FlowInterfaces Addr
begin

text \<open>
  The fair queue of \<open>flow/PacketPassFairQueue.c\<close>, which sends the packets of many flows over one
  packet interface.  Flows are named by their addresses; the record of the queue holds the
  memory of its flows, the AVL tree of the flows with a waiting packet and the list of all flows.
  Handlers return \<open>None\<close> where the code would dereference a null pointer.  The lemmas show that this
  does not happen and that the assertions hold in every run, that a waiting packet is never
  forgotten, that times are exact although they are 64 bit numbers, and how far one flow can get
  ahead of another one.
\<close>

section \<open>Model\<close>

record ('j, 'd) PacketPassFairQueueFlow =
  fl_handler_busy :: bool
  fl_input :: "('j, 'd) ppi"
  fl_time :: u64
  fl_is_queued :: bool
  fl_data :: 'd
  fl_data_len :: int

record ('f, 'j, 'd) PacketPassFairQueue =
  fq_output :: "('j, 'd) ppi"
  fq_use_cancel :: bool
  fq_packet_weight :: int
  fq_sending_flow :: "'f option"
  fq_sending_len :: int
  fq_previous_flow :: "'f option"
  fq_queued_tree :: "'f SAvl"
  fq_flows_list :: "'f list"
  fq_freeing :: bool
  fq_schedule_job :: 'j
  fq_flow :: "'f \<Rightarrow> ('j, 'd) PacketPassFairQueueFlow"

abbreviation (input) FAIRQUEUE_MAX_TIME :: u64 where "FAIRQUEUE_MAX_TIME \<equiv> - 1"

abbreviation fq_time :: "('f, 'j, 'd) PacketPassFairQueue \<Rightarrow> 'f \<Rightarrow> u64" where "fq_time m f \<equiv> fl_time (fq_flow m f)"
abbreviation fq_is_queued :: "('f, 'j, 'd) PacketPassFairQueue \<Rightarrow> 'f \<Rightarrow> bool" where "fq_is_queued m f \<equiv> fl_is_queued (fq_flow m f)"
abbreviation fq_input :: "('f, 'j, 'd) PacketPassFairQueue \<Rightarrow> 'f \<Rightarrow> ('j, 'd) ppi" where "fq_input m f \<equiv> fl_input (fq_flow m f)"

definition set_flow :: "'f \<Rightarrow> ('j, 'd) PacketPassFairQueueFlow \<Rightarrow> ('f, 'j, 'd) PacketPassFairQueue \<Rightarrow> ('f, 'j, 'd) PacketPassFairQueue" where
  "set_flow f x m = m\<lparr>fq_flow := (fq_flow m)(f := x)\<rparr>"

definition compare_flows :: "('f::linorder, 'j, 'd) PacketPassFairQueue \<Rightarrow> 'f \<Rightarrow> 'f \<Rightarrow> int" where
  "compare_flows m f1 f2 =
     (let cmp = B_COMPARE (fq_time m f1) (fq_time m f2) in
      if cmp \<noteq> 0 then cmp else B_COMPARE f1 f2)"

definition get_current_time :: "('f, 'j, 'd) PacketPassFairQueue \<Rightarrow> u64 option" where
  "get_current_time m =
     (case fq_sending_flow m of
        Some f \<Rightarrow> Some (fq_time m f)
      | None \<Rightarrow>
          do {
            first_flow \<leftarrow> SAvl_GetFirst (fq_queued_tree m);
            let (time, have) = (case first_flow of Some f \<Rightarrow> (fq_time m f, True) | None \<Rightarrow> (0, False));
            let (time, have) =
              (case fq_previous_flow m of
                 Some p \<Rightarrow> if \<not> have \<or> fq_time m p < time then (fq_time m p, True) else (time, have)
               | None \<Rightarrow> (time, have));
            Some (if have then time else 0)
          })"

text \<open>The loop of \<open>increment_sent_flow\<close> over all flows.\<close>

fun subtract_time :: "'f \<Rightarrow> u64 \<Rightarrow> 'f list \<Rightarrow> ('f, 'j, 'd) PacketPassFairQueue \<Rightarrow> ('f, 'j, 'd) PacketPassFairQueue" where
  "subtract_time flow subtract [] m = m"
| "subtract_time flow subtract (f # fs) m =
     subtract_time flow subtract fs
       (if subtract > fq_time m f \<and> f \<noteq> flow then set_flow f ((fq_flow m f)\<lparr>fl_time := 0\<rparr>) m
        else set_flow f ((fq_flow m f)\<lparr>fl_time := fq_time m f - subtract\<rparr>) m)"

definition increment_sent_flow :: "'f \<Rightarrow> u64 \<Rightarrow> ('f, 'j, 'd) PacketPassFairQueue \<Rightarrow> ('f, 'j, 'd) PacketPassFairQueue option" where
  "increment_sent_flow flow amount m = do {
     m \<leftarrow> (if amount > FAIRQUEUE_MAX_TIME - fq_time m flow then
             do {
               first_flow \<leftarrow> SAvl_GetFirst (fq_queued_tree m);
               let subtract = (case first_flow of None \<Rightarrow> fq_time m flow | Some f \<Rightarrow> fq_time m f);
               Some (subtract_time flow subtract (fq_flows_list m) m)
             }
           else Some m);
     Some (set_flow flow ((fq_flow m flow)\<lparr>fl_time := fq_time m flow + amount\<rparr>) m)
   }"

definition schedule ::
  "('f, 'j, 'd) PacketPassFairQueue \<Rightarrow> 'j jobs \<Rightarrow> (('f, 'j, 'd) PacketPassFairQueue \<times> 'j jobs) option" where
  "schedule m js = do {
     first \<leftarrow> SAvl_GetFirst (fq_queued_tree m);
     qflow \<leftarrow> first;
     tree \<leftarrow> SAvl_Remove (fq_queued_tree m) qflow;
     let m = m\<lparr>fq_queued_tree := tree\<rparr>;
     let m = set_flow qflow ((fq_flow m qflow)\<lparr>fl_is_queued := False\<rparr>) m;
     let (output, js) = PacketPassInterface_Sender_Send (fl_data (fq_flow m qflow)) (fl_data_len (fq_flow m qflow)) (fq_output m) js;
     Some (m\<lparr>fq_output := output, fq_sending_flow := Some qflow, fq_sending_len := fl_data_len (fq_flow m qflow)\<rparr>, js)
   }"

definition schedule_job_handler ::
  "('f, 'j, 'd) PacketPassFairQueue \<Rightarrow> 'j jobs \<Rightarrow> (('f, 'j, 'd) PacketPassFairQueue \<times> 'j jobs) option" where
  "schedule_job_handler m js =
     (let m = m\<lparr>fq_previous_flow := None\<rparr> in
      if \<not> SAvl_IsEmpty (fq_queued_tree m) then schedule m js else Some (m, js))"

definition fq_input_handler_send ::
  "'f::linorder \<Rightarrow> 'd \<Rightarrow> int \<Rightarrow> ('f, 'j, 'd) PacketPassFairQueue \<Rightarrow> 'j jobs \<Rightarrow> (('f, 'j, 'd) PacketPassFairQueue \<times> 'j jobs) option" where
  "fq_input_handler_send flow data data_len m js = do {
     m \<leftarrow> (if fq_previous_flow m = Some flow then Some (m\<lparr>fq_previous_flow := None\<rparr>)
           else do {
             time \<leftarrow> get_current_time m;
             Some (set_flow flow ((fq_flow m flow)\<lparr>fl_time := max (fq_time m flow) time\<rparr>) m)
           });
     let m = set_flow flow ((fq_flow m flow)\<lparr>fl_data := data, fl_data_len := data_len\<rparr>) m;
     (tree, res, existing) \<leftarrow> SAvl_Insert (compare_flows m) (fq_queued_tree m) flow;
     let m = m\<lparr>fq_queued_tree := tree\<rparr>;
     let m = set_flow flow ((fq_flow m flow)\<lparr>fl_is_queued := True\<rparr>) m;
     if fq_sending_flow m = None \<and> \<not> BPending_IsSet (fq_schedule_job m) js then schedule m js else Some (m, js)
   }"

text \<open>\<open>output_handler_done\<close>, with the flow whose busy handler is called.\<close>

definition fq_output_handler_done ::
  "('f, 'j, 'd) PacketPassFairQueue \<Rightarrow> 'j jobs \<Rightarrow> (('f, 'j, 'd) PacketPassFairQueue \<times> 'j jobs \<times> 'f option) option" where
  "fq_output_handler_done m js = do {
     flow \<leftarrow> fq_sending_flow m;
     let m = m\<lparr>fq_sending_flow := None, fq_previous_flow := Some flow\<rparr>;
     m \<leftarrow> increment_sent_flow flow (of_int (fq_packet_weight m) + of_int (fq_sending_len m)) m;
     let js = BPending_Set (fq_schedule_job m) js;
     let (input, js) = PacketPassInterface_Done (fq_input m flow) js;
     let m = set_flow flow ((fq_flow m flow)\<lparr>fl_input := input\<rparr>) m;
     Some (if fl_handler_busy (fq_flow m flow)
           then (set_flow flow ((fq_flow m flow)\<lparr>fl_handler_busy := False\<rparr>) m, js, Some flow)
           else (m, js, None))
   }"

definition PacketPassFairQueue_Init ::
  "('j, 'd) ppi \<Rightarrow> bool \<Rightarrow> int \<Rightarrow> ('f, 'j, 'd) PacketPassFairQueue \<Rightarrow> 'j jobs \<Rightarrow> (('f, 'j, 'd) PacketPassFairQueue \<times> 'j jobs) option" where
  "PacketPassFairQueue_Init output use_cancel packet_weight m js =
     (let m = m\<lparr>fq_output := output, fq_use_cancel := use_cancel, fq_packet_weight := packet_weight\<rparr> in
      if \<not> (of_int (PacketPassInterface_GetMTU output) \<le> FAIRQUEUE_MAX_TIME \<and>
            of_int packet_weight \<le> FAIRQUEUE_MAX_TIME - of_int (PacketPassInterface_GetMTU output)) then None
      else
        let m = m\<lparr>fq_output := PacketPassInterface_Sender_Init output, fq_sending_flow := None, fq_previous_flow := None,
                  fq_queued_tree := SAvl_Init (fq_queued_tree m), fq_flows_list := [], fq_freeing := False\<rparr>;
            js = BPending_Init (fq_schedule_job m) js
        in Some (m, js))"

definition PacketPassFairQueue_Free :: "('f, 'j, 'd) PacketPassFairQueue \<Rightarrow> 'j jobs \<Rightarrow> 'j jobs" where
  "PacketPassFairQueue_Free m js = BPending_Free (fq_schedule_job m) js"

definition PacketPassFairQueue_PrepareFree :: "('f, 'j, 'd) PacketPassFairQueue \<Rightarrow> ('f, 'j, 'd) PacketPassFairQueue" where
  "PacketPassFairQueue_PrepareFree m = m\<lparr>fq_freeing := True\<rparr>"

definition PacketPassFairQueue_GetMTU :: "('f, 'j, 'd) PacketPassFairQueue \<Rightarrow> int" where
  "PacketPassFairQueue_GetMTU m = PacketPassInterface_GetMTU (fq_output m)"

definition PacketPassFairQueueFlow_Init ::
  "'f \<Rightarrow> ('f, 'j, 'd) PacketPassFairQueue \<Rightarrow> 'j jobs \<Rightarrow> ('f, 'j, 'd) PacketPassFairQueue \<times> 'j jobs" where
  "PacketPassFairQueueFlow_Init flow m js =
     (let (input, js) = PacketPassInterface_Init (PacketPassInterface_GetMTU (fq_output m)) (fq_input m flow) js;
          m = set_flow flow ((fq_flow m flow)\<lparr>fl_handler_busy := False, fl_input := input, fl_time := 0, fl_is_queued := False\<rparr>) m
      in (m\<lparr>fq_flows_list := fq_flows_list m @ [flow]\<rparr>, js))"

definition PacketPassFairQueueFlow_Free ::
  "'f \<Rightarrow> ('f, 'j, 'd) PacketPassFairQueue \<Rightarrow> 'j jobs \<Rightarrow> (('f, 'j, 'd) PacketPassFairQueue \<times> 'j jobs) option" where
  "PacketPassFairQueueFlow_Free flow m js = do {
     let m = (if fq_sending_flow m = Some flow then m\<lparr>fq_sending_flow := None\<rparr> else m);
     let m = (if fq_previous_flow m = Some flow then m\<lparr>fq_previous_flow := None\<rparr> else m);
     tree \<leftarrow> (if fq_is_queued m flow then SAvl_Remove (fq_queued_tree m) flow else Some (fq_queued_tree m));
     let m = m\<lparr>fq_queued_tree := tree, fq_flows_list := remove1 flow (fq_flows_list m)\<rparr>;
     Some (m, PacketPassInterface_Free (fq_input m flow) js)
   }"

definition PacketPassFairQueueFlow_IsBusy :: "'f \<Rightarrow> ('f, 'j, 'd) PacketPassFairQueue \<Rightarrow> bool" where
  "PacketPassFairQueueFlow_IsBusy flow m \<longleftrightarrow> fq_sending_flow m = Some flow"

definition PacketPassFairQueueFlow_RequestCancel ::
  "'f \<Rightarrow> ('f, 'j, 'd) PacketPassFairQueue \<Rightarrow> 'j jobs \<Rightarrow> ('f, 'j, 'd) PacketPassFairQueue \<times> 'j jobs" where
  "PacketPassFairQueueFlow_RequestCancel flow m js =
     (let (output, js) = PacketPassInterface_Sender_RequestCancel (fq_output m) js in (m\<lparr>fq_output := output\<rparr>, js))"

definition PacketPassFairQueueFlow_SetBusyHandler :: "'f \<Rightarrow> bool \<Rightarrow> ('f, 'j, 'd) PacketPassFairQueue \<Rightarrow> ('f, 'j, 'd) PacketPassFairQueue" where
  "PacketPassFairQueueFlow_SetBusyHandler flow busy m = set_flow flow ((fq_flow m flow)\<lparr>fl_handler_busy := busy\<rparr>) m"


section \<open>The order of the flows\<close>

lemma B_COMPARE_order:
  "B_COMPARE x y \<in> {-1, 0, 1}" "B_COMPARE y x = - B_COMPARE x y" "B_COMPARE x y \<le> 0 \<longleftrightarrow> x \<le> y" "B_COMPARE x y = 0 \<longleftrightarrow> x = y"
  "B_COMPARE x y = -1 \<longleftrightarrow> x < y" for x y :: "'a::linorder"
  by (auto simp: B_COMPARE_def)

lemma compare_flows_less:
  "compare_flows m f1 f2 = -1 \<longleftrightarrow> fq_time m f1 < fq_time m f2 \<or> fq_time m f1 = fq_time m f2 \<and> f1 < f2"
  "compare_flows m f1 f2 \<le> 0 \<longleftrightarrow> fq_time m f1 < fq_time m f2 \<or> fq_time m f1 = fq_time m f2 \<and> f1 \<le> f2"
  by (auto simp: compare_flows_def B_COMPARE_def)

interpretation flows: entry_order "compare_flows m" for m :: "('f::linorder, 'j, 'd) PacketPassFairQueue"
proof unfold_locales
  fix f1 f2 f3 :: 'f
  show "compare_flows m f1 f2 \<in> {-1, 0, 1}" "compare_flows m f2 f1 = - compare_flows m f1 f2"
    by (auto simp: compare_flows_def B_COMPARE_def)
  show "compare_flows m f1 f2 \<le> 0 \<Longrightarrow> compare_flows m f2 f3 \<le> 0 \<Longrightarrow> compare_flows m f1 f3 \<le> 0"
    by (auto simp: compare_flows_less)
qed

section \<open>Runs\<close>

definition ppi_jobs :: "('j, 'd) ppi \<Rightarrow> 'j set" where
  "ppi_jobs i = {ppi_job_operation i, ppi_job_requestcancel i, ppi_job_done i}"

type_synonym ('f, 'j, 'd) fq_world = "('f, 'j, 'd) PacketPassFairQueue \<times> 'j jobs"

abbreviation set_input :: "'f \<Rightarrow> ('j, 'd) ppi \<Rightarrow> ('f, 'j, 'd) PacketPassFairQueue \<Rightarrow> ('f, 'j, 'd) PacketPassFairQueue" where
  "set_input f i m \<equiv> set_flow f ((fq_flow m f)\<lparr>fl_input := i\<rparr>) m"

text \<open>
  The steps of a queue: its users start and cancel packets, add and free flows and ask for a busy
  handler; the provider of the output finishes a packet; the jobs of the queue, of its output and of its
  flows run when they are first in the job queue; and any other job comes and goes.  A step that finishes a
  packet is labelled with its flow and the cost of the packet.  In a run all states satisfy \<open>P\<close>.
\<close>

definition packet_cost :: "('f, 'j, 'd) PacketPassFairQueue \<Rightarrow> int" where
  "packet_cost m = fq_packet_weight m + fq_sending_len m"

definition own_jobs :: "('f, 'j, 'd) PacketPassFairQueue \<Rightarrow> 'j set" where
  "own_jobs m = {fq_schedule_job m} \<union> ppi_jobs (fq_output m) \<union> (\<Union>g \<in> set (fq_flows_list m). ppi_jobs (fq_input m g))"

inductive fq_step :: "('f::linorder, 'j, 'd) fq_world \<Rightarrow> ('f \<times> int) list \<Rightarrow> ('f, 'j, 'd) fq_world \<Rightarrow> bool" where
  fs_send: "f \<in> set (fq_flows_list m) \<Longrightarrow> ppi_state (fq_input m f) = STATE_NONE \<Longrightarrow> 0 \<le> n \<Longrightarrow> n \<le> ppi_mtu (fq_input m f) \<Longrightarrow>
    PacketPassInterface_Sender_Send d n (fq_input m f) js = (i, js') \<Longrightarrow> fq_step (m, js) [] (set_input f i m, js')"
| fs_input_op: "f \<in> set (fq_flows_list m) \<Longrightarrow> PacketPassInterface_job_operation (fq_input m f) = (i, d, n) \<Longrightarrow>
    fq_input_handler_send f d n (set_input f i m) js = Some (m', js') \<Longrightarrow>
    fq_step (m, ppi_job_operation (fq_input m f) # js) [] (m', js')"
| fs_input_done: "f \<in> set (fq_flows_list m) \<Longrightarrow>
    fq_step (m, ppi_job_done (fq_input m f) # js) [] (set_input f (PacketPassInterface_job_done (fq_input m f)) m, js)"
| fs_output_op: "PacketPassInterface_job_operation (fq_output m) = (i, d, n) \<Longrightarrow>
    fq_step (m, ppi_job_operation (fq_output m) # js) [] (m\<lparr>fq_output := i\<rparr>, js)"
| fs_output_ready: "ppi_state (fq_output m) = STATE_BUSY \<Longrightarrow> PacketPassInterface_Done (fq_output m) js = (i, js') \<Longrightarrow>
    fq_step (m, js) [] (m\<lparr>fq_output := i\<rparr>, js')"
| fs_output_cancel: "fq_step (m, ppi_job_requestcancel (fq_output m) # js) []
    (m\<lparr>fq_output := PacketPassInterface_job_requestcancel (fq_output m)\<rparr>, js)"
| fs_output_done: "fq_sending_flow m = Some f \<Longrightarrow>
    fq_output_handler_done (m\<lparr>fq_output := PacketPassInterface_job_done (fq_output m)\<rparr>) js = Some (m', js', busy) \<Longrightarrow>
    fq_step (m, ppi_job_done (fq_output m) # js) [(f, packet_cost m)] (m', js')"
| fs_schedule: "schedule_job_handler m js = Some (m', js') \<Longrightarrow> fq_step (m, fq_schedule_job m # js) [] (m', js')"
| fs_cancel: "fq_sending_flow m = Some f \<Longrightarrow> fq_use_cancel m \<Longrightarrow> fq_step (m, js) [] (PacketPassFairQueueFlow_RequestCancel f m js)"
| fs_busy: "fq_sending_flow m = Some f \<Longrightarrow> fq_step (m, js) [] (PacketPassFairQueueFlow_SetBusyHandler f h m, js)"
| fs_flow_init: "f \<notin> set (fq_flows_list m) \<Longrightarrow> ppi_jobs_distinct (fq_input m f) \<Longrightarrow>
    ppi_jobs (fq_input m f) \<inter> (set js \<union> own_jobs m) = {} \<Longrightarrow>
    PacketPassFairQueueFlow_Init f m js = (m', js') \<Longrightarrow> fq_step (m, js) [] (m', js')"
| fs_flow_free: "f \<in> set (fq_flows_list m) \<Longrightarrow> fq_sending_flow m \<noteq> Some f \<Longrightarrow> PacketPassFairQueueFlow_Free f m js = Some (m', js') \<Longrightarrow>
    fq_step (m, js) [] (m', js')"
| fs_other: "distinct js' \<Longrightarrow> set js' \<inter> own_jobs m = set js \<inter> own_jobs m \<Longrightarrow> fq_step (m, js) [] (m, js')"

inductive fq_run :: "('f::linorder, 'j, 'd) PacketPassFairQueue set \<Rightarrow> ('f, 'j, 'd) fq_world \<Rightarrow> ('f \<times> int) list \<Rightarrow> ('f, 'j, 'd) fq_world \<Rightarrow> bool" for P where
  fq_nil: "fst w \<in> P \<Longrightarrow> fq_run P w [] w"
| fq_snoc: "fq_run P w ls w' \<Longrightarrow> fq_step w' l w'' \<Longrightarrow> fst w'' \<in> P \<Longrightarrow> fq_run P w (ls @ l) w''"

text \<open>The service a flow has had.\<close>

definition service :: "'f \<Rightarrow> ('f \<times> int) list \<Rightarrow> int" where
  "service f ls = (\<Sum>(g, c) \<leftarrow> ls. if g = f then c else 0)"

section \<open>Invariant\<close>

text \<open>The interfaces and the jobs.\<close>

definition fq_ifaces :: "('f, 'j, 'd) PacketPassFairQueue \<Rightarrow> 'j jobs \<Rightarrow> bool" where
  "fq_ifaces m js \<longleftrightarrow> distinct js \<and> distinct (fq_flows_list m) \<and> ppi_inv (fq_output m) js \<and> fq_schedule_job m \<notin> ppi_jobs (fq_output m) \<and>
     (\<forall>f \<in> set (fq_flows_list m). ppi_inv (fq_input m f) js \<and> ppi_mtu (fq_input m f) = ppi_mtu (fq_output m) \<and> fq_schedule_job m \<notin> ppi_jobs (fq_input m f) \<and>
        ppi_jobs (fq_input m f) \<inter> ppi_jobs (fq_output m) = {} \<and>
        (\<forall>g \<in> set (fq_flows_list m). g \<noteq> f \<longrightarrow> ppi_jobs (fq_input m f) \<inter> ppi_jobs (fq_input m g) = {})) \<and>
     (fq_use_cancel m \<longrightarrow> ppi_handler_requestcancel (fq_output m)) \<and> \<not> fq_freeing m"

text \<open>The tree holds the queued flows, in the order of their times.\<close>

definition fq_queue :: "('f::linorder, 'j, 'd) PacketPassFairQueue \<Rightarrow> 'f list \<Rightarrow> bool" where
  "fq_queue m xs \<longleftrightarrow> avl_tree (fq_queued_tree m) xs \<and> sorted_wrt (\<lambda>x y. compare_flows m x y = -1) xs \<and>
     set xs = {f \<in> set (fq_flows_list m). fq_is_queued m f}"

text \<open>Which packet is where, and what happens next.\<close>

definition fq_control :: "('f, 'j, 'd) PacketPassFairQueue \<Rightarrow> 'j jobs \<Rightarrow> bool" where
  "fq_control m js \<longleftrightarrow>
     (\<forall>f \<in> set (fq_flows_list m). (ppi_state (fq_input m f) = STATE_BUSY \<longleftrightarrow> fq_is_queued m f \<or> fq_sending_flow m = Some f) \<and>
        (ppi_state (fq_input m f) = STATE_OPERATION_PENDING \<or> fq_is_queued m f \<longrightarrow>
          0 \<le> ppi_job_operation_len (fq_input m f) \<and> ppi_job_operation_len (fq_input m f) \<le> ppi_mtu (fq_output m)) \<and>
        (fq_is_queued m f \<or> fq_sending_flow m = Some f \<longrightarrow> fl_data (fq_flow m f) = ppi_job_operation_data (fq_input m f) \<and>
          fl_data_len (fq_flow m f) = ppi_job_operation_len (fq_input m f))) \<and>
     (case fq_sending_flow m of
        None \<Rightarrow> ppi_state (fq_output m) = STATE_NONE \<and>
          (fq_schedule_job m \<in> set js \<or> fq_previous_flow m = None \<and> (\<forall>f \<in> set (fq_flows_list m). \<not> fq_is_queued m f))
      | Some f \<Rightarrow> f \<in> set (fq_flows_list m) \<and> \<not> fq_is_queued m f \<and> ppi_state (fq_output m) \<noteq> STATE_NONE \<and>
          fq_schedule_job m \<notin> set js \<and> fq_previous_flow m = None \<and> fq_sending_len m = fl_data_len (fq_flow m f) \<and>
          0 \<le> fq_sending_len m \<and> fq_sending_len m \<le> ppi_mtu (fq_output m) \<and>
          ppi_job_operation_data (fq_output m) = fl_data (fq_flow m f) \<and> ppi_job_operation_len (fq_output m) = fl_data_len (fq_flow m f) \<and>
          (\<forall>g \<in> set (fq_flows_list m). fq_is_queued m g \<longrightarrow> fq_time m f \<le> fq_time m g)) \<and>
     (\<forall>p. fq_previous_flow m = Some p \<longrightarrow> p \<in> set (fq_flows_list m) \<and> \<not> fq_is_queued m p)"

text \<open>The cost of a packet fits.\<close>

definition fq_weights :: "('f, 'j, 'd) PacketPassFairQueue \<Rightarrow> bool" where
  "fq_weights m \<longleftrightarrow> 0 < fq_packet_weight m \<and> 0 \<le> ppi_mtu (fq_output m) \<and> fq_packet_weight m + ppi_mtu (fq_output m) < 2 ^ 64"

definition fq_inv :: "('f::linorder, 'j, 'd) PacketPassFairQueue \<Rightarrow> 'j jobs \<Rightarrow> bool" where
  "fq_inv m js \<longleftrightarrow> fq_ifaces m js \<and> (\<exists>xs. fq_queue m xs) \<and> fq_control m js \<and> fq_weights m"

lemma set_flow_simps [simp]:
  "fq_output (set_flow f x m) = fq_output m" "fq_use_cancel (set_flow f x m) = fq_use_cancel m"
  "fq_packet_weight (set_flow f x m) = fq_packet_weight m" "fq_sending_flow (set_flow f x m) = fq_sending_flow m"
  "fq_sending_len (set_flow f x m) = fq_sending_len m" "fq_previous_flow (set_flow f x m) = fq_previous_flow m"
  "fq_queued_tree (set_flow f x m) = fq_queued_tree m" "fq_flows_list (set_flow f x m) = fq_flows_list m"
  "fq_freeing (set_flow f x m) = fq_freeing m" "fq_schedule_job (set_flow f x m) = fq_schedule_job m"
  "fq_flow (set_flow f x m) g = (if g = f then x else fq_flow m g)"
  by (simp_all add: set_flow_def)

lemma ppi_inv_frame:
  assumes "ppi_inv i js" "distinct js'" "\<And>j. j \<in> ppi_jobs i \<Longrightarrow> j \<in> set js' \<longleftrightarrow> j \<in> set js"
  shows "ppi_inv i js'"
proof -
  have "ppi_job_operation i \<in> set js' \<longleftrightarrow> ppi_job_operation i \<in> set js" "ppi_job_done i \<in> set js' \<longleftrightarrow> ppi_job_done i \<in> set js"
    "ppi_job_requestcancel i \<in> set js' \<longleftrightarrow> ppi_job_requestcancel i \<in> set js" using assms(3) by (simp_all add: ppi_jobs_def)
  then show ?thesis using assms(1,2) by (simp add: ppi_inv_def op_inv_def)
qed

text \<open>An operation of an interface that is used according to its protocol: what it keeps, and what it leaves alone.\<close>

definition ppi_keeps :: "('j, 'd) ppi \<Rightarrow> 'j jobs \<Rightarrow> ('j, 'd) ppi \<Rightarrow> 'j jobs \<Rightarrow> bool" where
  "ppi_keeps i js i' js' \<longleftrightarrow> ppi_inv i' js' \<and> ppi_jobs i' = ppi_jobs i \<and> ppi_mtu i' = ppi_mtu i \<and>
     ppi_handler_requestcancel i' = ppi_handler_requestcancel i \<and> (\<forall>j. j \<notin> ppi_jobs i \<longrightarrow> (j \<in> set js' \<longleftrightarrow> j \<in> set js))"

lemma ppi_keeps_send:
  assumes "ppi_inv i js" "ppi_state i = STATE_NONE" "PacketPassInterface_Sender_Send d n i js = (i', js')"
  shows "ppi_keeps i js i' js'"
  using ppi_Send_inv [OF assms] assms(3) by (auto simp: ppi_keeps_def ppi_jobs_def PacketPassInterface_Sender_Send_def job_simps Let_def)

lemma ppi_keeps_cancel:
  assumes "ppi_inv i js" "ppi_handler_requestcancel i" "PacketPassInterface_Sender_RequestCancel i js = (i', js')"
  shows "ppi_keeps i js i' js'"
proof -
  have "distinct js" using assms(1) by (simp add: ppi_inv_def op_inv_def)
  then show ?thesis using ppi_RequestCancel_inv [OF assms] assms(3)
    by (auto simp: ppi_keeps_def ppi_jobs_def PacketPassInterface_Sender_RequestCancel_def job_simps Let_def split: if_splits)
qed

lemma ppi_keeps_done:
  assumes "ppi_inv i js" "ppi_state i = STATE_BUSY" "PacketPassInterface_Done i js = (i', js')"
  shows "ppi_keeps i js i' js'"
proof -
  have "distinct js" using assms(1) by (simp add: ppi_inv_def op_inv_def)
  then show ?thesis using ppi_Done_inv [OF assms] assms(3)
    by (auto simp: ppi_keeps_def ppi_jobs_def PacketPassInterface_Done_def job_simps Let_def)
qed

lemma ppi_keeps_job_operation:
  assumes "ppi_inv i (ppi_job_operation i # js)" "PacketPassInterface_job_operation i = (i', d, n)"
  shows "ppi_state i = STATE_OPERATION_PENDING" "ppi_keeps i (ppi_job_operation i # js) i' js" "ppi_state i' = STATE_BUSY"
    "i' = i\<lparr>ppi_state := STATE_BUSY\<rparr>" "d = ppi_job_operation_data i" "n = ppi_job_operation_len i"
  using assms by (auto simp: ppi_keeps_def ppi_jobs_def ppi_inv_simps)

lemma ppi_keeps_job_done:
  assumes "ppi_inv i (ppi_job_done i # js)"
  shows "ppi_state i = STATE_DONE_PENDING" "ppi_keeps i (ppi_job_done i # js) (PacketPassInterface_job_done i) js"
    "PacketPassInterface_job_done i = i\<lparr>ppi_state := STATE_NONE\<rparr>"
  using assms by (auto simp: ppi_keeps_def ppi_jobs_def ppi_inv_simps)

lemma ppi_keeps_job_requestcancel:
  assumes "ppi_inv i (ppi_job_requestcancel i # js)"
  shows "ppi_state i = STATE_BUSY" "ppi_keeps i (ppi_job_requestcancel i # js) i js"
  using assms by (auto simp: ppi_keeps_def ppi_jobs_def ppi_inv_simps)

lemma ifaces_output:
  assumes "fq_ifaces m js" "ppi_keeps (fq_output m) js i js'"
  shows "fq_ifaces (m\<lparr>fq_output := i\<rparr>) js'"
proof -
  have k: "ppi_inv i js'" "ppi_jobs i = ppi_jobs (fq_output m)" "ppi_mtu i = ppi_mtu (fq_output m)"
    "ppi_handler_requestcancel i = ppi_handler_requestcancel (fq_output m)" "\<And>j. j \<notin> ppi_jobs (fq_output m) \<Longrightarrow> j \<in> set js' \<longleftrightarrow> j \<in> set js"
    using assms(2) by (simp_all add: ppi_keeps_def)
  have d: "distinct js'" using k(1) by (simp add: ppi_inv_def op_inv_def)
  have "ppi_inv (fq_input m f) js'" if "f \<in> set (fq_flows_list m)" for f
  proof (rule ppi_inv_frame [OF _ d])
    show "ppi_inv (fq_input m f) js" using assms(1) that by (simp add: fq_ifaces_def)
    fix j assume "j \<in> ppi_jobs (fq_input m f)"
    then show "j \<in> set js' \<longleftrightarrow> j \<in> set js" using k(5) assms(1) that by (auto simp: fq_ifaces_def)
  qed
  then show ?thesis using assms(1) d k(1-4) by (simp add: fq_ifaces_def)
qed

lemma ifaces_input:
  assumes "fq_ifaces m js" "f \<in> set (fq_flows_list m)" "ppi_keeps (fq_input m f) js (fl_input x) js'"
  shows "fq_ifaces (set_flow f x m) js'"
proof -
  have k: "ppi_inv (fl_input x) js'" "ppi_jobs (fl_input x) = ppi_jobs (fq_input m f)" "ppi_mtu (fl_input x) = ppi_mtu (fq_input m f)"
    "\<And>j. j \<notin> ppi_jobs (fq_input m f) \<Longrightarrow> j \<in> set js' \<longleftrightarrow> j \<in> set js"
    using assms(3) by (simp_all add: ppi_keeps_def)
  have d: "distinct js'" using k(1) by (simp add: ppi_inv_def op_inv_def)
  have "ppi_inv (fq_input m g) js'" if "g \<in> set (fq_flows_list m)" "g \<noteq> f" for g
  proof (rule ppi_inv_frame [OF _ d])
    show "ppi_inv (fq_input m g) js" using assms(1) that by (simp add: fq_ifaces_def)
    fix j assume "j \<in> ppi_jobs (fq_input m g)"
    moreover have "ppi_jobs (fq_input m g) \<inter> ppi_jobs (fq_input m f) = {}" using assms(1,2) that unfolding fq_ifaces_def by blast
    ultimately show "j \<in> set js' \<longleftrightarrow> j \<in> set js" using k(4) by blast
  qed
  moreover have "ppi_inv (fq_output m) js'"
  proof (rule ppi_inv_frame [OF _ d])
    show "ppi_inv (fq_output m) js" using assms(1) by (simp add: fq_ifaces_def)
    fix j assume "j \<in> ppi_jobs (fq_output m)"
    then show "j \<in> set js' \<longleftrightarrow> j \<in> set js" using k(4) assms(1,2) by (auto simp: fq_ifaces_def)
  qed
  ultimately show ?thesis using assms(1,2) d k(1-3) by (auto simp: fq_ifaces_def)
qed

lemma ifaces_cong:
  assumes "fq_ifaces m js" "fq_output m' = fq_output m" "fq_flows_list m' = fq_flows_list m" "fq_schedule_job m' = fq_schedule_job m"
    "fq_use_cancel m' = fq_use_cancel m" "fq_freeing m' = fq_freeing m" "\<And>f. fq_input m' f = fq_input m f"
  shows "fq_ifaces m' js"
  using assms by (simp add: fq_ifaces_def)

lemma ifaces_jobs:
  assumes "fq_ifaces m js" "distinct js'"
    "\<And>j. j \<in> ppi_jobs (fq_output m) \<union> (\<Union>g \<in> set (fq_flows_list m). ppi_jobs (fq_input m g)) \<Longrightarrow> j \<in> set js' \<longleftrightarrow> j \<in> set js"
  shows "fq_ifaces m js'"
proof -
  have "ppi_inv (fq_output m) js'" by (rule ppi_inv_frame [of _ js]) (use assms in \<open>auto simp: fq_ifaces_def\<close>)
  moreover have "ppi_inv (fq_input m f) js'" if "f \<in> set (fq_flows_list m)" for f
    by (rule ppi_inv_frame [of _ js]) (use assms that in \<open>auto simp: fq_ifaces_def\<close>)
  ultimately show ?thesis using assms by (simp add: fq_ifaces_def)
qed

text \<open>The order of the queue depends only on the times of the queued flows.\<close>

lemma queue_cong:
  assumes "fq_queue m xs" "fq_queued_tree m' = fq_queued_tree m" "set (fq_flows_list m') = set (fq_flows_list m)"
    "\<And>f. f \<in> set (fq_flows_list m) \<Longrightarrow> fq_is_queued m' f = fq_is_queued m f"
    "\<And>f g. f \<in> set xs \<Longrightarrow> g \<in> set xs \<Longrightarrow> fq_time m' f < fq_time m' g \<longleftrightarrow> fq_time m f < fq_time m g"
    "\<And>f g. f \<in> set xs \<Longrightarrow> g \<in> set xs \<Longrightarrow> fq_time m' f = fq_time m' g \<longleftrightarrow> fq_time m f = fq_time m g"
  shows "fq_queue m' xs"
proof -
  have "sorted_wrt (\<lambda>x y. compare_flows m' x y = -1) xs"
    by (rule sorted_wrt_mono_rel [of _ "\<lambda>x y. compare_flows m x y = -1"]) (use assms(1,5,6) in \<open>simp_all add: compare_flows_less fq_queue_def\<close>)
  moreover have "{f \<in> set (fq_flows_list m'). fq_is_queued m' f} = {f \<in> set (fq_flows_list m). fq_is_queued m f}" using assms(3,4) by auto
  ultimately show ?thesis using assms(1,2) by (simp add: fq_queue_def)
qed

lemma queue_GetFirst: "fq_queue m xs \<Longrightarrow> SAvl_GetFirst (fq_queued_tree m) = Some (if xs = [] then None else Some (hd xs))"
  by (simp add: SAvl_defs fq_queue_def CAvl_GetFirst_ok(1))

lemma queue_IsEmpty: "fq_queue m xs \<Longrightarrow> SAvl_IsEmpty (fq_queued_tree m) \<longleftrightarrow> xs = []"
  by (simp add: SAvl_defs fq_queue_def CAvl_GetFirst_ok(3))

lemma tree_Remove: "avl_tree t xs \<Longrightarrow> a \<in> set xs \<Longrightarrow> \<exists>t'. SAvl_Remove t a = Some t' \<and> avl_tree t' (remove1 a xs)"
  by (rule CAvl_Remove_ok) (auto simp: SAvl_defs)

lemma queue_hd:
  assumes "fq_queue m (x # xs)" "g \<in> set (fq_flows_list m)" "fq_is_queued m g"
  shows "fq_time m x \<le> fq_time m g"
proof -
  have "g = x \<or> compare_flows m x g = -1" using assms by (auto simp: fq_queue_def)
  then show ?thesis by (auto simp: compare_flows_less)
qed

section \<open>Handlers\<close>

text \<open>What \<open>fq_control\<close> says of the flows, and of the sending state.\<close>

definition flow_ok :: "('f, 'j, 'd) PacketPassFairQueue \<Rightarrow> 'f \<Rightarrow> bool" where
  "flow_ok m f \<longleftrightarrow> (ppi_state (fq_input m f) = STATE_BUSY \<longleftrightarrow> fq_is_queued m f \<or> fq_sending_flow m = Some f) \<and>
     (ppi_state (fq_input m f) = STATE_OPERATION_PENDING \<or> fq_is_queued m f \<longrightarrow>
       0 \<le> ppi_job_operation_len (fq_input m f) \<and> ppi_job_operation_len (fq_input m f) \<le> ppi_mtu (fq_output m)) \<and>
     (fq_is_queued m f \<or> fq_sending_flow m = Some f \<longrightarrow> fl_data (fq_flow m f) = ppi_job_operation_data (fq_input m f) \<and>
       fl_data_len (fq_flow m f) = ppi_job_operation_len (fq_input m f))"

definition sending_ok :: "('f, 'j, 'd) PacketPassFairQueue \<Rightarrow> 'j jobs \<Rightarrow> bool" where
  "sending_ok m js \<longleftrightarrow>
     (case fq_sending_flow m of
        None \<Rightarrow> ppi_state (fq_output m) = STATE_NONE \<and>
          (fq_schedule_job m \<in> set js \<or> fq_previous_flow m = None \<and> (\<forall>f \<in> set (fq_flows_list m). \<not> fq_is_queued m f))
      | Some f \<Rightarrow> f \<in> set (fq_flows_list m) \<and> \<not> fq_is_queued m f \<and> ppi_state (fq_output m) \<noteq> STATE_NONE \<and>
          fq_schedule_job m \<notin> set js \<and> fq_previous_flow m = None \<and> fq_sending_len m = fl_data_len (fq_flow m f) \<and>
          0 \<le> fq_sending_len m \<and> fq_sending_len m \<le> ppi_mtu (fq_output m) \<and>
          ppi_job_operation_data (fq_output m) = fl_data (fq_flow m f) \<and> ppi_job_operation_len (fq_output m) = fl_data_len (fq_flow m f) \<and>
          (\<forall>g \<in> set (fq_flows_list m). fq_is_queued m g \<longrightarrow> fq_time m f \<le> fq_time m g))"

lemma fq_control_iff:
  "fq_control m js \<longleftrightarrow> (\<forall>f \<in> set (fq_flows_list m). flow_ok m f) \<and> sending_ok m js \<and>
     (\<forall>p. fq_previous_flow m = Some p \<longrightarrow> p \<in> set (fq_flows_list m) \<and> \<not> fq_is_queued m p)"
  by (simp add: fq_control_def flow_ok_def sending_ok_def)

lemma schedule_ok:
  assumes I: "fq_ifaces m js" and Q: "fq_queue m (x # xs)" and W: "fq_weights m"
    and F: "\<forall>f \<in> set (fq_flows_list m). flow_ok m f"
    and S: "fq_sending_flow m = None" "ppi_state (fq_output m) = STATE_NONE" "fq_previous_flow m = None" "fq_schedule_job m \<notin> set js"
  shows "\<exists>m' js'. schedule m js = Some (m', js') \<and> fq_ifaces m' js' \<and> fq_queue m' xs \<and> fq_control m' js' \<and> fq_weights m' \<and>
    fq_sending_flow m' = Some x \<and> (\<forall>f. fq_time m' f = fq_time m f) \<and> fq_flows_list m' = fq_flows_list m \<and>
    fq_packet_weight m' = fq_packet_weight m \<and> ppi_mtu (fq_output m') = ppi_mtu (fq_output m) \<and>
    (\<forall>f. fq_is_queued m' f \<longleftrightarrow> fq_is_queued m f \<and> f \<noteq> x)"
proof -
  have x: "x \<in> set (fq_flows_list m)" "fq_is_queued m x" and t: "avl_tree (fq_queued_tree m) (x # xs)" using Q by (auto simp: fq_queue_def)
  obtain tree where tree: "CAvl_Remove (fq_queued_tree m) x = Some tree" "avl_tree tree xs" using tree_Remove [OF t, of x] by (auto simp: SAvl_defs)
  obtain i js' where s: "PacketPassInterface_Sender_Send (fl_data (fq_flow m x)) (fl_data_len (fq_flow m x)) (fq_output m) js = (i, js')"
    using prod.exhaust by blast
  define m1 where "m1 = set_flow x ((fq_flow m x)\<lparr>fl_is_queued := False\<rparr>) (m\<lparr>fq_queued_tree := tree\<rparr>)"
  define m' where "m' = m1\<lparr>fq_output := i, fq_sending_flow := Some x, fq_sending_len := fl_data_len (fq_flow m x)\<rparr>"
  have sch: "schedule m js = Some (m', js')"
    using queue_GetFirst [OF Q] tree(1) s by (simp add: schedule_def SAvl_Remove_def m'_def m1_def Let_def)
  have i: "i = (fq_output m)\<lparr>ppi_job_operation_data := fl_data (fq_flow m x), ppi_job_operation_len := fl_data_len (fq_flow m x),
      ppi_state := STATE_OPERATION_PENDING, ppi_cancel_requested := False\<rparr>" and js': "js' = BPending_Set (ppi_job_operation (fq_output m)) js"
    using s by (auto simp: PacketPassInterface_Sender_Send_def)
  have k: "ppi_keeps (fq_output m) js i js'" using ppi_keeps_send [OF _ S(2) s] I by (simp add: fq_ifaces_def)
  have fl: "fq_flow m' f = (if f = x then (fq_flow m x)\<lparr>fl_is_queued := False\<rparr> else fq_flow m f)" for f by (simp add: m'_def m1_def)
  have m': "fq_output m' = i" "fq_flows_list m' = fq_flows_list m" "fq_schedule_job m' = fq_schedule_job m" "fq_use_cancel m' = fq_use_cancel m"
    "fq_freeing m' = fq_freeing m" "fq_sending_flow m' = Some x" "fq_packet_weight m' = fq_packet_weight m" "fq_previous_flow m' = None"
    "fq_sending_len m' = fl_data_len (fq_flow m x)" "fq_queued_tree m' = tree"
    using S(3) by (simp_all add: m'_def m1_def)
  have "fq_ifaces (m\<lparr>fq_output := i\<rparr>) js'" using ifaces_output [OF I k] .
  then have 1: "fq_ifaces m' js'" by (rule ifaces_cong) (simp_all add: m' fl)
  have "x \<notin> set xs" "sorted_wrt (\<lambda>x y. compare_flows m x y = -1) xs" "set (x # xs) = {f \<in> set (fq_flows_list m). fq_is_queued m f}"
    using Q avl_tree_distinct [OF t] by (auto simp: fq_queue_def)
  moreover have "compare_flows m' f g = compare_flows m f g" for f g by (simp add: compare_flows_def fl)
  ultimately have 2: "fq_queue m' xs" using tree(2) by (auto simp: fq_queue_def fl m')
  have sj: "fq_schedule_job m \<noteq> ppi_job_operation (fq_output m)" using I by (simp add: fq_ifaces_def ppi_jobs_def)
  have bx: "ppi_state (fq_input m x) = STATE_BUSY" "flow_ok m x" using F x by (auto simp: flow_ok_def)
  have "flow_ok m' f" if "f \<in> set (fq_flows_list m)" for f
    using F that x bx S(1) unfolding flow_ok_def by (auto simp: fl m' i)
  moreover have "sending_ok m' js'"
    using x S sj bx queue_hd [OF Q] by (auto simp: sending_ok_def fl m' i js' job_simps flow_ok_def)
  ultimately have 3: "fq_control m' js'" by (simp add: fq_control_iff m')
  have 4: "fq_weights m'" using W by (simp add: fq_weights_def m' i)
  show ?thesis using sch 1 2 3 4 by (intro exI [of _ m'] exI [of _ js']) (simp add: m' i fl)
qed

lemma get_current_time_ok:
  assumes Q: "fq_queue m xs" and S: "sending_ok m js"
  shows "\<exists>c. get_current_time m = Some c \<and> (\<forall>g \<in> set (fq_flows_list m). fq_is_queued m g \<longrightarrow> c \<le> fq_time m g) \<and>
    (\<forall>s. fq_sending_flow m = Some s \<longrightarrow> c = fq_time m s)"
proof (cases "fq_sending_flow m")
  case None
  have q: "\<forall>g \<in> set (fq_flows_list m). fq_is_queued m g \<longrightarrow> xs \<noteq> [] \<and> fq_time m (hd xs) \<le> fq_time m g"
  proof (intro ballI impI)
    fix g assume g: "g \<in> set (fq_flows_list m)" "fq_is_queued m g"
    then have "g \<in> set xs" using Q by (auto simp: fq_queue_def)
    then obtain y ys where xs: "xs = y # ys" by (cases xs) auto
    then show "xs \<noteq> [] \<and> fq_time m (hd xs) \<le> fq_time m g" using queue_hd [OF Q [unfolded xs] g] by simp
  qed
  show ?thesis using None q queue_GetFirst [OF Q]
    by (cases "fq_previous_flow m"; cases "xs = []") (auto simp: get_current_time_def Let_def intro: order_trans less_imp_le)
next
  case (Some s)
  then show ?thesis using S by (simp add: get_current_time_def sending_ok_def)
qed

text \<open>A flow that gets in line.\<close>

definition raised :: "('f, 'j, 'd) PacketPassFairQueue \<Rightarrow> 'f \<Rightarrow> u64 \<Rightarrow> bool" where
  "raised m f t \<longleftrightarrow> fq_time m f \<le> t \<and> (t = fq_time m f \<or> (\<forall>g \<in> set (fq_flows_list m). fq_is_queued m g \<longrightarrow> t \<le> fq_time m g)) \<and>
     (\<forall>s. fq_sending_flow m = Some s \<longrightarrow> fq_time m s \<le> t) \<and> (fq_previous_flow m = Some f \<longrightarrow> t = fq_time m f)"

lemma input_handler_first:
  assumes Q: "fq_queue m xs" and S: "sending_ok m js"
  shows "\<exists>m1. (if fq_previous_flow m = Some f then Some (m\<lparr>fq_previous_flow := None\<rparr>)
      else do { time \<leftarrow> get_current_time m; Some (set_flow f ((fq_flow m f)\<lparr>fl_time := max (fq_time m f) time\<rparr>) m) }) = Some m1 \<and>
    (\<exists>t p. m1 = set_flow f ((fq_flow m f)\<lparr>fl_time := t\<rparr>) (m\<lparr>fq_previous_flow := p\<rparr>) \<and> raised m f t \<and>
      (p = fq_previous_flow m \<or> p = None) \<and> p \<noteq> Some f)"
proof (cases "fq_previous_flow m = Some f")
  case True
  then have "fq_sending_flow m = None" using S by (cases "fq_sending_flow m") (auto simp: sending_ok_def)
  then have "raised m f (fq_time m f)" by (simp add: raised_def)
  moreover have "set_flow f ((fq_flow m f)\<lparr>fl_time := fq_time m f\<rparr>) (m\<lparr>fq_previous_flow := None\<rparr>) = m\<lparr>fq_previous_flow := None\<rparr>"
    by (simp add: set_flow_def)
  ultimately show ?thesis using True by (metis option.distinct(1))
next
  case False
  from get_current_time_ok [OF Q S] obtain c where c: "get_current_time m = Some c"
    "\<forall>g \<in> set (fq_flows_list m). fq_is_queued m g \<longrightarrow> c \<le> fq_time m g" "\<forall>s. fq_sending_flow m = Some s \<longrightarrow> c = fq_time m s" by blast
  have "raised m f (max (fq_time m f) c)" using c(2,3) False by (auto simp: raised_def max_def)
  moreover have "set_flow f ((fq_flow m f)\<lparr>fl_time := max (fq_time m f) c\<rparr>) m =
      set_flow f ((fq_flow m f)\<lparr>fl_time := max (fq_time m f) c\<rparr>) (m\<lparr>fq_previous_flow := fq_previous_flow m\<rparr>)" by simp
  ultimately show ?thesis using False c(1) by (auto intro!: exI [of _ "max (fq_time m f) c"] exI [of _ "fq_previous_flow m"])
qed

text \<open>The queue after the flow has been put into the tree, before a packet may be scheduled.\<close>

definition enqueued :: "('f, 'j, 'd) PacketPassFairQueue \<Rightarrow> 'f \<Rightarrow> 'd \<Rightarrow> int \<Rightarrow> u64 \<Rightarrow> 'f option \<Rightarrow> ('f, 'j, 'd) PacketPassFairQueue \<Rightarrow> bool" where
  "enqueued m f d n t p m3 \<longleftrightarrow> raised m f t \<and> (p = fq_previous_flow m \<or> p = None) \<and> p \<noteq> Some f \<and>
     (\<exists>tree. m3 = set_flow f ((fq_flow m f)\<lparr>fl_time := t, fl_data := d, fl_data_len := n, fl_is_queued := True\<rparr>)
       (m\<lparr>fq_previous_flow := p, fq_queued_tree := tree\<rparr>))"

lemma enqueue_ok:
  assumes Q: "fq_queue m xs" and S: "sending_ok m js" and f: "f \<in> set (fq_flows_list m)" "\<not> fq_is_queued m f"
  shows "\<exists>m3 t p ys. enqueued m f d n t p m3 \<and> fq_queue m3 ys \<and> set ys = insert f (set xs) \<and> fq_input_handler_send f d n m js =
    (if fq_sending_flow m3 = None \<and> \<not> BPending_IsSet (fq_schedule_job m3) js then schedule m3 js else Some (m3, js))"
proof -
  from input_handler_first [OF Q S] obtain t p where
    h1: "(if fq_previous_flow m = Some f then Some (m\<lparr>fq_previous_flow := None\<rparr>)
      else do { time \<leftarrow> get_current_time m; Some (set_flow f ((fq_flow m f)\<lparr>fl_time := max (fq_time m f) time\<rparr>) m) }) =
        Some (set_flow f ((fq_flow m f)\<lparr>fl_time := t\<rparr>) (m\<lparr>fq_previous_flow := p\<rparr>))"
    and t: "raised m f t" and p: "p = fq_previous_flow m \<or> p = None" "p \<noteq> Some f" by blast
  define m2 where "m2 = set_flow f ((fq_flow m f)\<lparr>fl_time := t, fl_data := d, fl_data_len := n\<rparr>) (m\<lparr>fq_previous_flow := p\<rparr>)"
  have fx: "f \<notin> set xs" using Q f(2) by (auto simp: fq_queue_def)
  have "fq_queue m2 xs"
    by (rule queue_cong [OF Q]) (use fx f(2) in \<open>auto simp: m2_def\<close>)
  then have Q2: "avl_tree (fq_queued_tree m2) xs" "sorted_wrt (\<lambda>x y. compare_flows m2 x y = -1) xs" by (simp_all add: fq_queue_def)
  have "\<not> list_ex (\<lambda>e. compare_flows m2 f e = 0) xs"
    using fx flows.cmp_range by (auto simp: list_ex_iff compare_flows_def B_COMPARE_def split: if_splits)
  with flows.Insert_refines [OF Q2, of f] obtain tree r where
    ins: "CAvl_Insert (compare_flows m2) (fq_queued_tree m2) f = Some (tree, True, r)"
      "avl_tree tree (sorted_insert (compare_flows m2 f) f xs)" "sorted_wrt (\<lambda>x y. compare_flows m2 x y = -1) (sorted_insert (compare_flows m2 f) f xs)"
    by auto
  define ys where "ys = sorted_insert (compare_flows m2 f) f xs"
  have ys: "set ys = insert f (set xs)" by (metis ys_def sorted_insert_def list.set(2) set_append takeWhile_dropWhile_id Un_insert_right)
  define m3 where "m3 = set_flow f ((fq_flow m2 f)\<lparr>fl_is_queued := True\<rparr>) (m2\<lparr>fq_queued_tree := tree\<rparr>)"
  have h: "fq_input_handler_send f d n m js =
      (if fq_sending_flow m3 = None \<and> \<not> BPending_IsSet (fq_schedule_job m3) js then schedule m3 js else Some (m3, js))"
  proof -
    have e: "set_flow f ((fq_flow (set_flow f ((fq_flow m f)\<lparr>fl_time := t\<rparr>) (m\<lparr>fq_previous_flow := p\<rparr>)) f)\<lparr>fl_data := d, fl_data_len := n\<rparr>)
        (set_flow f ((fq_flow m f)\<lparr>fl_time := t\<rparr>) (m\<lparr>fq_previous_flow := p\<rparr>)) = m2"
      by (simp add: m2_def set_flow_def)
    show ?thesis unfolding fq_input_handler_send_def h1 Let_def bind.bind_lunit SAvl_defs e ins(1) by (simp add: m3_def)
  qed
  have fl: "fq_flow m3 g = (if g = f then (fq_flow m f)\<lparr>fl_time := t, fl_data := d, fl_data_len := n, fl_is_queued := True\<rparr> else fq_flow m g)" for g
    by (simp add: m3_def m2_def)
  have "compare_flows m3 = compare_flows m2" by (intro ext) (simp add: compare_flows_def m3_def)
  moreover have "fq_queued_tree m3 = tree" "fq_flows_list m3 = fq_flows_list m" by (simp_all add: m3_def m2_def)
  ultimately have "fq_queue m3 ys" using ins(2,3) ys Q f(1) by (auto simp: fq_queue_def fl ys_def)
  moreover have "enqueued m f d n t p m3" using t p unfolding enqueued_def m3_def m2_def
    by (intro conjI exI [of _ tree]) (simp_all add: set_flow_def)
  ultimately show ?thesis using ys h by blast
qed

lemma input_handler_ok:
  assumes I: "fq_ifaces m js" and Q: "fq_queue m xs" and W: "fq_weights m" and S: "sending_ok m js"
    and F: "\<And>g. g \<in> set (fq_flows_list m) \<Longrightarrow> g \<noteq> f \<Longrightarrow> flow_ok m g"
    and P: "\<forall>p. fq_previous_flow m = Some p \<longrightarrow> p \<in> set (fq_flows_list m) \<and> \<not> fq_is_queued m p"
    and f: "f \<in> set (fq_flows_list m)" "\<not> fq_is_queued m f" "fq_sending_flow m \<noteq> Some f" "ppi_state (fq_input m f) = STATE_BUSY"
      "ppi_job_operation_data (fq_input m f) = d" "ppi_job_operation_len (fq_input m f) = n" "0 \<le> n" "n \<le> ppi_mtu (fq_output m)"
  shows "\<exists>m' js' t. fq_input_handler_send f d n m js = Some (m', js') \<and> fq_inv m' js' \<and> raised m f t \<and>
    (\<forall>g. fq_time m' g = (if g = f then t else fq_time m g)) \<and> fq_flows_list m' = fq_flows_list m \<and>
    fq_packet_weight m' = fq_packet_weight m \<and> ppi_mtu (fq_output m') = ppi_mtu (fq_output m) \<and>
    (\<forall>g. fq_is_queued m' g \<longrightarrow> fq_is_queued m g \<or> g = f) \<and> (fq_sending_flow m' = Some f \<or> fq_sending_flow m' = fq_sending_flow m)"
proof -
  from enqueue_ok [OF Q S f(1,2), of d n] obtain m3 t p ys where
    e: "enqueued m f d n t p m3" and Q3: "fq_queue m3 ys" and ys: "set ys = insert f (set xs)" and h: "fq_input_handler_send f d n m js =
      (if fq_sending_flow m3 = None \<and> \<not> BPending_IsSet (fq_schedule_job m3) js then schedule m3 js else Some (m3, js))" by blast
  have t: "raised m f t" and p: "p = fq_previous_flow m \<or> p = None" "p \<noteq> Some f" using e by (simp_all add: enqueued_def)
  have fl: "fq_flow m3 g = (if g = f then (fq_flow m f)\<lparr>fl_time := t, fl_data := d, fl_data_len := n, fl_is_queued := True\<rparr> else fq_flow m g)" for g
    using e by (auto simp: enqueued_def)
  have m3: "fq_output m3 = fq_output m" "fq_flows_list m3 = fq_flows_list m" "fq_schedule_job m3 = fq_schedule_job m" "fq_use_cancel m3 = fq_use_cancel m"
    "fq_freeing m3 = fq_freeing m" "fq_sending_flow m3 = fq_sending_flow m" "fq_packet_weight m3 = fq_packet_weight m" "fq_previous_flow m3 = p"
    "fq_sending_len m3 = fq_sending_len m" using e by (auto simp: enqueued_def)
  have I3: "fq_ifaces m3 js" by (rule ifaces_cong [OF I]) (simp_all add: m3 fl)
  have W3: "fq_weights m3" using W by (simp add: fq_weights_def m3)
  have F3: "\<forall>g \<in> set (fq_flows_list m3). flow_ok m3 g" using F f unfolding flow_ok_def by (auto simp: fl m3)
  show ?thesis
  proof (cases "fq_sending_flow m = None \<and> fq_schedule_job m \<notin> set js")
    case True
    then have "set xs = {}" "fq_previous_flow m = None" "ppi_state (fq_output m) = STATE_NONE" using S Q by (auto simp: sending_ok_def fq_queue_def)
    then have "set ys = {f}" and pn: "p = None" using p(1) ys by auto
    moreover have "distinct ys" using Q3 avl_tree_distinct by (auto simp: fq_queue_def)
    ultimately have "length ys = 1" using distinct_card [of ys] by simp
    with \<open>set ys = {f}\<close> have "ys = [f]" by (cases ys) auto
    with schedule_ok [OF I3 _ W3 F3, of f "[]"] Q3 True pn \<open>ppi_state (fq_output m) = STATE_NONE\<close> obtain m' js' where
      s: "schedule m3 js = Some (m', js')" "fq_ifaces m' js'" "fq_queue m' []" "fq_control m' js'" "fq_weights m'" "fq_sending_flow m' = Some f"
        "\<forall>g. fq_time m' g = fq_time m3 g" "fq_flows_list m' = fq_flows_list m3" "fq_packet_weight m' = fq_packet_weight m3"
        "ppi_mtu (fq_output m') = ppi_mtu (fq_output m3)" "\<forall>g. fq_is_queued m' g \<longleftrightarrow> fq_is_queued m3 g \<and> g \<noteq> f"
      by (auto simp: m3)
    have "fq_inv m' js'" using s by (auto simp: fq_inv_def)
    moreover have "fq_input_handler_send f d n m js = Some (m', js')" using h True s(1) by (simp add: m3 BPending_IsSet_def)
    ultimately show ?thesis using s(6-11) t by (intro exI [of _ m'] exI [of _ js'] exI [of _ t]) (simp add: m3 fl)
  next
    case False
    have "sending_ok m3 js"
    proof (cases "fq_sending_flow m")
      case None
      then show ?thesis using S False by (simp add: sending_ok_def m3)
    next
      case (Some s)
      then show ?thesis using S t p f by (auto simp: sending_ok_def m3 fl raised_def)
    qed
    moreover have "\<forall>q. p = Some q \<longrightarrow> q \<in> set (fq_flows_list m) \<and> \<not> fq_is_queued m3 q" using P p by (auto simp: fl)
    ultimately have "fq_control m3 js" using F3 by (simp add: fq_control_iff m3)
    then have "fq_inv m3 js" using I3 Q3 W3 by (auto simp: fq_inv_def)
    moreover have "fq_input_handler_send f d n m js = Some (m3, js)" using h False by (auto simp: m3 BPending_IsSet_def)
    ultimately show ?thesis using t by (intro exI [of _ m3] exI [of _ js] exI [of _ t]) (simp add: m3 fl)
  qed
qed

text \<open>The cost of a packet is added to the time of its flow.  When the sum does not fit, the time of the first queued flow is subtracted everywhere first.\<close>

lemma subtract_time_eq:
  "distinct fs \<Longrightarrow> subtract_time flow s fs m = m\<lparr>fq_flow := \<lambda>g. if g \<in> set fs
     then (fq_flow m g)\<lparr>fl_time := if s > fq_time m g \<and> g \<noteq> flow then 0 else fq_time m g - s\<rparr> else fq_flow m g\<rparr>"
proof (induction flow s fs m rule: subtract_time.induct)
  case (2 flow s f fs m)
  then show ?case by (auto simp: set_flow_def fun_eq_iff)
qed simp

lemma unat64: "unat x < 2 ^ 64" for x :: u64
  using unsigned_less [where 'a = nat and w = x] by simp

lemma time_fits: "\<not> - 1 - x < a \<longleftrightarrow> unat x + unat a < 2 ^ 64" for x a :: u64
proof -
  have "unat (- 1 - x) = unat (- 1 :: u64) - unat x" by (rule unat_sub) simp
  then have "unat (- 1 - x) = 2 ^ 64 - 1 - unat x" by (simp add: unsigned_minus_1_eq_mask mask_eq_exp_minus_1)
  then show ?thesis using unat64 [of x] by (auto simp: word_less_nat_alt)
qed

lemma time_rebased:
  fixes x a s :: u64
  assumes "- 1 - x < a" "x \<le> s"
  shows "unat (x - s + a) + unat s = unat x + unat a"
proof -
  have ge: "2 ^ 64 \<le> unat x + unat a" using assms(1) time_fits [of x a] by simp
  have s: "unat x \<le> unat s" "unat s < 2 ^ 64" "unat a < 2 ^ 64" using assms(2) unat64 [of s] unat64 [of a] by (simp_all add: word_le_nat_alt)
  have "x - s + a = of_nat (unat x + unat a - unat s)" using ge s by (simp add: of_nat_diff)
  moreover have "unat (of_nat (unat x + unat a - unat s) :: u64) = unat x + unat a - unat s"
    using s by (simp add: unsigned_of_nat take_bit_nat_eq_self)
  moreover have "x - s + a = x + a - s" by simp
  ultimately have "unat (x - s + a) = unat x + unat a - unat s" by (simp only:)
  then show ?thesis using ge s by linarith
qed

definition times_shifted :: "('f, 'j, 'd) PacketPassFairQueue \<Rightarrow> 'f \<Rightarrow> nat \<Rightarrow> nat \<Rightarrow> ('f, 'j, 'd) PacketPassFairQueue \<Rightarrow> bool" where
  "times_shifted m flow cost s m' \<longleftrightarrow> unat (fq_time m' flow) + s = unat (fq_time m flow) + cost \<and>
     (\<forall>g \<in> set (fq_flows_list m). g \<noteq> flow \<longrightarrow> unat (fq_time m' g) = unat (fq_time m g) - s \<and> (fq_is_queued m g \<longrightarrow> s \<le> unat (fq_time m g)))"

lemma increment_sent_flow_ok:
  assumes Q: "fq_queue m xs" and D: "distinct (fq_flows_list m)" and f: "flow \<in> set (fq_flows_list m)" "\<not> fq_is_queued m flow"
    and le: "\<forall>g \<in> set (fq_flows_list m). fq_is_queued m g \<longrightarrow> fq_time m flow \<le> fq_time m g"
  shows "\<exists>h s. increment_sent_flow flow amount m = Some (m\<lparr>fq_flow := h\<rparr>) \<and> (\<forall>g. fl_input (h g) = fq_input m g \<and>
      fl_is_queued (h g) = fq_is_queued m g \<and> fl_data (h g) = fl_data (fq_flow m g) \<and> fl_data_len (h g) = fl_data_len (fq_flow m g)) \<and>
    times_shifted m flow (unat amount) s (m\<lparr>fq_flow := h\<rparr>) \<and> fq_queue (m\<lparr>fq_flow := h\<rparr>) xs"
proof (cases "amount > FAIRQUEUE_MAX_TIME - fq_time m flow")
  case False
  define h where "h = (fq_flow m)(flow := (fq_flow m flow)\<lparr>fl_time := fq_time m flow + amount\<rparr>)"
  have u: "unat (fq_time m flow + amount) = unat (fq_time m flow) + unat amount"
    using time_fits [of "fq_time m flow" amount] False by (simp add: unat_add_lem [THEN iffD1])
  have "fq_queue (m\<lparr>fq_flow := h\<rparr>) xs"
    by (rule queue_cong [OF Q]) (use Q f(2) in \<open>auto simp: h_def fq_queue_def\<close>)
  moreover have "times_shifted m flow (unat amount) 0 (m\<lparr>fq_flow := h\<rparr>)" by (auto simp: times_shifted_def h_def u)
  moreover have "increment_sent_flow flow amount m = Some (m\<lparr>fq_flow := h\<rparr>)"
    using False by (simp add: increment_sent_flow_def set_flow_def h_def)
  ultimately show ?thesis by (intro exI [of _ h] exI [of _ 0]) (auto simp: h_def)
next
  case True
  define s where "s = (if xs = [] then fq_time m flow else fq_time m (hd xs))"
  define h where "h = (\<lambda>g. if g = flow then (fq_flow m g)\<lparr>fl_time := fq_time m g - s + amount\<rparr>
    else if g \<in> set (fq_flows_list m) then (fq_flow m g)\<lparr>fl_time := if s > fq_time m g then 0 else fq_time m g - s\<rparr> else fq_flow m g)"
  have inc: "increment_sent_flow flow amount m = Some (m\<lparr>fq_flow := h\<rparr>)"
  proof -
    have "increment_sent_flow flow amount m = (let m = subtract_time flow s (fq_flows_list m) m in
        Some (set_flow flow ((fq_flow m flow)\<lparr>fl_time := fq_time m flow + amount\<rparr>) m))"
      using True queue_GetFirst [OF Q] by (simp add: increment_sent_flow_def s_def Let_def)
    also have "\<dots> = Some (m\<lparr>fq_flow := (\<lambda>g. if g \<in> set (fq_flows_list m)
        then (fq_flow m g)\<lparr>fl_time := if s > fq_time m g \<and> g \<noteq> flow then 0 else fq_time m g - s\<rparr> else fq_flow m g)
          (flow := (fq_flow m flow)\<lparr>fl_time := fq_time m flow - s + amount\<rparr>)\<rparr>)"
      using f(1) by (simp add: subtract_time_eq [OF D] Let_def set_flow_def)
    also have "\<dots> = Some (m\<lparr>fq_flow := h\<rparr>)"
      by (rule arg_cong [where f = "\<lambda>h. Some (m\<lparr>fq_flow := h\<rparr>)"], rule ext) (simp add: h_def)
    finally show ?thesis .
  qed
  have sq: "s \<le> fq_time m g" if "g \<in> set xs" for g
    using that Q queue_hd [of m "hd xs" "tl xs" g] by (cases xs) (auto simp: s_def fq_queue_def)
  have sf: "fq_time m flow \<le> s" using le Q by (cases xs) (auto simp: s_def fq_queue_def)
  have u: "unat (fq_time m flow - s + amount) + unat s = unat (fq_time m flow) + unat amount"
    using True sf by (rule time_rebased)
  have ug: "unat (if s > fq_time m g then 0 else fq_time m g - s) = unat (fq_time m g) - unat s" for g
    by (auto simp: word_less_nat_alt unat_sub word_le_nat_alt not_less)
  have "fq_queue (m\<lparr>fq_flow := h\<rparr>) xs"
  proof (rule queue_cong [OF Q])
    fix a b assume ab: "a \<in> set xs" "b \<in> set xs"
    then have n: "a \<noteq> flow" "b \<noteq> flow" "a \<in> set (fq_flows_list m)" "b \<in> set (fq_flows_list m)" using Q f(2) by (auto simp: fq_queue_def)
    have t: "fl_time (h a) = fq_time m a - s" "fl_time (h b) = fq_time m b - s" using n sq ab by (auto simp: h_def not_less [symmetric])
    have "unat (fq_time m a - s) = unat (fq_time m a) - unat s" "unat (fq_time m b - s) = unat (fq_time m b) - unat s"
      "unat s \<le> unat (fq_time m a)" "unat s \<le> unat (fq_time m b)" using sq ab by (simp_all add: unat_sub word_le_nat_alt)
    then show "fq_time (m\<lparr>fq_flow := h\<rparr>) a < fq_time (m\<lparr>fq_flow := h\<rparr>) b \<longleftrightarrow> fq_time m a < fq_time m b"
      "fq_time (m\<lparr>fq_flow := h\<rparr>) a = fq_time (m\<lparr>fq_flow := h\<rparr>) b \<longleftrightarrow> fq_time m a = fq_time m b"
      using t by (auto simp: word_less_nat_alt word_unat_eq_iff)
  qed (auto simp: h_def)
  moreover have "times_shifted m flow (unat amount) (unat s) (m\<lparr>fq_flow := h\<rparr>)"
    using u ug sq Q by (auto simp: times_shifted_def h_def fq_queue_def word_le_nat_alt)
  ultimately show ?thesis using inc by (intro exI [of _ h] exI [of _ "unat s"]) (auto simp: h_def)
qed
lemma unat_cost: "0 \<le> a \<Longrightarrow> 0 \<le> b \<Longrightarrow> a + b < 2 ^ 64 \<Longrightarrow> unat (of_int a + of_int b :: u64) = nat (a + b)" for a b :: int
proof -
  assume a: "0 \<le> a" "0 \<le> b" "a + b < 2 ^ 64"
  have "uint (of_int (a + b) :: u64) = a + b" unfolding uint_word_of_int using a by simp
  then show ?thesis by (simp add: unat_eq_nat_uint flip: of_int_add)
qed

lemma output_done_ok:
  assumes inv: "fq_inv m (ppi_job_done (fq_output m) # js)"
  shows "\<exists>m' js' busy flow s. fq_output_handler_done (m\<lparr>fq_output := PacketPassInterface_job_done (fq_output m)\<rparr>) js = Some (m', js', busy) \<and>
    fq_inv m' js' \<and> fq_sending_flow m = Some flow \<and> times_shifted m flow (nat (packet_cost m)) s m' \<and> fq_flows_list m' = fq_flows_list m \<and>
    fq_packet_weight m' = fq_packet_weight m \<and> ppi_mtu (fq_output m') = ppi_mtu (fq_output m) \<and>
    (\<forall>g. fq_is_queued m' g = fq_is_queued m g) \<and> fq_sending_flow m' = None"
proof -
  let ?o = "PacketPassInterface_job_done (fq_output m)"
  from inv obtain xs where I: "fq_ifaces m (ppi_job_done (fq_output m) # js)" and Q: "fq_queue m xs" and C: "fq_control m (ppi_job_done (fq_output m) # js)"
    and W: "fq_weights m" by (auto simp: fq_inv_def)
  have oi: "ppi_inv (fq_output m) (ppi_job_done (fq_output m) # js)" using I by (simp add: fq_ifaces_def)
  note od = ppi_keeps_job_done [OF oi]
  have F: "\<And>f. f \<in> set (fq_flows_list m) \<Longrightarrow> flow_ok m f" and S: "sending_ok m (ppi_job_done (fq_output m) # js)" using C by (simp_all add: fq_control_iff)
  obtain flow where fs: "fq_sending_flow m = Some flow" using S od(1) by (cases "fq_sending_flow m") (auto simp: sending_ok_def)
  have fl: "flow \<in> set (fq_flows_list m)" "\<not> fq_is_queued m flow" and pv: "fq_previous_flow m = None" and sj: "fq_schedule_job m \<notin> set js"
    and len: "0 \<le> fq_sending_len m" "fq_sending_len m \<le> ppi_mtu (fq_output m)"
    and le: "\<forall>g \<in> set (fq_flows_list m). fq_is_queued m g \<longrightarrow> fq_time m flow \<le> fq_time m g" using S fs by (auto simp: sending_ok_def)
  define m1 where "m1 = m\<lparr>fq_output := ?o, fq_sending_flow := None, fq_previous_flow := Some flow\<rparr>"
  have I1: "fq_ifaces m1 js" by (rule ifaces_cong [OF ifaces_output [OF I od(2)]]) (simp_all add: m1_def)
  have Q1: "fq_queue m1 xs" by (rule queue_cong [OF Q]) (simp_all add: m1_def)
  have "unat (of_int (fq_packet_weight m) + of_int (fq_sending_len m) :: u64) = nat (packet_cost m)"
    unfolding packet_cost_def by (rule unat_cost) (use W len in \<open>simp_all add: fq_weights_def\<close>)
  with increment_sent_flow_ok [OF Q1, of flow "of_int (fq_packet_weight m) + of_int (fq_sending_len m)"] I1 fl le
  have "\<exists>h s. increment_sent_flow flow (of_int (fq_packet_weight m) + of_int (fq_sending_len m)) m1 = Some (m1\<lparr>fq_flow := h\<rparr>) \<and>
      (\<forall>g. fl_input (h g) = fq_input m1 g \<and> fl_is_queued (h g) = fq_is_queued m1 g \<and> fl_data (h g) = fl_data (fq_flow m1 g) \<and>
        fl_data_len (h g) = fl_data_len (fq_flow m1 g)) \<and>
      times_shifted m1 flow (nat (packet_cost m)) s (m1\<lparr>fq_flow := h\<rparr>) \<and> fq_queue (m1\<lparr>fq_flow := h\<rparr>) xs"
    by (simp add: m1_def fq_ifaces_def)
  then obtain h s where
    inc: "increment_sent_flow flow (of_int (fq_packet_weight m) + of_int (fq_sending_len m)) m1 = Some (m1\<lparr>fq_flow := h\<rparr>)"
    and h: "\<forall>g. fl_input (h g) = fq_input m1 g \<and> fl_is_queued (h g) = fq_is_queued m1 g \<and> fl_data (h g) = fl_data (fq_flow m1 g) \<and>
      fl_data_len (h g) = fl_data_len (fq_flow m1 g)"
    and ts: "times_shifted m1 flow (nat (packet_cost m)) s (m1\<lparr>fq_flow := h\<rparr>)" and Qh: "fq_queue (m1\<lparr>fq_flow := h\<rparr>) xs"
    by blast
  have hg: "fl_input (h g) = fq_input m g" "fl_is_queued (h g) = fq_is_queued m g" "fl_data (h g) = fl_data (fq_flow m g)"
    "fl_data_len (h g) = fl_data_len (fq_flow m g)" for g
    using h by (simp_all add: m1_def)
  define m2 where "m2 = m1\<lparr>fq_flow := h\<rparr>"
  define js1 where "js1 = BPending_Set (fq_schedule_job m) js"
  have I2': "fq_ifaces m2 js" by (rule ifaces_cong [OF I1]) (simp_all add: m2_def hg m1_def)
  have "fq_schedule_job m2 = fq_schedule_job m" by (simp add: m2_def m1_def)
  then have I2: "fq_ifaces m2 js1"
    by (intro ifaces_jobs [OF I2']) (use I2' in \<open>auto simp: js1_def job_simps fq_ifaces_def\<close>)
  have busy: "ppi_state (fq_input m flow) = STATE_BUSY" using F [OF fl(1)] fs by (simp add: flow_ok_def)
  obtain i js' where dn: "PacketPassInterface_Done (fq_input m flow) js1 = (i, js')" using prod.exhaust by blast
  have "ppi_inv (fq_input m flow) js1" using I2 fl(1) by (simp add: fq_ifaces_def m2_def m1_def hg)
  from ppi_keeps_done [OF this busy dn] have k: "ppi_keeps (fq_input m flow) js1 i js'" .
  have i: "i = (fq_input m flow)\<lparr>ppi_state := STATE_DONE_PENDING\<rparr>" using dn by (auto simp: PacketPassInterface_Done_def Let_def)
  define m' where "m' = set_flow flow ((h flow)\<lparr>fl_input := i, fl_handler_busy := False\<rparr>) m2"
  have fl': "fq_flow m' g = (if g = flow then (h flow)\<lparr>fl_input := i, fl_handler_busy := False\<rparr> else h g)" for g by (simp add: m'_def m2_def)
  have m': "fq_output m' = ?o" "fq_flows_list m' = fq_flows_list m" "fq_schedule_job m' = fq_schedule_job m" "fq_sending_flow m' = None"
    "fq_previous_flow m' = Some flow" "fq_packet_weight m' = fq_packet_weight m" "fq_queued_tree m' = fq_queued_tree m2"
    by (simp_all add: m'_def m2_def m1_def)
  have hd: "\<exists>b. fq_output_handler_done (m\<lparr>fq_output := ?o\<rparr>) js = Some (m', js', b)"
  proof (cases "fl_handler_busy (h flow)")
    case True
    then show ?thesis using fs inc dn
      by (simp add: fq_output_handler_done_def Let_def m1_def m'_def m2_def js1_def hg set_flow_def)
  next
    case False
    then have "(h flow)\<lparr>fl_input := i, fl_handler_busy := False\<rparr> = (h flow)\<lparr>fl_input := i\<rparr>" by simp
    then have "m' = set_flow flow ((h flow)\<lparr>fl_input := i\<rparr>) m2" by (simp only: m'_def)
    then show ?thesis using fs inc dn False
      by (simp add: fq_output_handler_done_def Let_def m1_def m2_def js1_def hg set_flow_def)
  qed
  have 1: "fq_ifaces m' js'" unfolding m'_def
    by (rule ifaces_input [OF I2]) (use fl(1) k in \<open>simp_all add: m2_def m1_def hg\<close>)
  have 2: "fq_queue m' xs" by (rule queue_cong [OF Qh]) (simp_all add: m' m2_def fl' m1_def)
  have "fq_schedule_job m \<notin> ppi_jobs (fq_input m flow)" using I fl(1) by (simp add: fq_ifaces_def)
  then have "fq_schedule_job m \<in> set js'" using k by (simp add: ppi_keeps_def js1_def job_simps)
  then have "sending_ok m' js'" by (simp add: sending_ok_def m' od(3))
  moreover have "flow_ok m' g" if "g \<in> set (fq_flows_list m)" for g
    using F [OF that] fs fl(2) by (auto simp: flow_ok_def m' fl' hg i od(3))
  ultimately have 3: "fq_control m' js'" using fl by (simp add: fq_control_iff m' fl' hg)
  have 4: "fq_weights m'" using W by (simp add: fq_weights_def m' od(3))
  have 5: "times_shifted m flow (nat (packet_cost m)) s m'" using ts by (simp add: times_shifted_def fl' m1_def)
  from hd obtain b where "fq_output_handler_done (m\<lparr>fq_output := ?o\<rparr>) js = Some (m', js', b)" ..
  then show ?thesis using 1 2 3 4 5 fs
    by (intro exI [of _ m'] exI [of _ js'] exI [of _ b] exI [of _ flow] exI [of _ s]) (auto simp: fq_inv_def m' fl' hg od(3))
qed
lemma schedule_handler_ok:
  assumes inv: "fq_inv m (fq_schedule_job m # js)"
  shows "\<exists>m' js'. schedule_job_handler m js = Some (m', js') \<and> fq_inv m' js' \<and> (\<forall>f. fq_time m' f = fq_time m f) \<and> fq_flows_list m' = fq_flows_list m \<and>
    fq_packet_weight m' = fq_packet_weight m \<and> ppi_mtu (fq_output m') = ppi_mtu (fq_output m)"
proof -
  from inv obtain xs where I: "fq_ifaces m (fq_schedule_job m # js)" and Q: "fq_queue m xs" and C: "fq_control m (fq_schedule_job m # js)"
    and W: "fq_weights m" by (auto simp: fq_inv_def)
  have S: "fq_sending_flow m = None" "ppi_state (fq_output m) = STATE_NONE"
    using C by (cases "fq_sending_flow m"; simp add: fq_control_iff sending_ok_def)+
  have F: "\<forall>f \<in> set (fq_flows_list m). flow_ok m f" using C by (simp add: fq_control_iff)
  have sj: "fq_schedule_job m \<notin> set js" using I by (simp add: fq_ifaces_def)
  define m1 where "m1 = m\<lparr>fq_previous_flow := None\<rparr>"
  have m1: "fq_output m1 = fq_output m" "fq_flows_list m1 = fq_flows_list m" "fq_schedule_job m1 = fq_schedule_job m" "fq_sending_flow m1 = None"
    "fq_previous_flow m1 = None" "fq_packet_weight m1 = fq_packet_weight m" "fq_flow m1 = fq_flow m" "fq_queued_tree m1 = fq_queued_tree m" using S by (simp_all add: m1_def)
  have "fq_ifaces m js" by (rule ifaces_jobs [OF I]) (use I in \<open>auto simp: fq_ifaces_def\<close>)
  then have I1: "fq_ifaces m1 js" by (rule ifaces_cong) (simp_all add: m1_def)
  have Q1: "fq_queue m1 xs" by (rule queue_cong [OF Q]) (simp_all add: m1)
  have F1: "\<forall>f \<in> set (fq_flows_list m1). flow_ok m1 f" using F S by (simp add: flow_ok_def m1)
  have W1: "fq_weights m1" using W by (simp add: fq_weights_def m1)
  show ?thesis
  proof (cases xs)
    case Nil
    then have "schedule_job_handler m js = Some (m1, js)"
      using queue_IsEmpty [OF Q1] by (simp add: schedule_job_handler_def m1_def)
    moreover have "sending_ok m1 js" using Q1 Nil S by (auto simp: sending_ok_def m1 fq_queue_def)
    then have "fq_inv m1 js" using I1 Q1 F1 W1 by (auto simp: fq_inv_def fq_control_iff m1)
    ultimately show ?thesis by (intro exI [of _ m1] exI [of _ js]) (simp add: m1)
  next
    case (Cons x ys)
    from schedule_ok [OF I1 Q1 [unfolded Cons] W1 F1] S sj obtain m' js' where s: "schedule m1 js = Some (m', js')" "fq_ifaces m' js'" "fq_queue m' ys"
      "fq_control m' js'" "fq_weights m'" "\<forall>f. fq_time m' f = fq_time m1 f" "fq_flows_list m' = fq_flows_list m1"
      "fq_packet_weight m' = fq_packet_weight m1" "ppi_mtu (fq_output m') = ppi_mtu (fq_output m1)" by (auto simp: m1)
    have "schedule_job_handler m js = Some (m', js')"
      using queue_IsEmpty [OF Q1] Cons s(1) by (simp add: schedule_job_handler_def m1_def)
    moreover have "fq_inv m' js'" using s by (auto simp: fq_inv_def)
    ultimately show ?thesis using s(6-9) by (intro exI [of _ m'] exI [of _ js']) (simp add: m1)
  qed
qed

end
