(* ===== verification/FairQueueRuns.thy ===== *)
theory FairQueueRuns
  imports FairQueue
begin

text \<open>
  Runs of the fair queue of \<open>flow/PacketPassFairQueue.c\<close>: every step keeps the invariant of theory
  \<open>FairQueue\<close>, and what the steps do to the times of the flows that are waiting or being sent.
\<close>

section \<open>Steps\<close>

text \<open>A flow that is waiting, being sent, or just sent.\<close>

definition backlogged :: "('f, 'j, 'd) PacketPassFairQueue \<Rightarrow> 'f \<Rightarrow> bool" where
  "backlogged m f \<longleftrightarrow> f \<in> set (fq_flows_list m) \<and> (fq_is_queued m f \<or> fq_sending_flow m = Some f \<or> fq_previous_flow m = Some f)"

definition quiet :: "('f, 'j, 'd) PacketPassFairQueue \<Rightarrow> ('f, 'j, 'd) PacketPassFairQueue \<Rightarrow> bool" where
  "quiet m m' \<longleftrightarrow> (\<forall>g. backlogged m g \<longrightarrow> backlogged m' g \<longrightarrow> fq_time m' g = fq_time m g) \<and>
     fq_packet_weight m' = fq_packet_weight m \<and> ppi_mtu (fq_output m') = ppi_mtu (fq_output m)"

lemma control_jobs:
  assumes "fq_control m js" "fq_schedule_job m \<in> set js' \<longleftrightarrow> fq_schedule_job m \<in> set js"
  shows "fq_control m js'"
  using assms by (simp add: fq_control_iff sending_ok_def split: option.splits)

lemma inv_input:
  assumes "fq_inv m js" "f \<in> set (fq_flows_list m)" "ppi_keeps (fq_input m f) js i js'" "flow_ok (set_input f i m) f"
  shows "fq_inv (set_input f i m) js' \<and> quiet m (set_input f i m)"
proof -
  from assms(1) obtain xs where I: "fq_ifaces m js" and Q: "fq_queue m xs" and C: "fq_control m js" and W: "fq_weights m" by (auto simp: fq_inv_def)
  have "fq_schedule_job m \<notin> ppi_jobs (fq_input m f)" using I assms(2) by (simp add: fq_ifaces_def)
  then have "fq_schedule_job m \<in> set js' \<longleftrightarrow> fq_schedule_job m \<in> set js" using assms(3) by (simp add: ppi_keeps_def)
  with C have C': "fq_control m js'" by (rule control_jobs)
  have "sending_ok (set_input f i m) js'" using C' by (auto simp: fq_control_iff sending_ok_def split: option.splits)
  moreover have "flow_ok (set_input f i m) g" if "g \<in> set (fq_flows_list m)" for g
  proof (cases "g = f")
    case False
    have "flow_ok m g" using C' that by (simp add: fq_control_iff)
    then show ?thesis using False by (simp add: flow_ok_def)
  qed (use assms(4) in simp)
  ultimately have "fq_control (set_input f i m) js'" using C' by (auto simp: fq_control_iff)
  moreover have "fq_ifaces (set_input f i m) js'" by (rule ifaces_input [OF I assms(2)]) (use assms(3) in simp)
  moreover have "fq_queue (set_input f i m) xs" by (rule queue_cong [OF Q]) auto
  ultimately show ?thesis using W by (auto simp: fq_inv_def quiet_def fq_weights_def)
qed

lemma inv_output:
  assumes "fq_inv m js" "ppi_keeps (fq_output m) js i js'" "ppi_state i = STATE_NONE \<longleftrightarrow> ppi_state (fq_output m) = STATE_NONE"
    "ppi_job_operation_data i = ppi_job_operation_data (fq_output m)" "ppi_job_operation_len i = ppi_job_operation_len (fq_output m)"
  shows "fq_inv (m\<lparr>fq_output := i\<rparr>) js' \<and> quiet m (m\<lparr>fq_output := i\<rparr>)"
proof -
  from assms(1) obtain xs where I: "fq_ifaces m js" and Q: "fq_queue m xs" and C: "fq_control m js" and W: "fq_weights m" by (auto simp: fq_inv_def)
  have mtu: "ppi_mtu i = ppi_mtu (fq_output m)" using assms(2) by (simp add: ppi_keeps_def)
  have "fq_schedule_job m \<notin> ppi_jobs (fq_output m)" using I by (simp add: fq_ifaces_def)
  then have "fq_schedule_job m \<in> set js' \<longleftrightarrow> fq_schedule_job m \<in> set js" using assms(2) by (simp add: ppi_keeps_def)
  with C have C': "fq_control m js'" by (rule control_jobs)
  have "sending_ok (m\<lparr>fq_output := i\<rparr>) js'"
    using C' assms(3-5) mtu by (cases "fq_sending_flow m") (simp_all add: fq_control_iff sending_ok_def)
  moreover have "flow_ok (m\<lparr>fq_output := i\<rparr>) g" if "g \<in> set (fq_flows_list m)" for g
    using C' that mtu by (simp add: fq_control_iff flow_ok_def)
  ultimately have "fq_control (m\<lparr>fq_output := i\<rparr>) js'" using C' by (auto simp: fq_control_iff)
  moreover have "fq_ifaces (m\<lparr>fq_output := i\<rparr>) js'" by (rule ifaces_output [OF I assms(2)])
  moreover have "fq_queue (m\<lparr>fq_output := i\<rparr>) xs" by (rule queue_cong [OF Q]) auto
  ultimately show ?thesis using W mtu by (auto simp: fq_inv_def quiet_def fq_weights_def)
qed
lemma step_send:
  assumes inv: "fq_inv m js" and f: "f \<in> set (fq_flows_list m)" "ppi_state (fq_input m f) = STATE_NONE" "0 \<le> n" "n \<le> ppi_mtu (fq_input m f)"
    and s: "PacketPassInterface_Sender_Send d n (fq_input m f) js = (i, js')"
  shows "fq_inv (set_input f i m) js' \<and> quiet m (set_input f i m)"
proof (rule inv_input [OF inv f(1)])
  have F: "flow_ok m f" and I: "ppi_inv (fq_input m f) js" "ppi_mtu (fq_input m f) = ppi_mtu (fq_output m)"
    using inv f(1) by (simp_all add: fq_inv_def fq_control_iff fq_ifaces_def)
  show "ppi_keeps (fq_input m f) js i js'" by (rule ppi_keeps_send [OF I(1) f(2) s])
  have "i = (fq_input m f)\<lparr>ppi_job_operation_data := d, ppi_job_operation_len := n, ppi_state := STATE_OPERATION_PENDING, ppi_cancel_requested := False\<rparr>"
    using s by (auto simp: PacketPassInterface_Sender_Send_def Let_def)
  then show "flow_ok (set_input f i m) f" using F f I(2) by (auto simp: flow_ok_def)
qed

lemma step_input_done:
  assumes inv: "fq_inv m (ppi_job_done (fq_input m f) # js)" and f: "f \<in> set (fq_flows_list m)"
  defines "m' \<equiv> set_input f (PacketPassInterface_job_done (fq_input m f)) m"
  shows "fq_inv m' js \<and> quiet m m'"
  unfolding m'_def
proof (rule inv_input [OF inv f])
  have F: "flow_ok m f" and I: "ppi_inv (fq_input m f) (ppi_job_done (fq_input m f) # js)"
    using inv f by (simp_all add: fq_inv_def fq_control_iff fq_ifaces_def)
  note d = ppi_keeps_job_done [OF I]
  show "ppi_keeps (fq_input m f) (ppi_job_done (fq_input m f) # js) (PacketPassInterface_job_done (fq_input m f)) js" by (rule d(2))
  show "flow_ok (set_input f (PacketPassInterface_job_done (fq_input m f)) m) f" using F d(1,3) by (auto simp: flow_ok_def)
qed

lemma step_input_op:
  assumes inv: "fq_inv m (ppi_job_operation (fq_input m f) # js)" and f: "f \<in> set (fq_flows_list m)"
    and op: "PacketPassInterface_job_operation (fq_input m f) = (i, d, n)"
  shows "\<exists>m' js'. fq_input_handler_send f d n (set_input f i m) js = Some (m', js') \<and> fq_inv m' js' \<and> quiet m m'"
proof -
  let ?m = "set_input f i m" and ?js = "ppi_job_operation (fq_input m f) # js"
  from inv obtain xs where I: "fq_ifaces m ?js" and Q: "fq_queue m xs" and C: "fq_control m ?js" and W: "fq_weights m" by (auto simp: fq_inv_def)
  have ii: "ppi_inv (fq_input m f) ?js" using I f by (simp add: fq_ifaces_def)
  note o1 = ppi_keeps_job_operation [OF ii op]
  have F: "\<And>g. g \<in> set (fq_flows_list m) \<Longrightarrow> flow_ok m g" and S: "sending_ok m ?js"
    and P: "\<forall>p. fq_previous_flow m = Some p \<longrightarrow> p \<in> set (fq_flows_list m) \<and> \<not> fq_is_queued m p" using C by (simp_all add: fq_control_iff)
  have nf: "\<not> fq_is_queued m f" "fq_sending_flow m \<noteq> Some f" "0 \<le> n" "n \<le> ppi_mtu (fq_output m)" using F [OF f] o1 by (auto simp: flow_ok_def)
  have sj: "fq_schedule_job m \<noteq> ppi_job_operation (fq_input m f)" using I f by (auto simp: fq_ifaces_def ppi_jobs_def)
  have "fq_ifaces ?m js" by (rule ifaces_input [OF I f]) (use o1(2) in simp)
  moreover have "fq_queue ?m xs" by (rule queue_cong [OF Q]) auto
  moreover have "sending_ok ?m js" using S sj by (auto simp: sending_ok_def split: option.splits)
  moreover have "flow_ok ?m g" if "g \<in> set (fq_flows_list ?m)" "g \<noteq> f" for g using F [of g] that by (simp add: flow_ok_def)
  moreover have "fq_weights ?m" using W by (simp add: fq_weights_def)
  moreover have "\<forall>p. fq_previous_flow ?m = Some p \<longrightarrow> p \<in> set (fq_flows_list ?m) \<and> \<not> fq_is_queued ?m p" using P by simp
  ultimately obtain m' js' t where h: "fq_input_handler_send f d n ?m js = Some (m', js')" "fq_inv m' js'" "raised ?m f t"
      "\<forall>g. fq_time m' g = (if g = f then t else fq_time ?m g)" "fq_packet_weight m' = fq_packet_weight ?m" "ppi_mtu (fq_output m') = ppi_mtu (fq_output ?m)"
    using input_handler_ok [of ?m js xs f d n] f nf o1 by auto
  have "t = fq_time m f" if "backlogged m f" using that nf h(3) by (auto simp: backlogged_def raised_def)
  then have "quiet m m'" using h(4-6) by (auto simp: quiet_def)
  then show ?thesis using h(1,2) by blast
qed

lemma step_output_op:
  assumes inv: "fq_inv m (ppi_job_operation (fq_output m) # js)" and op: "PacketPassInterface_job_operation (fq_output m) = (i, d, n)"
  shows "fq_inv (m\<lparr>fq_output := i\<rparr>) js \<and> quiet m (m\<lparr>fq_output := i\<rparr>)"
proof -
  have "ppi_inv (fq_output m) (ppi_job_operation (fq_output m) # js)" using inv by (simp add: fq_inv_def fq_ifaces_def)
  from ppi_keeps_job_operation [OF this op] show ?thesis by (intro inv_output [OF inv]) auto
qed

lemma step_output_ready:
  assumes inv: "fq_inv m js" and st: "ppi_state (fq_output m) = STATE_BUSY" and d: "PacketPassInterface_Done (fq_output m) js = (i, js')"
  shows "fq_inv (m\<lparr>fq_output := i\<rparr>) js' \<and> quiet m (m\<lparr>fq_output := i\<rparr>)"
proof -
  have "ppi_inv (fq_output m) js" using inv by (simp add: fq_inv_def fq_ifaces_def)
  from ppi_keeps_done [OF this st d] show ?thesis
    by (rule inv_output [OF inv]) (use st d in \<open>auto simp: PacketPassInterface_Done_def Let_def\<close>)
qed

lemma step_output_cancel:
  assumes inv: "fq_inv m (ppi_job_requestcancel (fq_output m) # js)"
  defines "m' \<equiv> m\<lparr>fq_output := PacketPassInterface_job_requestcancel (fq_output m)\<rparr>"
  shows "fq_inv m' js \<and> quiet m m'"
proof -
  have "ppi_inv (fq_output m) (ppi_job_requestcancel (fq_output m) # js)" using inv by (simp add: fq_inv_def fq_ifaces_def)
  from ppi_keeps_job_requestcancel(2) [OF this] show ?thesis
    unfolding m'_def PacketPassInterface_job_requestcancel_def by (rule inv_output [OF inv]) simp_all
qed

lemma step_cancel:
  assumes inv: "fq_inv m js" and f: "fq_sending_flow m = Some f" "fq_use_cancel m" and m': "PacketPassFairQueueFlow_RequestCancel f m js = (m', js')"
  shows "fq_inv m' js' \<and> quiet m m'"
proof -
  obtain i where i: "PacketPassInterface_Sender_RequestCancel (fq_output m) js = (i, js')" "m' = m\<lparr>fq_output := i\<rparr>"
    using m' by (auto simp: PacketPassFairQueueFlow_RequestCancel_def split: prod.splits)
  have "ppi_inv (fq_output m) js" "ppi_handler_requestcancel (fq_output m)" using inv f(2) by (simp_all add: fq_inv_def fq_ifaces_def)
  from ppi_keeps_cancel [OF this i(1)] show ?thesis unfolding i(2)
    by (rule inv_output [OF inv]) (use i(1) in \<open>auto simp: PacketPassInterface_Sender_RequestCancel_def Let_def split: if_splits\<close>)
qed

lemma step_busy:
  fixes f h
  assumes inv: "fq_inv m js"
  defines "m' \<equiv> PacketPassFairQueueFlow_SetBusyHandler f h m"
  shows "fq_inv m' js \<and> quiet m m'"
proof -
  from inv obtain xs where I: "fq_ifaces m js" and Q: "fq_queue m xs" and C: "fq_control m js" and W: "fq_weights m" by (auto simp: fq_inv_def)
  have m': "m' = set_flow f ((fq_flow m f)\<lparr>fl_handler_busy := h\<rparr>) m" by (simp add: m'_def PacketPassFairQueueFlow_SetBusyHandler_def)
  have "fq_ifaces m' js" by (rule ifaces_cong [OF I]) (auto simp: m')
  moreover have "fq_queue m' xs" by (rule queue_cong [OF Q]) (auto simp: m')
  moreover have "flow_ok m' g" if "flow_ok m g" for g using that by (auto simp: flow_ok_def m')
  then have "fq_control m' js" using C by (auto simp: fq_control_iff sending_ok_def m' split: option.splits)
  ultimately show ?thesis using W by (auto simp: fq_inv_def quiet_def fq_weights_def m')
qed
lemma step_other:
  assumes inv: "fq_inv m js" and js': "distinct js'" "set js' \<inter> own_jobs m = set js \<inter> own_jobs m"
  shows "fq_inv m js' \<and> quiet m m"
proof -
  have j: "j \<in> set js' \<longleftrightarrow> j \<in> set js" if "j \<in> own_jobs m" for j using js'(2) that by blast
  have "fq_ifaces m js'" by (rule ifaces_jobs [OF _ js'(1), of m js]) (use inv j in \<open>auto simp: fq_inv_def own_jobs_def\<close>)
  moreover have "fq_control m js'" by (rule control_jobs [of m js]) (use inv j in \<open>auto simp: fq_inv_def own_jobs_def\<close>)
  ultimately show ?thesis using inv by (auto simp: fq_inv_def quiet_def)
qed

lemma step_flow_init:
  assumes inv: "fq_inv m js" and f: "f \<notin> set (fq_flows_list m)" "ppi_jobs_distinct (fq_input m f)" "ppi_jobs (fq_input m f) \<inter> (set js \<union> own_jobs m) = {}"
    and m': "PacketPassFairQueueFlow_Init f m js = (m', js')"
  shows "fq_inv m' js' \<and> quiet m m'"
proof -
  from inv obtain xs where I: "fq_ifaces m js" and Q: "fq_queue m xs" and C: "fq_control m js" and W: "fq_weights m" by (auto simp: fq_inv_def)
  define i where "i = (fq_input m f)\<lparr>ppi_mtu := ppi_mtu (fq_output m), ppi_handler_requestcancel := False, ppi_handler_done := False, ppi_state := STATE_NONE\<rparr>"
  have js': "js' = js" and m'_def: "m' = (set_flow f ((fq_flow m f)\<lparr>fl_handler_busy := False, fl_input := i, fl_time := 0, fl_is_queued := False\<rparr>) m)
      \<lparr>fq_flows_list := fq_flows_list m @ [f]\<rparr>"
    using m' by (auto simp: PacketPassFairQueueFlow_Init_def PacketPassInterface_Init_def PacketPassInterface_GetMTU_def BPending_Init_def i_def Let_def)
  have fl: "fq_flow m' g = (if g = f then (fq_flow m f)\<lparr>fl_handler_busy := False, fl_input := i, fl_time := 0, fl_is_queued := False\<rparr> else fq_flow m g)" for g
    by (simp add: m'_def)
  have ij: "ppi_jobs i = ppi_jobs (fq_input m f)" by (simp add: i_def ppi_jobs_def)
  have "ppi_inv i js" using f(2,3) I by (auto simp: i_def ppi_inv_def op_inv_def ppi_jobs_distinct_def ppi_jobs_def fq_ifaces_def)
  moreover have "ppi_mtu i = ppi_mtu (fq_output m)" by (simp add: i_def)
  moreover have "fq_schedule_job m \<notin> ppi_jobs i" "ppi_jobs i \<inter> ppi_jobs (fq_output m) = {}" using f(3) ij by (auto simp: own_jobs_def)
  moreover have "ppi_jobs i \<inter> ppi_jobs (fq_input m g) = {} \<and> ppi_jobs (fq_input m g) \<inter> ppi_jobs i = {}" if "g \<in> set (fq_flows_list m)" for g
    using f(3) ij that by (auto simp: own_jobs_def)
  moreover have "g \<noteq> f" if "g \<in> set (fq_flows_list m)" for g using f(1) that by blast
  ultimately have 1: "fq_ifaces m' js" using I f(1) by (simp add: fq_ifaces_def fl m'_def)
  have 2: "fq_queue m' xs"
  proof -
    have "f \<notin> set xs" using Q f(1) by (auto simp: fq_queue_def)
    then have cmp: "\<And>x y. x \<in> set xs \<Longrightarrow> y \<in> set xs \<Longrightarrow> compare_flows m' x y = compare_flows m x y" by (auto simp: compare_flows_def fl)
    have "sorted_wrt (\<lambda>x y. compare_flows m' x y = -1) xs"
      by (rule sorted_wrt_mono_rel [of xs "\<lambda>x y. compare_flows m x y = -1"]) (use Q cmp in \<open>simp_all add: fq_queue_def\<close>)
    then show ?thesis using Q f(1) by (auto simp: fq_queue_def m'_def)
  qed
  have sf: "fq_sending_flow m \<noteq> Some f" "fq_previous_flow m \<noteq> Some f" using C f(1) by (auto simp: fq_control_iff sending_ok_def)
  have "flow_ok m' g" if "g \<in> set (fq_flows_list m) \<or> g = f" for g
  proof (cases "g = f")
    case True
    then show ?thesis using sf by (simp add: flow_ok_def fl m'_def i_def)
  next
    case False
    then have "flow_ok m g" using C that by (simp add: fq_control_iff)
    then show ?thesis using False by (simp add: flow_ok_def fl m'_def)
  qed
  moreover have "sending_ok m' js" using C sf by (auto simp: fq_control_iff sending_ok_def m'_def split: option.splits)
  ultimately have 3: "fq_control m' js" using C f(1) by (auto simp: fq_control_iff m'_def)
  show ?thesis using 1 2 3 W f(1) by (auto simp: fq_inv_def quiet_def fq_weights_def js' m'_def backlogged_def)
qed

lemma sorted_wrt_remove1: "sorted_wrt P xs \<Longrightarrow> sorted_wrt P (remove1 x xs)"
  by (induction xs) (auto dest: set_remove1_subset [THEN subsetD])

definition without_flow :: "'f \<Rightarrow> 'f SAvl \<Rightarrow> ('f, 'j, 'd) PacketPassFairQueue \<Rightarrow> ('f, 'j, 'd) PacketPassFairQueue" where
  "without_flow f t m = m\<lparr>fq_sending_flow := if fq_sending_flow m = Some f then None else fq_sending_flow m,
      fq_previous_flow := if fq_previous_flow m = Some f then None else fq_previous_flow m, fq_queued_tree := t, fq_flows_list := remove1 f (fq_flows_list m)\<rparr>"

lemma without_flow_simps [simp]:
  "fq_output (without_flow f t m) = fq_output m" "fq_use_cancel (without_flow f t m) = fq_use_cancel m"
  "fq_packet_weight (without_flow f t m) = fq_packet_weight m" "fq_sending_len (without_flow f t m) = fq_sending_len m"
  "fq_sending_flow (without_flow f t m) = (if fq_sending_flow m = Some f then None else fq_sending_flow m)"
  "fq_previous_flow (without_flow f t m) = (if fq_previous_flow m = Some f then None else fq_previous_flow m)"
  "fq_queued_tree (without_flow f t m) = t" "fq_flows_list (without_flow f t m) = remove1 f (fq_flows_list m)"
  "fq_freeing (without_flow f t m) = fq_freeing m" "fq_schedule_job (without_flow f t m) = fq_schedule_job m" "fq_flow (without_flow f t m) = fq_flow m"
  by (simp_all add: without_flow_def)

lemma flow_free_ok:
  assumes Q: "fq_queue m xs" and D: "distinct (fq_flows_list m)" and f: "f \<in> set (fq_flows_list m)"
  shows "\<exists>t. PacketPassFairQueueFlow_Free f m js = Some (without_flow f t m, PacketPassInterface_Free (fq_input m f) js) \<and>
    fq_queue (without_flow f t m) (remove1 f xs)"
proof -
  have t: "avl_tree (fq_queued_tree m) xs" "f \<in> set xs \<longleftrightarrow> fq_is_queued m f" using Q f by (auto simp: fq_queue_def)
  then have dx: "distinct xs" by (simp add: avl_tree_distinct)
  have "\<exists>t. (if fq_is_queued m f then SAvl_Remove (fq_queued_tree m) f else Some (fq_queued_tree m)) = Some t \<and> avl_tree t (remove1 f xs)"
    using tree_Remove [OF t(1), of f] t by (cases "fq_is_queued m f") (simp_all add: remove1_idem)
  then obtain t where ft: "(if fq_is_queued m f then SAvl_Remove (fq_queued_tree m) f else Some (fq_queued_tree m)) = Some t" "avl_tree t (remove1 f xs)"
    by blast
  have "PacketPassFairQueueFlow_Free f m js = Some (without_flow f t m, PacketPassInterface_Free (fq_input m f) js)"
    using ft(1) by (cases m) (auto simp: PacketPassFairQueueFlow_Free_def without_flow_def Let_def split: if_splits)
  moreover have "compare_flows (without_flow f t m) = compare_flows m" by (intro ext) (simp add: compare_flows_def)
  moreover have "sorted_wrt (\<lambda>x y. compare_flows m x y = -1) (remove1 f xs)" using Q by (simp add: fq_queue_def sorted_wrt_remove1)
  moreover have "set (remove1 f xs) = {g \<in> set (remove1 f (fq_flows_list m)). fq_is_queued m g}"
    using Q D dx by (auto simp: fq_queue_def)
  ultimately show ?thesis using ft(2) by (intro exI [of _ t]) (simp add: fq_queue_def)
qed
lemma step_flow_free:
  assumes inv: "fq_inv m js" and f: "f \<in> set (fq_flows_list m)" "fq_sending_flow m \<noteq> Some f"
    and m': "PacketPassFairQueueFlow_Free f m js = Some (m', js')"
  shows "fq_inv m' js' \<and> quiet m m'"
proof -
  from inv obtain xs where I: "fq_ifaces m js" and Q: "fq_queue m xs" and C: "fq_control m js" and W: "fq_weights m" by (auto simp: fq_inv_def)
  have D: "distinct (fq_flows_list m)" "distinct js" using I by (simp_all add: fq_ifaces_def)
  from flow_free_ok [OF Q D(1) f(1), of js] m' obtain t where
    m'_def: "m' = without_flow f t m" and js': "js' = PacketPassInterface_Free (fq_input m f) js" and Q': "fq_queue m' (remove1 f xs)" by auto
  have sjs: "distinct js'" "set js' = set js - ppi_jobs (fq_input m f)" using D(2) by (auto simp: js' PacketPassInterface_Free_def job_simps ppi_jobs_def BPending_Free_def)
  have "fq_ifaces m' js"
    using I by (simp add: fq_ifaces_def m'_def D(1))
  then have "fq_ifaces m' js'"
  proof (rule ifaces_jobs [OF _ sjs(1)])
    fix j assume "j \<in> ppi_jobs (fq_output m') \<union> (\<Union>g \<in> set (fq_flows_list m'). ppi_jobs (fq_input m' g))"
    then have "j \<notin> ppi_jobs (fq_input m f)" using I f(1) D(1) unfolding fq_ifaces_def m'_def by auto
    then show "j \<in> set js' \<longleftrightarrow> j \<in> set js" using sjs(2) by blast
  qed
  moreover have "fq_schedule_job m \<in> set js' \<longleftrightarrow> fq_schedule_job m \<in> set js" using I f(1) sjs(2) by (auto simp: fq_ifaces_def)
  then have C': "fq_control m js'" by (rule control_jobs [OF C])
  have "flow_ok m' g" if "g \<in> set (remove1 f (fq_flows_list m))" for g
  proof -
    have "flow_ok m g" using C' that D(1) by (simp add: fq_control_iff)
    then show ?thesis using f(2) by (simp add: flow_ok_def m'_def)
  qed
  moreover have "sending_ok m' js'" using C' f(2) D(1) by (auto simp: fq_control_iff sending_ok_def m'_def split: option.splits)
  ultimately have "fq_control m' js'" using C' D(1) by (auto simp: fq_control_iff m'_def)
  with \<open>fq_ifaces m' js'\<close> Q' W show ?thesis by (auto simp: fq_inv_def quiet_def fq_weights_def m'_def)
qed

text \<open>A step that finishes a packet.\<close>

definition finished :: "('f, 'j, 'd) PacketPassFairQueue \<Rightarrow> 'f \<Rightarrow> int \<Rightarrow> ('f, 'j, 'd) PacketPassFairQueue \<Rightarrow> bool" where
  "finished m f c m' \<longleftrightarrow> fq_sending_flow m = Some f \<and> fq_packet_weight m \<le> c \<and> c \<le> fq_packet_weight m + ppi_mtu (fq_output m) \<and>
     (\<exists>s. times_shifted m f (nat c) s m') \<and> fq_packet_weight m' = fq_packet_weight m \<and> ppi_mtu (fq_output m') = ppi_mtu (fq_output m)"

lemma step_output_done:
  assumes inv: "fq_inv m (ppi_job_done (fq_output m) # js)" and f: "fq_sending_flow m = Some f"
    and h: "fq_output_handler_done (m\<lparr>fq_output := PacketPassInterface_job_done (fq_output m)\<rparr>) js = Some (m', js', busy)"
  shows "fq_inv m' js' \<and> finished m f (packet_cost m) m'"
proof -
  have "0 \<le> fq_sending_len m" "fq_sending_len m \<le> ppi_mtu (fq_output m)" using inv f by (simp_all add: fq_inv_def fq_control_iff sending_ok_def)
  then show ?thesis using output_done_ok [OF inv] f h by (auto simp: finished_def packet_cost_def)
qed

lemma fq_step_ok:
  assumes "fq_step w l w'" "fq_inv (fst w) (snd w)"
  shows "fq_inv (fst w') (snd w') \<and> (l = [] \<and> quiet (fst w) (fst w') \<or> (\<exists>f c. l = [(f, c)] \<and> finished (fst w) f c (fst w')))"
  using assms
proof (induction rule: fq_step.induct)
  case (fs_send f m n d js i js')
  then show ?case using step_send by force
next
  case (fs_input_op f m i d n js m' js')
  then show ?case using step_input_op [of m f js i d n] by auto
next
  case (fs_input_done f m js)
  then show ?case using step_input_done by force
next
  case (fs_output_op m i d n js)
  then show ?case using step_output_op by force
next
  case (fs_output_ready m js i js')
  then show ?case using step_output_ready by force
next
  case (fs_output_cancel m js)
  then show ?case using step_output_cancel by force
next
  case (fs_output_done m f js m' js' busy)
  then show ?case using step_output_done [of m js f m' js' busy] by auto
next
  case (fs_schedule m js m' js')
  then show ?case using schedule_handler_ok [of m js] by (auto simp: quiet_def)
next
  case (fs_cancel m f js)
  then show ?case using step_cancel [of m js f] by (cases "PacketPassFairQueueFlow_RequestCancel f m js") auto
next
  case (fs_busy m f js h)
  then show ?case using step_busy by force
next
  case (fs_flow_init f m js m' js')
  then show ?case using step_flow_init [of m js f m' js'] by auto
next
  case (fs_flow_free f m js m' js')
  then show ?case using step_flow_free [of m js f m' js'] by auto
next
  case (fs_other js' m js)
  then show ?case using step_other [of m js js'] by auto
qed

lemma fq_run_inv:
  "fq_run P w ls w' \<Longrightarrow> fq_inv (fst w) (snd w) \<Longrightarrow> fq_inv (fst w') (snd w') \<and>
     fq_packet_weight (fst w') = fq_packet_weight (fst w) \<and> ppi_mtu (fq_output (fst w')) = ppi_mtu (fq_output (fst w))"
proof (induction rule: fq_run.induct)
  case (fq_snoc w ls w' l w'')
  then show ?case using fq_step_ok [OF fq_snoc.hyps(2)] by (auto simp: quiet_def finished_def)
qed simp
section \<open>Fairness\<close>

definition lead :: "('f, 'j, 'd) PacketPassFairQueue \<Rightarrow> 'f \<Rightarrow> 'f \<Rightarrow> int" where
  "lead m f g = int (unat (fq_time m f)) - int (unat (fq_time m g))"

lemma service_simps [simp]: "service f [] = 0" "service f [(g, c)] = (if g = f then c else 0)" "service f (xs @ ys) = service f xs + service f ys"
  by (simp_all add: service_def)

lemma lead_swap: "lead m f g = - lead m g f"
  by (simp add: lead_def)

lemma finished_queued:
  assumes "fq_inv m js" "finished m x c m'" "backlogged m g" "g \<noteq> x"
  shows "fq_is_queued m g" "g \<in> set (fq_flows_list m)" "fq_time m x \<le> fq_time m g"
  using assms by (auto simp: fq_inv_def fq_control_iff sending_ok_def finished_def backlogged_def)

lemma lead_finished_other:
  assumes "fq_inv m js" "finished m x c m'" "backlogged m f" "backlogged m g" "f \<noteq> x" "g \<noteq> x"
  shows "lead m' f g = lead m f g"
proof -
  note q = finished_queued [OF assms(1,2,3,5)] finished_queued [OF assms(1,2,4,6)]
  from assms(2) obtain s where "times_shifted m x (nat c) s m'" by (auto simp: finished_def)
  then have "unat (fq_time m' f) = unat (fq_time m f) - s" "s \<le> unat (fq_time m f)" "unat (fq_time m' g) = unat (fq_time m g) - s" "s \<le> unat (fq_time m g)"
    using q assms(5,6) by (auto simp: times_shifted_def)
  then show ?thesis by (simp add: lead_def)
qed

lemma lead_finished:
  assumes "fq_inv m js" "finished m f c m'" "backlogged m g" "g \<noteq> f"
  shows "lead m' f g = lead m f g + c \<and> lead m f g \<le> 0 \<and> 0 < c \<and> c \<le> fq_packet_weight m + ppi_mtu (fq_output m)"
proof -
  note q = finished_queued [OF assms]
  have "0 < c" "c \<le> fq_packet_weight m + ppi_mtu (fq_output m)" using assms(1,2) by (auto simp: finished_def fq_inv_def fq_weights_def)
  moreover from assms(2) obtain s where "times_shifted m f (nat c) s m'" by (auto simp: finished_def)
  then have "unat (fq_time m' f) + s = unat (fq_time m f) + nat c" "unat (fq_time m' g) = unat (fq_time m g) - s" "s \<le> unat (fq_time m g)"
    using q assms(4) by (auto simp: times_shifted_def)
  moreover have "unat (fq_time m f) \<le> unat (fq_time m g)" using q(3) by (simp add: word_le_nat_alt)
  ultimately show ?thesis unfolding lead_def by linarith
qed

lemma lead_step:
  assumes s: "fq_step w l w'" and inv: "fq_inv (fst w) (snd w)" and b: "backlogged (fst w) f" "backlogged (fst w) g" "backlogged (fst w') f" "backlogged (fst w') g"
    and "f \<noteq> g"
  defines "C \<equiv> fq_packet_weight (fst w) + ppi_mtu (fq_output (fst w))"
  shows "fq_packet_weight (fst w') + ppi_mtu (fq_output (fst w')) = C \<and> lead (fst w') f g = lead (fst w) f g + service f l - service g l \<and>
    lead (fst w') f g \<le> max (lead (fst w) f g) C \<and> lead (fst w') g f \<le> max (lead (fst w) g f) C"
proof -
  consider "l = []" "quiet (fst w) (fst w')" | x c where "l = [(x, c)]" "finished (fst w) x c (fst w')" using fq_step_ok [OF s inv] by blast
  then show ?thesis
  proof cases
    case 1
    then show ?thesis using b by (auto simp: quiet_def lead_def C_def)
  next
    case (2 x c)
    have w: "fq_packet_weight (fst w') + ppi_mtu (fq_output (fst w')) = C" using 2(2) by (simp add: finished_def C_def)
    consider "x = f" | "x = g" | "x \<noteq> f" "x \<noteq> g" by blast
    then show ?thesis
    proof cases
      case 1
      then show ?thesis using lead_finished [OF inv 2(2) [unfolded 1] b(2)] 2(1) w \<open>f \<noteq> g\<close> lead_swap [of "fst w" g f] lead_swap [of "fst w'" g f] by (auto simp: C_def)
    next
      case x: 2
      then show ?thesis using lead_finished [OF inv 2(2) [unfolded x] b(1)] 2(1) w \<open>f \<noteq> g\<close> lead_swap [of "fst w" f g] lead_swap [of "fst w'" f g] by (auto simp: C_def)
    next
      case 3
      then show ?thesis using lead_finished_other [OF inv 2(2) b(1,2)] lead_finished_other [OF inv 2(2) b(2,1)] 2(1) w by auto
    qed
  qed
qed

lemma lead_run:
  assumes "fq_run {m. backlogged m f \<and> backlogged m g} w ls w'" "fq_inv (fst w) (snd w)" "f \<noteq> g"
  defines "C \<equiv> fq_packet_weight (fst w) + ppi_mtu (fq_output (fst w))"
  shows "fq_inv (fst w') (snd w') \<and> backlogged (fst w') f \<and> backlogged (fst w') g \<and> fq_packet_weight (fst w') + ppi_mtu (fq_output (fst w')) = C \<and>
    lead (fst w') f g = lead (fst w) f g + service f ls - service g ls \<and> lead (fst w') f g \<le> max (lead (fst w) f g) C \<and>
    lead (fst w') g f \<le> max (lead (fst w) g f) C"
  using assms(1,2) unfolding C_def
proof (induction rule: fq_run.induct)
  case (fq_snoc w ls w' l w'')
  then have IH: "fq_inv (fst w') (snd w')" "backlogged (fst w') f" "backlogged (fst w') g" 
      "fq_packet_weight (fst w') + ppi_mtu (fq_output (fst w')) = fq_packet_weight (fst w) + ppi_mtu (fq_output (fst w))"
      "lead (fst w') f g = lead (fst w) f g + service f ls - service g ls" "lead (fst w') f g \<le> max (lead (fst w) f g) (fq_packet_weight (fst w) + ppi_mtu (fq_output (fst w)))"
      "lead (fst w') g f \<le> max (lead (fst w) g f) (fq_packet_weight (fst w) + ppi_mtu (fq_output (fst w)))" by blast+
  have b: "backlogged (fst w'') f" "backlogged (fst w'') g" using fq_snoc by simp_all
  have "fq_inv (fst w'') (snd w'')" using fq_step_ok [OF fq_snoc.hyps(2) IH(1)] by blast
  then show ?case using lead_step [OF fq_snoc.hyps(2) IH(1-3) b assms(3)] IH(4-7) b by (auto simp: max_def split: if_splits)
qed simp
section \<open>Executing runs\<close>

datatype ('f, 'd) fq_cmd = CSend 'f 'd int | CJob | CReady | CInit 'f

fun fq_exec :: "('f::linorder, 'd) fq_cmd \<Rightarrow> ('f, 'j, 'd) fq_world \<Rightarrow> (('f \<times> int) list \<times> ('f, 'j, 'd) fq_world) option" where
  "fq_exec (CSend f d n) (m, js) =
     (if f \<in> set (fq_flows_list m) \<and> ppi_state (fq_input m f) = STATE_NONE \<and> 0 \<le> n \<and> n \<le> ppi_mtu (fq_input m f)
      then (case PacketPassInterface_Sender_Send d n (fq_input m f) js of (i, js') \<Rightarrow> Some ([], set_input f i m, js')) else None)"
| "fq_exec CReady (m, js) =
     (if ppi_state (fq_output m) = STATE_BUSY
      then (case PacketPassInterface_Done (fq_output m) js of (i, js') \<Rightarrow> Some ([], m\<lparr>fq_output := i\<rparr>, js')) else None)"
| "fq_exec (CInit f) (m, js) =
     (if f \<notin> set (fq_flows_list m) \<and> ppi_jobs_distinct (fq_input m f) \<and> ppi_jobs (fq_input m f) \<inter> (set js \<union> own_jobs m) = {}
      then Some ([], PacketPassFairQueueFlow_Init f m js) else None)"
| "fq_exec CJob (m, []) = None"
| "fq_exec CJob (m, j # js) =
     (if j = fq_schedule_job m then map_option (Pair []) (schedule_job_handler m js)
      else if j = ppi_job_operation (fq_output m) then
        (case PacketPassInterface_job_operation (fq_output m) of (i, d, n) \<Rightarrow> Some ([], m\<lparr>fq_output := i\<rparr>, js))
      else if j = ppi_job_done (fq_output m) then
        (case fq_sending_flow m of None \<Rightarrow> None | Some f \<Rightarrow>
           map_option (\<lambda>(m', js', b). ([(f, packet_cost m)], m', js'))
             (fq_output_handler_done (m\<lparr>fq_output := PacketPassInterface_job_done (fq_output m)\<rparr>) js))
      else
        (case find (\<lambda>f. j = ppi_job_operation (fq_input m f)) (fq_flows_list m) of
           Some f \<Rightarrow>
             (case PacketPassInterface_job_operation (fq_input m f) of (i, d, n) \<Rightarrow>
                map_option (Pair []) (fq_input_handler_send f d n (set_input f i m) js))
         | None \<Rightarrow>
             (case find (\<lambda>f. j = ppi_job_done (fq_input m f)) (fq_flows_list m) of
                Some f \<Rightarrow> Some ([], set_input f (PacketPassInterface_job_done (fq_input m f)) m, js)
              | None \<Rightarrow> None)))"

lemma fq_exec_step: "fq_exec c w = Some (l, w') \<Longrightarrow> fq_step w l w'"
proof (induction c w rule: fq_exec.induct)
  case (3 f m js)
  then show ?case using fs_flow_init [of f m js "fst w'" "snd w'"] by (auto split: if_splits)
next
  case (5 m j js)
  show ?case
  proof (cases "j = fq_schedule_job m \<or> j = ppi_job_operation (fq_output m) \<or> j = ppi_job_done (fq_output m)")
    case True
    then show ?thesis using 5 fs_schedule [of m js "fst w'" "snd w'"]
      by (auto split: if_splits prod.splits option.splits intro: fq_step.intros)
  next
    case False
    then show ?thesis using 5 by (auto split: prod.splits option.splits simp: find_Some_iff intro: fq_step.intros)
  qed
qed (auto split: if_splits prod.splits intro: fq_step.intros)

fun fq_exec_run :: "(('f::linorder, 'j, 'd) PacketPassFairQueue \<Rightarrow> bool) \<Rightarrow> ('f, 'd) fq_cmd list \<Rightarrow> ('f, 'j, 'd) fq_world \<Rightarrow> (('f \<times> int) list \<times> ('f, 'j, 'd) fq_world) option" where
  "fq_exec_run P [] w = (if P (fst w) then Some ([], w) else None)"
| "fq_exec_run P (c # cs) w =
     (if P (fst w) then
        (case fq_exec c w of None \<Rightarrow> None | Some (l, w') \<Rightarrow> map_option (\<lambda>(ls, w''). (l @ ls, w'')) (fq_exec_run P cs w'))
      else None)"

lemma fq_run_Cons: "fq_run P w' ls w'' \<Longrightarrow> fst w \<in> P \<Longrightarrow> fq_step w l w' \<Longrightarrow> fq_run P w (l @ ls) w''"
proof (induction rule: fq_run.induct)
  case (fq_nil w')
  then have "fq_run P w ([] @ l) w'" by (intro fq_run.fq_snoc [OF fq_run.fq_nil])
  then show ?case by simp
next
  case (fq_snoc w' ls w'' l' w3)
  then have "fq_run P w ((l @ ls) @ l') w3" by (blast intro: fq_run.fq_snoc)
  then show ?case by simp
qed

lemma fq_exec_run: "fq_exec_run P cs w = Some (ls, w') \<Longrightarrow> fq_run {m. P m} w ls w'"
proof (induction cs arbitrary: w ls)
  case (Cons c cs)
  then show ?case by (fastforce split: if_splits option.splits prod.splits dest: fq_exec_step intro: fq_run_Cons)
qed (auto intro: fq_nil split: if_splits)
section \<open>The fair queue\<close>

text \<open>What the user of a queue has to bring: an idle output whose MTU is an \<open>int\<close>, a positive weight, and a job of its own.\<close>

definition fq_ready :: "('j, 'd) ppi \<Rightarrow> bool \<Rightarrow> int \<Rightarrow> 'j \<Rightarrow> 'j jobs \<Rightarrow> bool" where
  "fq_ready output use_cancel packet_weight job js \<longleftrightarrow> ppi_inv output js \<and> ppi_state output = STATE_NONE \<and> 0 \<le> ppi_mtu output \<and> ppi_mtu output \<le> INT_MAX \<and>
     0 < packet_weight \<and> packet_weight \<le> INT_MAX \<and> (use_cancel \<longrightarrow> PacketPassInterface_HasCancel output) \<and> job \<notin> ppi_jobs output \<and> job \<notin> set js"

lemma init_ok:
  assumes r: "fq_ready output use_cancel packet_weight (fq_schedule_job m) js"
  shows "\<exists>m'. PacketPassFairQueue_Init output use_cancel packet_weight m js = Some (m', js) \<and> fq_inv m' js \<and> fq_flows_list m' = [] \<and>
    fq_packet_weight m' = packet_weight \<and> ppi_mtu (fq_output m') = ppi_mtu output"
proof -
  have b: "0 \<le> packet_weight" "0 \<le> ppi_mtu output" "packet_weight + ppi_mtu output < 2 ^ 64" using r by (auto simp: fq_ready_def)
  have "unat (of_int packet_weight :: u64) = nat packet_weight" "unat (of_int (ppi_mtu output) :: u64) = nat (ppi_mtu output)"
    using unat_cost [of packet_weight 0] unat_cost [of "ppi_mtu output" 0] b by simp_all
  then have "\<not> - 1 - (of_int (ppi_mtu output) :: u64) < of_int packet_weight" using b by (simp add: time_fits)
  then have fits: "of_int packet_weight \<le> - 1 - (of_int (ppi_mtu output) :: u64)" by simp
  define m' where "m' = m\<lparr>fq_output := PacketPassInterface_Sender_Init output, fq_use_cancel := use_cancel, fq_packet_weight := packet_weight, fq_sending_flow := None,
    fq_previous_flow := None, fq_queued_tree := SAvl_Init (fq_queued_tree m), fq_flows_list := [], fq_freeing := False\<rparr>"
  have "PacketPassFairQueue_Init output use_cancel packet_weight m js = Some (m', js)"
    using fits by (simp add: PacketPassFairQueue_Init_def PacketPassInterface_GetMTU_def m'_def BPending_Init_def Let_def)
  moreover have "fq_ifaces m' js" using r
    by (auto simp: fq_ifaces_def m'_def fq_ready_def ppi_inv_def op_inv_def ppi_jobs_def ppi_jobs_distinct_def PacketPassInterface_Sender_Init_def PacketPassInterface_HasCancel_def)
  moreover have "fq_queue m' []" by (simp add: fq_queue_def m'_def SAvl_Init_def avl_tree_Init)
  moreover have "fq_control m' js" using r by (simp add: fq_control_def m'_def fq_ready_def PacketPassInterface_Sender_Init_def)
  moreover have "fq_weights m'" using r b by (simp add: fq_weights_def m'_def fq_ready_def PacketPassInterface_Sender_Init_def)
  ultimately show ?thesis by (intro exI [of _ m']) (auto simp: fq_inv_def m'_def PacketPassInterface_Sender_Init_def)
qed
lemma fq_reachable:
  assumes "fq_ready output use_cancel packet_weight (fq_schedule_job m0) js0"
    and "PacketPassFairQueue_Init output use_cancel packet_weight m0 js0 = Some (m1, js1)"
    and "fq_run UNIV (m1, js1) ls (m, js)"
  shows "fq_inv m js" "fq_packet_weight m = packet_weight" "ppi_mtu (fq_output m) = ppi_mtu output"
  using init_ok [OF assms(1)] assms(2) fq_run_inv [OF assms(3)] by auto

text \<open>C12. The memory of a fair queue stays well formed in every run that starts with
  \<open>PacketPassFairQueue_Init\<close>, and no handler gets stuck: the tree is a balanced tree of exactly the
  queued flows of the list, in the order of \<open>compare_flows\<close>; when a job of the queue is the next one to run, the assertions at
  the beginning of its handler hold, and the handler returns (it dereferences no null pointer).\<close>

theorem fair_queue_well_formed:
  assumes "fq_ready output use_cancel packet_weight (fq_schedule_job m0) js0"
    and "PacketPassFairQueue_Init output use_cancel packet_weight m0 js0 = Some (m1, js1)"
    and "fq_run UNIV (m1, js1) ls (m, js)"
  shows "(\<exists>xs. avl_tree (fq_queued_tree m) xs \<and> sorted_wrt (\<lambda>f g. compare_flows m f g = -1) xs \<and> set xs = {f \<in> set (fq_flows_list m). fq_is_queued m f}) \<and>
    (\<forall>rest. js = fq_schedule_job m # rest \<longrightarrow> fq_sending_flow m = None \<and> schedule_job_handler m rest \<noteq> None) \<and>
    (\<forall>rest. js = ppi_job_done (fq_output m) # rest \<longrightarrow> fq_sending_flow m \<noteq> None \<and> fq_previous_flow m = None \<and> fq_schedule_job m \<notin> set rest \<and>
       fq_output_handler_done (m\<lparr>fq_output := PacketPassInterface_job_done (fq_output m)\<rparr>) rest \<noteq> None) \<and>
    (\<forall>f \<in> set (fq_flows_list m). \<forall>rest. js = ppi_job_operation (fq_input m f) # rest \<longrightarrow> fq_sending_flow m \<noteq> Some f \<and> \<not> fq_is_queued m f \<and>
       (case PacketPassInterface_job_operation (fq_input m f) of (i, d, n) \<Rightarrow> fq_input_handler_send f d n (set_input f i m) rest \<noteq> None))"
proof (intro conjI allI impI ballI)
  note I = fq_reachable(1) [OF assms]
  show "\<exists>xs. avl_tree (fq_queued_tree m) xs \<and> sorted_wrt (\<lambda>f g. compare_flows m f g = -1) xs \<and> set xs = {f \<in> set (fq_flows_list m). fq_is_queued m f}"
    using I by (auto simp: fq_inv_def fq_queue_def)
  have s: "fq_sending_flow m = None" if "fq_schedule_job m \<in> set js" using I that by (cases "fq_sending_flow m") (auto simp: fq_inv_def fq_control_iff sending_ok_def)
  fix rest
  show "fq_sending_flow m = None" "schedule_job_handler m rest \<noteq> None" if "js = fq_schedule_job m # rest"
    using s schedule_handler_ok [of m rest] I that by auto
  show "fq_sending_flow m \<noteq> None" "fq_previous_flow m = None" "fq_schedule_job m \<notin> set rest"
    "fq_output_handler_done (m\<lparr>fq_output := PacketPassInterface_job_done (fq_output m)\<rparr>) rest \<noteq> None" if j: "js = ppi_job_done (fq_output m) # rest"
    using output_done_ok [of m rest] I j by (auto simp: fq_inv_def fq_control_iff sending_ok_def)
  fix f assume f: "f \<in> set (fq_flows_list m)"
  show "fq_sending_flow m \<noteq> Some f" "\<not> fq_is_queued m f"
    "case PacketPassInterface_job_operation (fq_input m f) of (i, d, n) \<Rightarrow> fq_input_handler_send f d n (set_input f i m) rest \<noteq> None"
    if j: "js = ppi_job_operation (fq_input m f) # rest"
  proof -
    have "ppi_state (fq_input m f) = STATE_OPERATION_PENDING" "flow_ok m f"
      using I f j by (auto simp: fq_inv_def fq_ifaces_def ppi_inv_def op_inv_def fq_control_iff)
    then show "fq_sending_flow m \<noteq> Some f" "\<not> fq_is_queued m f" by (auto simp: flow_ok_def)
    show "case PacketPassInterface_job_operation (fq_input m f) of (i, d, n) \<Rightarrow> fq_input_handler_send f d n (set_input f i m) rest \<noteq> None"
      using step_input_op [of m f rest] I f j by (auto split: prod.splits)
  qed
qed

text \<open>C13. A fair queue loses no packet, never idles while a packet waits, and serves the flow that is most behind, in every run
  that starts with \<open>PacketPassFairQueue_Init\<close>: a packet accepted from a flow is waiting in the tree or being sent; while one
  waits, a packet is being sent or the schedule job is pending; and the packet at the output is the packet of
  the sending flow, whose time is not above that of any waiting flow.\<close>

theorem fair_queue_serves_least:
  assumes "fq_ready output use_cancel packet_weight (fq_schedule_job m0) js0"
    and "PacketPassFairQueue_Init output use_cancel packet_weight m0 js0 = Some (m1, js1)"
    and "fq_run UNIV (m1, js1) ls (m, js)"
  shows "(\<forall>f \<in> set (fq_flows_list m). ppi_state (fq_input m f) = STATE_BUSY \<longrightarrow> fq_is_queued m f \<or> fq_sending_flow m = Some f) \<and>
    (\<forall>f \<in> set (fq_flows_list m). fq_is_queued m f \<longrightarrow> fq_sending_flow m \<noteq> None \<or> fq_schedule_job m \<in> set js) \<and>
    (\<forall>f. fq_sending_flow m = Some f \<longrightarrow> ppi_state (fq_output m) \<noteq> STATE_NONE \<and> ppi_state (fq_input m f) = STATE_BUSY \<and>
       ppi_job_operation_data (fq_output m) = ppi_job_operation_data (fq_input m f) \<and> ppi_job_operation_len (fq_output m) = ppi_job_operation_len (fq_input m f) \<and>
       (\<forall>g \<in> set (fq_flows_list m). fq_is_queued m g \<longrightarrow> fq_time m f \<le> fq_time m g))"
proof -
  note I = fq_reachable(1) [OF assms]
  have F: "flow_ok m f" if "f \<in> set (fq_flows_list m)" for f using I that by (simp add: fq_inv_def fq_control_iff)
  have S: "sending_ok m js" using I by (simp add: fq_inv_def fq_control_iff)
  show ?thesis
  proof (cases "fq_sending_flow m")
    case None
    then show ?thesis using F S by (auto simp: flow_ok_def sending_ok_def)
  next
    case (Some f)
    then show ?thesis using F S F [of f] by (auto simp: flow_ok_def sending_ok_def)
  qed
qed

text \<open>C5. Two flows that both always have a packet waiting, in transmission or just sent get the same service, up to a constant.
  The service of a flow is the sum of the lengths of its packets, each with the weight of a packet.  Over any such
  part of a run the difference of the times of the flows changes exactly by the difference of
  their services, although the times are 64 bit numbers that are rebased when they would overflow; it never grows beyond the cost \<open>C\<close> of the
  largest packet if it was not larger before; so the services differ by at most \<open>2 * C\<close> when the flows start
  within \<open>C\<close> of each other.\<close>

theorem fair_queue_fairness:
  assumes "fq_ready output use_cancel packet_weight (fq_schedule_job m0) js0"
    and "PacketPassFairQueue_Init output use_cancel packet_weight m0 js0 = Some (m1, js1)"
    and "fq_run UNIV (m1, js1) ls0 (m, js)"
    and "fq_run {m. backlogged m f \<and> backlogged m g} (m, js) ls (m', js')" and "f \<noteq> g"
  defines "C \<equiv> packet_weight + ppi_mtu output"
  shows "lead m' f g = lead m f g + service f ls - service g ls \<and> \<bar>lead m' f g\<bar> \<le> max (\<bar>lead m f g\<bar>) C \<and>
    \<bar>service f ls - service g ls\<bar> \<le> \<bar>lead m f g\<bar> + max (\<bar>lead m f g\<bar>) C"
proof -
  note I = fq_reachable [OF assms(1-3)]
  have "lead m' f g = lead m f g + service f ls - service g ls" "lead m' f g \<le> max (lead m f g) C" "lead m' g f \<le> max (lead m g f) C"
    using lead_run [OF assms(4)] I assms(5) by (auto simp: C_def)
  then show ?thesis using lead_swap [of m g f] lead_swap [of m' g f] by linarith
qed
text \<open>Two flows that share a queue.\<close>

declare CAvl_descend.simps [code] CAvl_climb.simps [code] insert_search.simps [code] CAvl_rebalance.simps [code]

definition ex_ppi :: "nat \<Rightarrow> (nat, nat) ppi" where
  "ex_ppi k = \<lparr>ppi_mtu = 100, ppi_handler_requestcancel = False, ppi_handler_done = False, ppi_job_operation = k, ppi_job_operation_data = 0,
     ppi_job_operation_len = 0, ppi_job_requestcancel = k + 1, ppi_job_done = k + 2, ppi_state = STATE_NONE, ppi_cancel_requested = False\<rparr>"

definition ex_fq :: "(nat, nat, nat) PacketPassFairQueue" where
  "ex_fq = \<lparr>fq_output = ex_ppi 0, fq_use_cancel = False, fq_packet_weight = 0, fq_sending_flow = None, fq_sending_len = 0, fq_previous_flow = None,
     fq_queued_tree = example_avl, fq_flows_list = [], fq_freeing = False, fq_schedule_job = 3,
     fq_flow = \<lambda>f. \<lparr>fl_handler_busy = False, fl_input = ex_ppi (10 + 10 * f), fl_time = 5, fl_is_queued = False, fl_data = 0, fl_data_len = 0\<rparr>\<rparr>"

definition ex_fq_start :: "(nat, nat, nat) fq_world" where
  "ex_fq_start = the (PacketPassFairQueue_Init (ex_ppi 0) False 1 ex_fq [])"

definition ex_fq_cmds1 :: "(nat, nat) fq_cmd list" where
  "ex_fq_cmds1 = [CInit 0, CInit 1, CSend 0 7 40, CJob, CSend 1 8 20, CJob]"

definition ex_fq_cmds2 :: "(nat, nat) fq_cmd list" where
  "ex_fq_cmds2 = [CJob, CReady, CJob, CJob, CSend 0 9 50, CJob, CJob, CJob, CReady, CJob]"

definition ex_fq_mid :: "(nat, nat, nat) fq_world" where
  "ex_fq_mid = snd (the (fq_exec_run (\<lambda>_. True) ex_fq_cmds1 ex_fq_start))"

lemma ex_fq_init: "PacketPassFairQueue_Init (ex_ppi 0) False 1 ex_fq [] \<noteq> None"
  by code_simp

lemma ex_fq_run1: "map_option fst (fq_exec_run (\<lambda>_. True) ex_fq_cmds1 ex_fq_start) = Some []"
  by code_simp
lemma ex_fq_run2: "map_option fst (fq_exec_run (\<lambda>m. backlogged m 0 \<and> backlogged m 1) ex_fq_cmds2 ex_fq_mid) = Some [(0, 41), (1, 21)]"
  by code_simp

lemma ex_fq_lead: "lead (fst ex_fq_mid) 0 1 = 0"
  by code_simp

lemma ex_fq_mid_queued: "fq_is_queued (fst ex_fq_mid) 1" "fq_sending_flow (fst ex_fq_mid) = Some 0" "fq_flows_list (fst ex_fq_mid) = [0, 1]"
  by code_simp+
lemma ex_fq_ready: "fq_ready (ex_ppi 0) False 1 (fq_schedule_job ex_fq) []"
  by (simp add: fq_ready_def ex_ppi_def ex_fq_def ppi_inv_def op_inv_def ppi_jobs_distinct_def ppi_jobs_def)

lemma ex_fq_starts: "PacketPassFairQueue_Init (ex_ppi 0) False 1 ex_fq [] = Some (fst ex_fq_start, snd ex_fq_start)"
  using ex_fq_init by (auto simp: ex_fq_start_def)

lemma ex_fq_reached: "fq_run UNIV (fst ex_fq_start, snd ex_fq_start) [] (fst ex_fq_mid, snd ex_fq_mid)"
proof -
  obtain w where "fq_exec_run (\<lambda>_. True) ex_fq_cmds1 ex_fq_start = Some ([], w)" using ex_fq_run1 by auto
  then show ?thesis using fq_exec_run [of "\<lambda>_. True"] by (fastforce simp: ex_fq_mid_def)
qed

theorem fair_queue_well_formed_witness:
  "\<exists>xs. avl_tree (fq_queued_tree (fst ex_fq_mid)) xs \<and> set xs = {1}"
proof -
  from fair_queue_well_formed [OF ex_fq_ready ex_fq_starts ex_fq_reached] obtain xs where
    "avl_tree (fq_queued_tree (fst ex_fq_mid)) xs" "set xs = {f \<in> set (fq_flows_list (fst ex_fq_mid)). fq_is_queued (fst ex_fq_mid) f}" by blast
  moreover have "\<not> fq_is_queued (fst ex_fq_mid) 0" by code_simp
  ultimately show ?thesis using ex_fq_mid_queued by (intro exI [of _ xs]) auto
qed

theorem fair_queue_serves_least_witness:
  "fq_time (fst ex_fq_mid) 0 \<le> fq_time (fst ex_fq_mid) 1 \<and> ppi_job_operation_len (fq_output (fst ex_fq_mid)) = ppi_job_operation_len (fq_input (fst ex_fq_mid) 0)"
proof -
  have "1 \<in> set (fq_flows_list (fst ex_fq_mid))" by (simp add: ex_fq_mid_queued(3))
  with fair_queue_serves_least [OF ex_fq_ready ex_fq_starts ex_fq_reached] ex_fq_mid_queued(1,2) show ?thesis by blast
qed

theorem fair_queue_fairness_witness:
  "\<exists>w'. fq_run {m. backlogged m 0 \<and> backlogged m 1} ex_fq_mid [(0, 41), (1, 21)] w' \<and> lead (fst w') 0 1 = 20 \<and> \<bar>(41 - 21)::int\<bar> \<le> 101"
proof -
  obtain w' where "fq_exec_run (\<lambda>m. backlogged m 0 \<and> backlogged m 1) ex_fq_cmds2 ex_fq_mid = Some ([(0, 41), (1, 21)], w')"
    using ex_fq_run2 by auto
  then have r: "fq_run {m. backlogged m 0 \<and> backlogged m 1} (fst ex_fq_mid, snd ex_fq_mid) [(0, 41), (1, 21)] (fst w', snd w')"
    using fq_exec_run by fastforce
  have "(0::nat) \<noteq> 1" by simp
  from fair_queue_fairness [OF ex_fq_ready ex_fq_starts ex_fq_reached r this] have "lead (fst w') 0 1 = 20 \<and> \<bar>(41 - 21)::int\<bar> \<le> 101"
    by (simp add: ex_fq_lead [unfolded One_nat_def] ex_ppi_def service_def)
  then show ?thesis using r by (intro exI [of _ w']) simp
qed

end
