(* ===== verification/CommandLine.thy ===== *)
theory CommandLine
  imports Main
begin

text \<open>
  Command lines as text: \<open>utils/Commandline.kt\<close> of the Android service.  Strings are character lists; the
  tokenizer is the part of \<open>java.util.StringTokenizer\<close> the code uses, with delimiters returned as tokens.
  The lemmas show that the tokens may be read one character at a time, and that parsing
  inverts quoting.
\<close>

section \<open>Model\<close>

function string_tokens :: "string \<Rightarrow> string \<Rightarrow> string list" where
  "string_tokens delim [] = []"
| "string_tokens delim (c # cs) =
     (if c \<in> set delim then [c] # string_tokens delim cs
      else (c # takeWhile (\<lambda>x. x \<notin> set delim) cs) # string_tokens delim (dropWhile (\<lambda>x. x \<notin> set delim) cs))"
  by pat_completeness auto
termination by (relation "measure (length \<circ> snd)") (auto simp: le_imp_less_Suc length_dropWhile_le)

text \<open>Quoting.\<close>

definition cl_quote :: "char \<Rightarrow> string" where
  "cl_quote c = (if c \<in> {CHR '' '', CHR 0x5C, CHR 0x22, CHR 0x27} then [CHR 0x5C, c] else [c])"

fun cl_append :: "string list \<Rightarrow> string \<Rightarrow> string" where
  "cl_append [] result = result"
| "cl_append (arg # args) result =
     (let result = (if result \<noteq> [] then result @ '' '' else result)
      in cl_append args (result @ concat (map cl_quote arg)))"

definition cl_toString :: "string list option \<Rightarrow> string" where
  "cl_toString args = (case args of None \<Rightarrow> '''' | Some args \<Rightarrow> cl_append args '''')"

text \<open>The state machine of the parser.\<close>

datatype cl_state = normal | inQuote | inDoubleQuote

datatype cl_error = Unbalanced_quotes | Escape_following_nothing

record cl_parser =
  cl_state :: cl_state
  cl_result :: "string list"
  cl_current :: string
  lastTokenHasBeenQuoted :: bool
  lastTokenIsSlash :: bool

definition cl_put :: "string \<Rightarrow> cl_parser \<Rightarrow> cl_parser" where
  "cl_put s p = p\<lparr>cl_current := cl_current p @ s\<rparr>"

definition cl_token :: "string \<Rightarrow> cl_parser \<Rightarrow> cl_parser" where
  "cl_token nextTok p =
     (case cl_state p of
        inQuote \<Rightarrow>
          if nextTok = [CHR 0x27] then p\<lparr>lastTokenHasBeenQuoted := True, cl_state := normal\<rparr> else cl_put nextTok p
      | inDoubleQuote \<Rightarrow>
          if nextTok = [CHR 0x22] then
            (if lastTokenIsSlash p then (cl_put nextTok p)\<lparr>lastTokenIsSlash := False\<rparr>
             else p\<lparr>lastTokenHasBeenQuoted := True, cl_state := normal\<rparr>)
          else if nextTok = [CHR 0x5C] then
            (if lastTokenIsSlash p then (cl_put nextTok p)\<lparr>lastTokenIsSlash := False\<rparr> else p\<lparr>lastTokenIsSlash := True\<rparr>)
          else
            (let p = (if lastTokenIsSlash p then (cl_put [CHR 0x5C] p)\<lparr>lastTokenIsSlash := False\<rparr> else p) in cl_put nextTok p)
      | normal \<Rightarrow>
          (let p =
             (if lastTokenIsSlash p then (cl_put nextTok p)\<lparr>lastTokenIsSlash := False\<rparr>
              else if nextTok = [CHR 0x5C] then p\<lparr>lastTokenIsSlash := True\<rparr>
              else if nextTok = [CHR 0x27] then p\<lparr>cl_state := inQuote\<rparr>
              else if nextTok = [CHR 0x22] then p\<lparr>cl_state := inDoubleQuote\<rparr>
              else if nextTok = '' '' then
                (if lastTokenHasBeenQuoted p \<or> cl_current p \<noteq> []
                 then p\<lparr>cl_result := cl_result p @ [cl_current p], cl_current := []\<rparr> else p)
              else cl_put nextTok p)
           in p\<lparr>lastTokenHasBeenQuoted := False\<rparr>))"

definition cl_start :: cl_parser where
  "cl_start = \<lparr>cl_state = normal, cl_result = [], cl_current = [], lastTokenHasBeenQuoted = False, lastTokenIsSlash = False\<rparr>"

definition cl_finish :: "cl_parser \<Rightarrow> cl_error + string list" where
  "cl_finish p =
     (let p = (if lastTokenHasBeenQuoted p \<or> cl_current p \<noteq> [] then p\<lparr>cl_result := cl_result p @ [cl_current p]\<rparr> else p) in
      if cl_state p = inQuote \<or> cl_state p = inDoubleQuote then Inl Unbalanced_quotes
      else if lastTokenIsSlash p then Inl Escape_following_nothing
      else Inr (cl_result p))"

definition cl_delim :: string where
  "cl_delim = [CHR 0x5C, CHR 0x22, CHR 0x27, CHR '' '']"

definition translateCommandline :: "string option \<Rightarrow> cl_error + string list" where
  "translateCommandline toProcess =
     (case toProcess of
        None \<Rightarrow> Inr []
      | Some s \<Rightarrow> if s = [] then Inr [] else cl_finish (fold cl_token (string_tokens cl_delim s) cl_start))"

section \<open>Reading one character at a time\<close>

text \<open>A token that is no delimiter has the effect of its characters.\<close>

lemma cl_token_run:
  assumes "c \<notin> set cl_delim" "set cs \<inter> set cl_delim = {}"
  shows "cl_token (c # cs) p = fold (\<lambda>c. cl_token [c]) (c # cs) p"
  using assms
proof (induction cs arbitrary: c p)
  case (Cons d ds)
  have "cl_token (c # d # ds) p = cl_token (d # ds) (cl_token [c] p)"
    using Cons.prems by (cases "cl_state p") (auto simp: cl_token_def cl_delim_def cl_put_def Let_def)
  then show ?case using Cons by simp
qed simp

lemma cl_tokens_chars: "fold cl_token (string_tokens cl_delim s) p = fold (\<lambda>c. cl_token [c]) s p"
proof (induction cl_delim s arbitrary: p rule: string_tokens.induct)
  case (2 c cs)
  show ?case
  proof (cases "c \<in> set cl_delim")
    case True
    then show ?thesis using 2 by simp
  next
    case False
    let ?P = "\<lambda>x. x \<notin> set cl_delim"
    have "fold (\<lambda>c. cl_token [c]) (c # cs) p = fold (\<lambda>c. cl_token [c]) (dropWhile ?P cs) (fold (\<lambda>c. cl_token [c]) (c # takeWhile ?P cs) p)"
      by (metis append_Cons comp_apply fold_append takeWhile_dropWhile_id)
    moreover have "set (takeWhile ?P cs) \<inter> set cl_delim = {}" by (auto dest: set_takeWhileD)
    ultimately show ?thesis using 2 False cl_token_run [of c "takeWhile ?P cs"] by simp
  qed
qed simp

section \<open>Quoting and parsing\<close>

lemma cl_quote_read:
  assumes "cl_state p = normal" "\<not> lastTokenIsSlash p"
  shows "fold (\<lambda>c. cl_token [c]) (concat (map cl_quote arg)) p =
    p\<lparr>cl_current := cl_current p @ arg, lastTokenHasBeenQuoted := lastTokenHasBeenQuoted p \<and> arg = []\<rparr>"
  using assms
proof (induction arg arbitrary: p)
  case (Cons c cs)
  let ?q = "p\<lparr>cl_current := cl_current p @ [c], lastTokenHasBeenQuoted := False\<rparr>"
  have "fold (\<lambda>c. cl_token [c]) (cl_quote c) p = ?q"
    using Cons.prems by (auto simp: cl_quote_def cl_token_def cl_put_def)
  moreover have "fold (\<lambda>c. cl_token [c]) (concat (map cl_quote cs)) ?q = ?q\<lparr>cl_current := cl_current ?q @ cs, lastTokenHasBeenQuoted := lastTokenHasBeenQuoted ?q \<and> cs = []\<rparr>"
    by (rule Cons.IH) (use Cons.prems in simp_all)
  ultimately show ?case by simp
qed simp

definition cl_words :: "cl_parser \<Rightarrow> string list" where
  "cl_words p = cl_result p @ (if cl_current p = [] then [] else [cl_current p])"

definition cl_plain :: "cl_parser \<Rightarrow> bool" where
  "cl_plain p \<longleftrightarrow> cl_state p = normal \<and> \<not> lastTokenIsSlash p \<and> \<not> lastTokenHasBeenQuoted p"

lemma cl_space: "cl_plain p \<Longrightarrow> cl_plain (cl_token '' '' p) \<and> cl_words (cl_token '' '' p) = cl_words p \<and> cl_current (cl_token '' '' p) = []"
  by (auto simp: cl_plain_def cl_token_def cl_words_def)

lemma cl_append_read:
  assumes "cl_plain (fold (\<lambda>c. cl_token [c]) result cl_start)"
  shows "\<exists>p. fold (\<lambda>c. cl_token [c]) (cl_append args result) cl_start = p \<and> cl_plain p \<and>
    cl_words p = cl_words (fold (\<lambda>c. cl_token [c]) result cl_start) @ filter (\<lambda>arg. arg \<noteq> []) args"
  using assms
proof (induction args arbitrary: result)
  case (Cons arg args)
  define r where "r = (if result \<noteq> [] then result @ '' '' else result)"
  define p where "p = fold (\<lambda>c. cl_token [c]) r cl_start"
  have p: "cl_plain p" "cl_words p = cl_words (fold (\<lambda>c. cl_token [c]) result cl_start)" "cl_current p = []"
    using Cons.prems cl_space by (auto simp: p_def r_def cl_start_def)
  have q: "fold (\<lambda>c. cl_token [c]) (r @ concat (map cl_quote arg)) cl_start = p\<lparr>cl_current := arg\<rparr>"
    using cl_quote_read [of p arg] p by (simp add: cl_plain_def p_def [symmetric])
  have "cl_plain (p\<lparr>cl_current := arg\<rparr>)" using p(1) by (simp add: cl_plain_def)
  with Cons.IH [of "r @ concat (map cl_quote arg)"] q p show ?case by (auto simp: cl_words_def r_def Let_def)
qed simp

lemma cl_finish_plain: "cl_plain p \<Longrightarrow> cl_finish p = Inr (cl_words p)"
  by (auto simp: cl_finish_def cl_plain_def cl_words_def)

text \<open>C33. Parsing inverts quoting: whatever characters the arguments contain, \<open>translateCommandline\<close> splits the
  command line that \<open>toString\<close> builds without error into exactly the arguments it was built from, except that empty arguments are lost.\<close>

theorem commandline_roundtrip: "translateCommandline (Some (cl_toString (Some args))) = Inr (filter (\<lambda>arg. arg \<noteq> []) args)"
proof -
  have "cl_plain cl_start" "cl_words cl_start = []" by (simp_all add: cl_plain_def cl_start_def cl_words_def)
  with cl_append_read [of "[]" args] obtain p where
    p: "fold (\<lambda>c. cl_token [c]) (cl_append args []) cl_start = p" "cl_plain p" "cl_words p = filter (\<lambda>arg. arg \<noteq> []) args" by auto
  show ?thesis
  proof (cases "cl_append args [] = []")
    case True
    then have "p = cl_start" using p(1) by simp
    then show ?thesis using True p(3) \<open>cl_words cl_start = []\<close> by (simp add: translateCommandline_def cl_toString_def)
  next
    case False
    then show ?thesis using p cl_finish_plain by (simp add: translateCommandline_def cl_toString_def cl_tokens_chars)
  qed
qed

end
