(* ===== verification/PluginText.thy ===== *)
theory PluginText
  imports CommandLine "HOL-Library.AList" "HOL-Library.Sublist"
begin

text \<open>
  The options of a plugin as text: \<open>plugin/PluginOptions.kt\<close> and \<open>plugin/PluginConfiguration.kt\<close> of the
  Android service.  A \<open>PluginOptions\<close> is a hash map with an id; \<open>toString\<close> takes the entries in the order
  in which the hash map enumerates them.  The lemmas show that the texts are read back, for every order.
\<close>

section \<open>Model of PluginOptions\<close>

record PluginOptions =
  po_id :: string
  po_map :: "string \<rightharpoonup> string option"

definition po_empty :: PluginOptions where
  "po_empty = \<lparr>po_id = '''', po_map = Map.empty\<rparr>"

definition isISOControl :: "char \<Rightarrow> bool" where
  "isISOControl c \<longleftrightarrow> (of_char c :: nat) \<le> 0x1F \<or> 0x7F \<le> (of_char c :: nat) \<and> (of_char c :: nat) \<le> 0x9F"

datatype po_error = Control_characters | No_such_element

definition po_delim :: string where
  "po_delim = [CHR 0x5C, CHR ''='', CHR '';'']"

text \<open>The end of an option.\<close>

definition po_end :: "bool \<Rightarrow> string option \<Rightarrow> string \<Rightarrow> PluginOptions \<Rightarrow> PluginOptions" where
  "po_end parseId key current o1 =
     (case key of
        Some k \<Rightarrow> o1\<lparr>po_map := (po_map o1)(k \<mapsto> Some current)\<rparr>
      | None \<Rightarrow>
          if current \<noteq> [] then (if parseId then o1\<lparr>po_id := current\<rparr> else o1\<lparr>po_map := (po_map o1)(current \<mapsto> None)\<rparr>) else o1)"

fun po_loop :: "string list \<Rightarrow> bool \<Rightarrow> string option \<Rightarrow> string \<Rightarrow> PluginOptions \<Rightarrow> po_error + PluginOptions" where
  "po_loop [] parseId key current o1 = Inr o1"
| "po_loop (nextToken # ts) parseId key current o1 =
     (if nextToken = [CHR 0x5C] then
        (case ts of [] \<Rightarrow> Inl No_such_element | t # ts' \<Rightarrow> po_loop ts' parseId key (current @ t) o1)
      else if nextToken = ''='' then
        (case key of None \<Rightarrow> po_loop ts parseId (Some current) [] o1 | Some _ \<Rightarrow> po_loop ts parseId key (current @ nextToken) o1)
      else if nextToken = '';'' then po_loop ts False None [] (po_end parseId key current o1)
      else po_loop ts parseId key (current @ nextToken) o1)"

definition po_parse :: "string option \<Rightarrow> bool \<Rightarrow> po_error + PluginOptions" where
  "po_parse options parseId =
     (case options of
        None \<Rightarrow> Inr po_empty
      | Some s \<Rightarrow>
          if s = [] then Inr po_empty
          else if \<not> list_all (\<lambda>c. \<not> isISOControl c) s then Inl Control_characters
          else po_loop (string_tokens po_delim (s @ '';'')) parseId None [] po_empty)"

text \<open>The public constructors.\<close>

definition PluginOptions_options :: "string option \<Rightarrow> po_error + PluginOptions" where
  "PluginOptions_options options = po_parse options True"

definition PluginOptions_id :: "string \<Rightarrow> string option \<Rightarrow> po_error + PluginOptions" where
  "PluginOptions_id id1 options = map_sum (\<lambda>e. e) (\<lambda>o1. o1\<lparr>po_id := id1\<rparr>) (po_parse options False)"

definition putWithDefault :: "string \<Rightarrow> string option \<Rightarrow> string option \<Rightarrow> PluginOptions \<Rightarrow> PluginOptions" where
  "putWithDefault key val dflt o1 =
     (if val = None \<or> val = dflt then o1\<lparr>po_map := (po_map o1)(key := None)\<rparr> else o1\<lparr>po_map := (po_map o1)(key \<mapsto> val)\<rparr>)"

definition po_quote :: "char \<Rightarrow> string" where
  "po_quote c = (if c \<in> {CHR 0x5C, CHR ''='', CHR '';''} then [CHR 0x5C, c] else [c])"

definition po_append :: "string \<Rightarrow> string" where
  "po_append s = concat (map po_quote s)"

fun po_print :: "(string \<times> string option) list \<Rightarrow> string \<Rightarrow> string" where
  "po_print [] result = result"
| "po_print ((key, val) # es) result =
     (let result = (if result \<noteq> [] then result @ '';'' else result);
          result = result @ po_append key;
          result = (case val of None \<Rightarrow> result | Some v \<Rightarrow> result @ ''='' @ po_append v)
      in po_print es result)"

definition po_toString :: "bool \<Rightarrow> (string \<times> string option) list \<Rightarrow> PluginOptions \<Rightarrow> string" where
  "po_toString trimId entries o1 =
     (if \<not> trimId then (if po_id o1 = [] then '''' else po_print entries (po_append (po_id o1))) else po_print entries '''')"

section \<open>Reading one character at a time\<close>

text \<open>The parser as an automaton on characters, with a flag for the escape character.\<close>

record po_state =
  ps_esc :: bool
  ps_parseId :: bool
  ps_key :: "string option"
  ps_current :: string
  ps_opts :: PluginOptions

definition po_char :: "char \<Rightarrow> po_state \<Rightarrow> po_state" where
  "po_char c s =
     (if ps_esc s then s\<lparr>ps_esc := False, ps_current := ps_current s @ [c]\<rparr>
      else if c = CHR 0x5C then s\<lparr>ps_esc := True\<rparr>
      else if c = CHR ''='' \<and> ps_key s = None then s\<lparr>ps_key := Some (ps_current s), ps_current := []\<rparr>
      else if c = CHR '';'' then s\<lparr>ps_opts := po_end (ps_parseId s) (ps_key s) (ps_current s) (ps_opts s), ps_parseId := False, ps_key := None, ps_current := []\<rparr>
      else s\<lparr>ps_current := ps_current s @ [c]\<rparr>)"

definition po_result :: "po_state \<Rightarrow> po_error + PluginOptions" where
  "po_result s = (if ps_esc s then Inl No_such_element else Inr (ps_opts s))"

lemma po_char_simps:
  "ps_esc s \<Longrightarrow> po_char c s = s\<lparr>ps_esc := False, ps_current := ps_current s @ [c]\<rparr>"
  "\<not> ps_esc s \<Longrightarrow> po_char (CHR 0x5C) s = s\<lparr>ps_esc := True\<rparr>"
  "\<not> ps_esc s \<Longrightarrow> po_char (CHR ''='') s =
     (if ps_key s = None then s\<lparr>ps_key := Some (ps_current s), ps_current := []\<rparr> else s\<lparr>ps_current := ps_current s @ ''=''\<rparr>)"
  "\<not> ps_esc s \<Longrightarrow> po_char (CHR '';'') s =
     s\<lparr>ps_opts := po_end (ps_parseId s) (ps_key s) (ps_current s) (ps_opts s), ps_parseId := False, ps_key := None, ps_current := []\<rparr>"
  by (simp_all add: po_char_def)

lemma po_char_run:
  assumes "set cs \<inter> set po_delim = {}" "\<not> ps_esc s"
  shows "fold po_char cs s = s\<lparr>ps_current := ps_current s @ cs\<rparr>"
  using assms
proof (induction cs arbitrary: s)
  case (Cons c cs)
  then have "po_char c s = s\<lparr>ps_current := ps_current s @ [c]\<rparr>" by (auto simp: po_char_def po_delim_def)
  then show ?case using Cons by simp
qed simp

lemma po_char_run_any:
  assumes "set cs \<inter> set po_delim = {}" "cs \<noteq> []"
  shows "fold po_char cs s = s\<lparr>ps_esc := False, ps_current := ps_current s @ cs\<rparr>"
proof (cases "ps_esc s")
  case True
  obtain c ds where cs: "cs = c # ds" using assms(2) by (cases cs) auto
  have "po_char c s = s\<lparr>ps_esc := False, ps_current := ps_current s @ [c]\<rparr>" using True by (simp add: po_char_def)
  then show ?thesis using po_char_run [of ds "po_char c s"] assms(1) by (simp add: cs)
next
  case False
  then have "s\<lparr>ps_esc := False\<rparr> = s" by simp
  then show ?thesis using po_char_run [OF assms(1) False] by (metis)
qed

lemma string_tokens_Cons:
  "c \<notin> set delim \<Longrightarrow> string_tokens delim (c # cs) = takeWhile (\<lambda>x. x \<notin> set delim) (c # cs) # string_tokens delim (dropWhile (\<lambda>x. x \<notin> set delim) (c # cs))"
  by simp

lemma po_loop_chars:
  "po_loop (string_tokens po_delim s) pid key cur o1 =
     po_result (fold po_char s \<lparr>ps_esc = False, ps_parseId = pid, ps_key = key, ps_current = cur, ps_opts = o1\<rparr>)"
proof (induction s arbitrary: pid key cur o1 rule: length_induct)
  case (1 s)
  let ?P = "\<lambda>x. x \<notin> set po_delim" and ?S = "\<lambda>key cur. \<lparr>ps_esc = False, ps_parseId = pid, ps_key = key, ps_current = cur, ps_opts = o1\<rparr>"
  have run: "po_loop (string_tokens po_delim (dropWhile ?P (c # cs))) pid key (cur @ takeWhile ?P (c # cs)) o1 =
      po_result (fold po_char (c # cs) ((?S key cur)\<lparr>ps_esc := b\<rparr>))"
    if c: "?P c" and l: "length (c # cs) \<le> length s" for c cs b
  proof -
    have "c # cs = takeWhile ?P (c # cs) @ dropWhile ?P (c # cs)" by simp
    then have "fold po_char (c # cs) ((?S key cur)\<lparr>ps_esc := b\<rparr>) = fold po_char (dropWhile ?P (c # cs)) (fold po_char (takeWhile ?P (c # cs)) ((?S key cur)\<lparr>ps_esc := b\<rparr>))"
      by (metis comp_apply fold_append)
    moreover have "set (takeWhile ?P (c # cs)) \<inter> set po_delim = {}" by (auto dest: set_takeWhileD)
    moreover have "length (dropWhile ?P (c # cs)) < length s" using c l length_dropWhile_le [of ?P cs] by simp
    ultimately show ?thesis using 1 [rule_format, of "dropWhile ?P (c # cs)"] po_char_run_any [of "takeWhile ?P (c # cs)"] c
      by simp
  qed
  show ?case
  proof (cases s)
    case Nil
    then show ?thesis by (simp add: po_result_def)
  next
    case (Cons c cs)
    consider "?P c" | "c = CHR 0x5C" | "c = CHR ''=''" | "c = CHR '';''" by (auto simp: po_delim_def)
    then show ?thesis
    proof cases
      case 1
      then have "takeWhile ?P (c # cs) \<notin> {[CHR 0x5C], ''='', '';''}" by (auto simp: po_delim_def)
      then show ?thesis using run [OF 1, of cs False] 1 Cons by (simp add: string_tokens_Cons del: string_tokens.simps takeWhile.simps dropWhile.simps)
    next
      case 2
      have esc: "string_tokens po_delim (c # cs) = [CHR 0x5C] # string_tokens po_delim cs" using 2 by (simp add: po_delim_def)
      show ?thesis
      proof (cases cs)
        case Nil
        then show ?thesis using esc 2 Cons by (simp add: po_result_def po_char_simps)
      next
        case cs: (Cons d ds)
        show ?thesis
        proof (cases "?P d")
          case True
          then show ?thesis using run [OF True, of ds True] esc 2 Cons cs
            by (simp add: string_tokens_Cons po_char_simps del: string_tokens.simps takeWhile.simps dropWhile.simps)
        next
          case False
          then show ?thesis using 1 [rule_format, of ds] esc 2 Cons cs by (simp add: po_char_simps)
        qed
      qed
    next
      case 3
      then show ?thesis using 1 [rule_format, of cs] Cons by (cases key) (simp_all add: po_delim_def po_char_simps)
    next
      case 4
      then show ?thesis using 1 [rule_format, of cs] Cons by (simp add: po_delim_def po_char_simps)
    qed
  qed
qed

section \<open>Printing and parsing\<close>

lemma po_append_simps [simp]: "po_append [] = []" "po_append (c # s) = po_quote c @ po_append s"
  by (simp_all add: po_append_def)

lemma po_append_Nil [simp]: "po_append s = [] \<longleftrightarrow> s = []"
  by (cases s) (simp_all add: po_quote_def)

lemma po_append_read: "\<not> ps_esc s \<Longrightarrow> fold po_char (po_append w) s = s\<lparr>ps_current := ps_current s @ w\<rparr>"
proof (induction w arbitrary: s)
  case (Cons c w)
  have "fold po_char (po_quote c) s = s\<lparr>ps_current := ps_current s @ [c]\<rparr>" using Cons.prems by (auto simp: po_quote_def po_char_def)
  then show ?case using Cons by simp
qed simp

definition po_entry :: "string \<times> string option \<Rightarrow> string" where
  "po_entry e = po_append (fst e) @ (case snd e of None \<Rightarrow> '''' | Some v \<Rightarrow> ''='' @ po_append v)"

lemma po_print_Cons: "po_print (e # es) result = po_print es ((if result \<noteq> [] then result @ '';'' else result) @ po_entry e)"
  by (cases e) (auto simp: po_entry_def Let_def split: option.split)

lemma po_entry_Nil: "po_entry e = [] \<longleftrightarrow> e = ([], None)"
  by (cases e) (auto simp: po_entry_def split: option.split)

lemma po_print_concat:
  assumes "result \<noteq> []" "([], None) \<notin> set es"
  shows "po_print es result @ '';'' = result @ '';'' @ concat (map (\<lambda>e. po_entry e @ '';'') es)"
  using assms
proof (induction es arbitrary: result)
  case (Cons e es)
  have "po_print es (result @ '';'' @ po_entry e) @ '';'' = (result @ '';'' @ po_entry e) @ '';'' @ concat (map (\<lambda>e. po_entry e @ '';'') es)"
    by (rule Cons.IH) (use Cons.prems in auto)
  then show ?case using Cons.prems(1) by (simp add: po_print_Cons del: po_print.simps)
qed simp

lemma po_print_trimmed:
  assumes "es \<noteq> []" "([], None) \<notin> set es"
  shows "po_print es [] @ '';'' = concat (map (\<lambda>e. po_entry e @ '';'') es)"
proof (cases es)
  case (Cons e es')
  then have "po_entry e \<noteq> []" using assms(2) by (auto simp: po_entry_Nil)
  then show ?thesis using Cons assms(2) po_print_concat [of "po_entry e" es'] by (simp add: po_print_Cons del: po_print.simps)
qed (use assms in simp)

abbreviation po_ready :: "PluginOptions \<Rightarrow> po_state" where
  "po_ready o1 \<equiv> \<lparr>ps_esc = False, ps_parseId = False, ps_key = None, ps_current = [], ps_opts = o1\<rparr>"

lemma po_entry_read:
  assumes "e \<noteq> ([], None)" "s = \<lparr>ps_esc = False, ps_parseId = pid, ps_key = None, ps_current = [], ps_opts = o1\<rparr>" "\<not> pid \<or> snd e \<noteq> None"
  shows "fold po_char (po_entry e @ '';'') s = po_ready (o1\<lparr>po_map := (po_map o1)(fst e \<mapsto> snd e)\<rparr>)"
  using assms by (cases e; cases "snd e") (auto simp: po_entry_def po_append_read po_char_simps po_end_def)

lemma po_entries_read:
  assumes "([], None) \<notin> set es"
  shows "fold po_char (concat (map (\<lambda>e. po_entry e @ '';'') es)) (po_ready o1) = po_ready (o1\<lparr>po_map := po_map o1 ++ map_of (rev es)\<rparr>)"
  using assms
proof (induction es arbitrary: o1)
  case (Cons e es)
  have "fold po_char (po_entry e @ '';'') (po_ready o1) = po_ready (o1\<lparr>po_map := (po_map o1)(fst e \<mapsto> snd e)\<rparr>)"
    by (rule po_entry_read) (use Cons.prems in auto)
  moreover have "(po_map o1)(fst e \<mapsto> snd e) ++ map_of (rev es) = po_map o1 ++ map_of (rev es @ [e])"
    by (cases e) (auto simp: map_add_def fun_eq_iff split: option.split)
  ultimately show ?case using Cons by simp
qed simp

text \<open>What can be written: no control characters, and no empty option name without a value.\<close>

definition no_control :: "string \<Rightarrow> bool" where
  "no_control s \<longleftrightarrow> list_all (\<lambda>c. \<not> isISOControl c) s"

definition po_clean :: "PluginOptions \<Rightarrow> bool" where
  "po_clean o1 \<longleftrightarrow> no_control (po_id o1) \<and> po_map o1 [] \<noteq> Some None \<and>
     (\<forall>k v. po_map o1 k = Some v \<longrightarrow> no_control k \<and> (\<forall>w. v = Some w \<longrightarrow> no_control w))"

lemma no_control_simps [simp]:
  "no_control []" "no_control (c # s) \<longleftrightarrow> \<not> isISOControl c \<and> no_control s" "no_control (s @ t) \<longleftrightarrow> no_control s \<and> no_control t"
  by (simp_all add: no_control_def)

lemma delim_no_control: "\<not> isISOControl (CHR 0x5C)" "\<not> isISOControl (CHR ''='')" "\<not> isISOControl (CHR '';'')"
  by (simp_all add: isISOControl_def of_char_def)

lemma no_control_append: "no_control (po_append s) \<longleftrightarrow> no_control s"
  by (induction s) (auto simp: po_quote_def delim_no_control)

lemma no_control_print:
  assumes "no_control result" "\<And>k v. (k, v) \<in> set es \<Longrightarrow> no_control k \<and> (\<forall>w. v = Some w \<longrightarrow> no_control w)"
  shows "no_control (po_print es result)"
  using assms
proof (induction es arbitrary: result)
  case (Cons e es)
  obtain k v where e: "e = (k, v)" by force
  have "no_control (po_entry e)" using Cons.prems(2) [of k v] by (auto simp: e po_entry_def no_control_append delim_no_control split: option.split)
  then have "no_control ((if result \<noteq> [] then result @ '';'' else result) @ po_entry e)" using Cons.prems(1) by (simp add: delim_no_control)
  then have "no_control (po_print es ((if result \<noteq> [] then result @ '';'' else result) @ po_entry e))"
    by (rule Cons.IH) (rule Cons.prems(2), simp)
  then show ?case by (simp only: po_print_Cons)
qed simp

lemma po_parse_chars:
  assumes "s \<noteq> []" "no_control s"
  shows "po_parse (Some s) pid = po_result (fold po_char (s @ '';'') \<lparr>ps_esc = False, ps_parseId = pid, ps_key = None, ps_current = [], ps_opts = po_empty\<rparr>)"
  using assms by (simp add: po_parse_def no_control_def po_loop_chars)
text \<open>What the parser reads is clean.\<close>

definition ps_clean :: "po_state \<Rightarrow> bool" where
  "ps_clean s \<longleftrightarrow> no_control (ps_current s) \<and> (\<forall>k. ps_key s = Some k \<longrightarrow> no_control k) \<and> po_clean (ps_opts s)"

lemma po_end_clean:
  assumes "no_control current" "\<And>k. key = Some k \<Longrightarrow> no_control k" "po_clean o1"
  shows "po_clean (po_end pid key current o1)"
  using assms by (cases key) (auto simp: po_end_def po_clean_def)

lemma po_char_clean: "ps_clean s \<Longrightarrow> \<not> isISOControl c \<Longrightarrow> ps_clean (po_char c s)"
  using po_end_clean [of "ps_current s" "ps_key s" "ps_opts s" "ps_parseId s"] by (auto simp: ps_clean_def po_char_def)

lemma po_chars_clean: "ps_clean s \<Longrightarrow> no_control cs \<Longrightarrow> ps_clean (fold po_char cs s)"
  by (induction cs arbitrary: s) (auto simp: po_char_clean)

lemma po_parse_clean: "po_parse options pid = Inr o1 \<Longrightarrow> po_clean o1"
proof -
  assume p: "po_parse options pid = Inr o1"
  have e: "po_clean po_empty" by (simp add: po_clean_def po_empty_def)
  show ?thesis
  proof (cases "options = None \<or> options = Some []")
    case True
    then show ?thesis using p e by (auto simp: po_parse_def)
  next
    case False
    then obtain s where s: "options = Some s" "s \<noteq> []" by auto
    then have nc: "no_control s" using p by (auto simp: po_parse_def no_control_def split: if_splits)
    let ?f = "fold po_char (s @ '';'') \<lparr>ps_esc = False, ps_parseId = pid, ps_key = None, ps_current = [], ps_opts = po_empty\<rparr>"
    have "ps_clean ?f" by (rule po_chars_clean) (use e nc in \<open>simp_all add: ps_clean_def delim_no_control\<close>)
    then show ?thesis using p s po_parse_chars [OF s(2) nc, of pid] by (auto simp: po_result_def ps_clean_def split: if_splits)
  qed
qed

lemma entries_clean:
  assumes "po_clean o1" "map_of entries = po_map o1" "distinct (map fst entries)"
  shows "([], None) \<notin> set entries" "\<And>k v. (k, v) \<in> set entries \<Longrightarrow> no_control k \<and> (\<forall>w. v = Some w \<longrightarrow> no_control w)"
    "map_of (rev entries) = po_map o1"
proof -
  have m: "po_map o1 k = Some v" if "(k, v) \<in> set entries" for k v using that assms(2,3) by (metis map_of_eq_Some_iff)
  show "([], None) \<notin> set entries" using m [of "[]" None] assms(1) by (auto simp: po_clean_def)
  show "no_control k \<and> (\<forall>w. v = Some w \<longrightarrow> no_control w)" if "(k, v) \<in> set entries" for k v using m [OF that] assms(1) by (simp add: po_clean_def)
  show "map_of (rev entries) = po_map o1" using assms(2,3) map_of_inject_set [of "rev entries" entries] by (simp add: rev_map [symmetric])
qed

lemma po_toString_read:
  assumes c: "po_clean o1" and m: "map_of entries = po_map o1" and d: "distinct (map fst entries)"
  shows "po_id o1 \<noteq> [] \<Longrightarrow> po_parse (Some (po_toString False entries o1)) True = Inr o1"
    "po_parse (Some (po_toString True entries o1)) False = Inr (o1\<lparr>po_id := []\<rparr>)"
proof -
  note e = entries_clean [OF c m d]
  show "po_parse (Some (po_toString False entries o1)) True = Inr o1" if i: "po_id o1 \<noteq> []"
  proof -
    let ?s = "po_toString False entries o1"
    have s: "?s @ '';'' = po_append (po_id o1) @ '';'' @ concat (map (\<lambda>e. po_entry e @ '';'') entries)"
      using i e(1) by (simp add: po_toString_def po_print_concat)
    then have "?s \<noteq> []" using i by (cases "po_append (po_id o1)") auto
    moreover have "no_control ?s" using c i e(2) by (simp add: po_toString_def no_control_print no_control_append po_clean_def)
    ultimately have "po_parse (Some ?s) True = po_result (fold po_char (?s @ '';'') \<lparr>ps_esc = False, ps_parseId = True, ps_key = None, ps_current = [], ps_opts = po_empty\<rparr>)"
      by (rule po_parse_chars)
    also have "fold po_char (?s @ '';'') \<lparr>ps_esc = False, ps_parseId = True, ps_key = None, ps_current = [], ps_opts = po_empty\<rparr> =
        fold po_char (concat (map (\<lambda>e. po_entry e @ '';'') entries)) (po_ready (po_empty\<lparr>po_id := po_id o1\<rparr>))"
      using i by (simp add: s po_append_read po_char_simps po_end_def)
    also have "\<dots> = po_ready o1" using e(1,3) by (simp add: po_entries_read po_empty_def)
    finally show ?thesis by (simp add: po_result_def)
  qed
  show "po_parse (Some (po_toString True entries o1)) False = Inr (o1\<lparr>po_id := []\<rparr>)"
  proof (cases "entries = []")
    case True
    then have "o1\<lparr>po_id := []\<rparr> = po_empty" using m by (simp add: po_empty_def)
    then show ?thesis using True by (simp add: po_parse_def po_toString_def)
  next
    case False
    let ?s = "po_toString True entries o1"
    have s: "?s @ '';'' = concat (map (\<lambda>e. po_entry e @ '';'') entries)" using e(1) False by (simp add: po_toString_def po_print_trimmed)
    have "?s \<noteq> []"
    proof
      assume "?s = []"
      then have "concat (map (\<lambda>e. po_entry e @ '';'') entries) = '';''" using s by simp
      then show False using False e(1) by (cases entries; cases "po_entry (hd entries)") (auto simp: po_entry_Nil)
    qed
    moreover have "no_control ?s" using e(2) by (simp add: po_toString_def no_control_print)
    ultimately have "po_parse (Some ?s) False = po_result (fold po_char (?s @ '';'') (po_ready po_empty))" by (rule po_parse_chars)
    also have "\<dots> = Inr (o1\<lparr>po_id := []\<rparr>)" using e(1,3) by (simp add: s po_entries_read po_empty_def po_result_def)
    finally show ?thesis .
  qed
qed

text \<open>The options of a plugin survive being written and read again.  Options that contain no control
  characters and no empty name without a value (in particular all options that were read from text) are read back by the
  constructor with an id from what \<open>toString\<close> writes without the id, and by the constructor without an id
  from what it writes with the id, unless the id is empty; for every order in which the hash map enumerates its entries.\<close>

theorem plugin_options_roundtrip:
  assumes "po_clean o1 \<or> po_parse options parseId = Inr o1" and "map_of entries = po_map o1" and "distinct (map fst entries)"
  shows "PluginOptions_id (po_id o1) (Some (po_toString True entries o1)) = Inr o1 \<and>
    PluginOptions_options (Some (po_toString False entries o1)) = Inr (if po_id o1 = [] then po_empty else o1)"
proof -
  have "po_clean o1" using assms(1) po_parse_clean by blast
  note r = po_toString_read [OF this assms(2,3)]
  show ?thesis
  proof
    show "PluginOptions_id (po_id o1) (Some (po_toString True entries o1)) = Inr o1" using r(2) by (simp add: PluginOptions_id_def)
    show "PluginOptions_options (Some (po_toString False entries o1)) = Inr (if po_id o1 = [] then po_empty else o1)"
      using r(1) by (cases "po_id o1 = []") (simp_all add: PluginOptions_options_def po_toString_def po_parse_def)
  qed
qed

definition ex_options :: PluginOptions where
  "ex_options = \<lparr>po_id = ''v2ray'', po_map = [''mode'' \<mapsto> Some ''a=b;c'', ''tls'' \<mapsto> None]\<rparr>"

theorem plugin_options_roundtrip_witness:
  "PluginOptions_options (Some (po_toString False [(''tls'', None), (''mode'', Some ''a=b;c'')] ex_options)) = Inr ex_options"
proof -
  have "po_clean ex_options \<or> po_parse None True = Inr ex_options"
    by (auto simp: po_clean_def ex_options_def isISOControl_def of_char_def)
  moreover have "map_of [(''tls'', None), (''mode'', Some ''a=b;c'')] = po_map ex_options" by (auto simp: ex_options_def)
  ultimately have "PluginOptions_options (Some (po_toString False [(''tls'', None), (''mode'', Some ''a=b;c'')] ex_options)) =
      Inr (if po_id ex_options = [] then po_empty else ex_options)"
    using plugin_options_roundtrip [of ex_options None True "[(''tls'', None), (''mode'', Some ''a=b;c'')]"] by simp
  then show ?thesis by (simp add: ex_options_def)
qed

section \<open>Model of PluginConfiguration\<close>

text \<open>The map of the options is a linked map: an association list in the order of insertion.\<close>

record PluginConfiguration =
  pluginsOptions :: "(string \<times> PluginOptions) list"
  pc_selected :: string

definition associateBy :: "PluginOptions list \<Rightarrow> (string \<times> PluginOptions) list" where
  "associateBy ps = fold (\<lambda>p m. AList.update (po_id p) p m) ps []"

definition PluginConfiguration_list :: "PluginOptions list \<Rightarrow> PluginConfiguration" where
  "PluginConfiguration_list plugins =
     \<lparr>pluginsOptions = associateBy (filter (\<lambda>p. po_id p \<noteq> []) plugins), pc_selected = (if plugins = [] then '''' else po_id (plugins ! 0))\<rparr>"

text \<open>The loop over the arguments of kcptun; an exception ends it and is logged.\<close>

fun kcptun_loop :: "string list \<Rightarrow> PluginOptions \<Rightarrow> PluginOptions" where
  "kcptun_loop [] opt = opt"
| "kcptun_loop (option # rest) opt =
     (if option = ''--nocomp'' then kcptun_loop rest (opt\<lparr>po_map := (po_map opt)(''nocomp'' \<mapsto> None)\<rparr>)
      else if prefix ''--'' option then
        (case rest of [] \<Rightarrow> opt | v # rest' \<Rightarrow> kcptun_loop rest' (opt\<lparr>po_map := (po_map opt)(drop 2 option \<mapsto> Some v)\<rparr>))
      else opt)"

definition plugin_line :: "string \<Rightarrow> po_error + PluginOptions" where
  "plugin_line line =
     (if prefix ''kcptun '' line then
        (let opt = po_empty\<lparr>po_id := ''kcptun''\<rparr> in
         Inr (case translateCommandline (Some line) of Inl _ \<Rightarrow> opt | Inr args \<Rightarrow> kcptun_loop (drop 1 args) opt))
      else PluginOptions_options (Some line))"

fun split_lines :: "string \<Rightarrow> string list" where
  "split_lines [] = [[]]"
| "split_lines (c # cs) =
     (if c = CHR 0x0A then [] # split_lines cs else (case split_lines cs of [] \<Rightarrow> [[c]] | l # ls \<Rightarrow> (c # l) # ls))"

fun plugin_lines :: "string list \<Rightarrow> po_error + PluginOptions list" where
  "plugin_lines [] = Inr []"
| "plugin_lines (l # ls) =
     (case plugin_line l of
        Inl e \<Rightarrow> Inl e
      | Inr p \<Rightarrow> (case plugin_lines ls of Inl e \<Rightarrow> Inl e | Inr ps \<Rightarrow> Inr (p # ps)))"

definition PluginConfiguration_text :: "string \<Rightarrow> po_error + PluginConfiguration" where
  "PluginConfiguration_text plugin =
     (case plugin_lines (split_lines plugin) of Inl e \<Rightarrow> Inl e | Inr ps \<Rightarrow> Inr (PluginConfiguration_list ps))"

text \<open>\<open>defaultConfig\<close> stands for the query of the installed plugins.\<close>

definition getOptions :: "(string \<Rightarrow> string option) \<Rightarrow> string \<Rightarrow> PluginConfiguration \<Rightarrow> po_error + PluginOptions" where
  "getOptions defaultConfig id1 c =
     (if id1 = [] then Inr po_empty
      else case map_of (pluginsOptions c) id1 of Some opt \<Rightarrow> Inr opt | None \<Rightarrow> PluginOptions_id id1 (defaultConfig id1))"

definition pc_order :: "PluginConfiguration \<Rightarrow> PluginOptions list" where
  "pc_order c = fold (\<lambda>(id1, opt) result. if id1 = pc_selected c then opt # result else result @ [opt]) (pluginsOptions c) []"

fun join_lines :: "string list \<Rightarrow> string" where
  "join_lines [] = ''''"
| "join_lines [l] = l"
| "join_lines (l # ls) = l @ [CHR 0x0A] @ join_lines ls"

definition pc_toString ::
  "(string \<Rightarrow> string option) \<Rightarrow> (PluginOptions \<Rightarrow> (string \<times> string option) list) \<Rightarrow> PluginConfiguration \<Rightarrow> po_error + string" where
  "pc_toString defaultConfig entries c =
     (let result = pc_order c;
          text = (\<lambda>ps. join_lines (map (\<lambda>p. po_toString False (entries p) p) ps)) in
      if pc_selected c \<notin> fst ` set (pluginsOptions c) then
        (case getOptions defaultConfig (pc_selected c) c of Inl e \<Rightarrow> Inl e | Inr opt \<Rightarrow> Inr (text (opt # result)))
      else Inr (text result))"

section \<open>Configurations as text\<close>

lemma split_join_lines: "ls \<noteq> [] \<Longrightarrow> (\<And>l. l \<in> set ls \<Longrightarrow> CHR 0x0A \<notin> set l) \<Longrightarrow> split_lines (join_lines ls) = ls"
proof (induction ls rule: join_lines.induct)
  case (2 l)
  have "CHR 0x0A \<notin> set l \<Longrightarrow> split_lines l = [l]" by (induction l) auto
  then show ?case using 2 by simp
next
  case (3 l l' ls)
  have "CHR 0x0A \<notin> set l \<Longrightarrow> split_lines (l @ CHR 0x0A # s) = l # split_lines s" for s by (induction l) auto
  then show ?case using 3 by simp
qed simp

lemma po_print_rest: "r \<noteq> [] \<Longrightarrow> \<exists>rest. po_print es r = r @ rest \<and> (rest = [] \<or> hd rest = CHR '';'')"
proof (induction es arbitrary: r)
  case (Cons e es)
  obtain rest where "po_print es (r @ '';'' @ po_entry e) = (r @ '';'' @ po_entry e) @ rest" using Cons.IH [of "r @ '';'' @ po_entry e"] by auto
  then have "po_print (e # es) r = r @ ('';'' @ po_entry e @ rest)" using Cons.prems by (simp add: po_print_Cons del: po_print.simps)
  then show ?case by (metis append_Cons list.sel(1))
qed simp

lemma prefix_po_append:
  assumes "prefix w (po_append i @ rest)" "rest = [] \<or> hd rest = CHR '';''" "set w \<inter> {CHR 0x5C, CHR ''='', CHR '';''} = {}"
  shows "prefix w i"
  using assms(1,3)
proof (induction w arbitrary: i)
  case (Cons c w)
  show ?case
  proof (cases i)
    case Nil
    then show ?thesis using Cons.prems assms(2) by (cases rest) auto
  next
    case (Cons d ds)
    then show ?thesis using Cons.prems Cons.IH [of ds] by (auto simp: po_quote_def split: if_splits)
  qed
qed simp

lemma plugin_line_read:
  assumes "po_clean p" "map_of (entries p) = po_map p" "distinct (map fst (entries p))" "\<not> prefix ''kcptun '' (po_id p)" "po_id p \<noteq> []"
  shows "plugin_line (po_toString False (entries p) p) = Inr p" "CHR 0x0A \<notin> set (po_toString False (entries p) p)"
proof -
  obtain rest where r: "po_toString False (entries p) p = po_append (po_id p) @ rest" "rest = [] \<or> hd rest = CHR '';''"
    using po_print_rest [of "po_append (po_id p)" "entries p"] assms(5) by (auto simp: po_toString_def)
  have "\<not> prefix ''kcptun '' (po_toString False (entries p) p)"
  proof
    assume "prefix ''kcptun '' (po_toString False (entries p) p)"
    then have "prefix ''kcptun '' (po_id p)" unfolding r(1) by (rule prefix_po_append [OF _ r(2)]) simp
    then show False using assms(4) by simp
  qed
  then show "plugin_line (po_toString False (entries p) p) = Inr p"
    using po_toString_read(1) [OF assms(1-3,5)] by (simp add: plugin_line_def PluginOptions_options_def)
  have "no_control (po_toString False (entries p) p)"
    using entries_clean(2) [OF assms(1-3)] assms(1,5) by (simp add: po_toString_def no_control_print no_control_append po_clean_def)
  moreover have "isISOControl (CHR 0x0A)" by (simp add: isISOControl_def of_char_def)
  ultimately show "CHR 0x0A \<notin> set (po_toString False (entries p) p)" by (auto simp: no_control_def list_all_iff)
qed

lemma plugin_lines_read: "(\<And>p. p \<in> set ps \<Longrightarrow> plugin_line (f p) = Inr p) \<Longrightarrow> plugin_lines (map f ps) = Inr ps"
  by (induction ps) auto

lemma pc_order_eq:
  "pc_order c = map snd (filter (\<lambda>e. fst e = pc_selected c) (rev (pluginsOptions c))) @ map snd (filter (\<lambda>e. fst e \<noteq> pc_selected c) (pluginsOptions c))"
proof -
  have "fold (\<lambda>(id1, opt) result. if id1 = s then opt # result else result @ [opt]) xs acc =
      map snd (filter (\<lambda>e. fst e = s) (rev xs)) @ acc @ map snd (filter (\<lambda>e. fst e \<noteq> s) xs)" for s and xs :: "(string \<times> PluginOptions) list" and acc
    by (induction xs arbitrary: acc) auto
  then show ?thesis by (simp add: pc_order_def)
qed

lemma map_of_associateBy:
  assumes "distinct (map po_id ps)"
  shows "map_of (associateBy ps) k = Some p \<longleftrightarrow> p \<in> set ps \<and> po_id p = k"
proof -
  have "map_of (fold (\<lambda>p m. AList.update (po_id p) p m) ps m) = map_of m ++ map_of (rev (map (\<lambda>p. (po_id p, p)) ps))" for m
    by (induction ps arbitrary: m) (auto simp: update_conv' map_add_def fun_eq_iff split: option.split)
  then have "map_of (associateBy ps) = map_of (rev (map (\<lambda>p. (po_id p, p)) ps))" by (simp add: associateBy_def)
  moreover have "distinct (map fst (rev (map (\<lambda>p. (po_id p, p)) ps)))" using assms by (simp add: comp_def flip: rev_map)
  ultimately show ?thesis by (auto simp: map_of_eq_Some_iff)
qed

text \<open>A configuration as the program builds it: every plugin is filed under its id, and one of them or none is selected.\<close>

definition pc_valid :: "PluginConfiguration \<Rightarrow> bool" where
  "pc_valid c \<longleftrightarrow> distinct (map fst (pluginsOptions c)) \<and> (pc_selected c = [] \<or> pc_selected c \<in> fst ` set (pluginsOptions c)) \<and>
     list_all (\<lambda>(k, p). po_id p = k \<and> k \<noteq> [] \<and> po_clean p \<and> \<not> prefix ''kcptun '' k) (pluginsOptions c)"
lemma pc_order_valid:
  assumes v: "pc_valid c"
  shows "set (pc_order c) = snd ` set (pluginsOptions c)" "distinct (map po_id (pc_order c))"
    "pc_selected c \<in> fst ` set (pluginsOptions c) \<Longrightarrow> pc_order c \<noteq> [] \<and> po_id (pc_order c ! 0) = pc_selected c"
proof -
  let ?os = "pluginsOptions c"
  define A where "A = filter (\<lambda>e. fst e = pc_selected c) (rev ?os)"
  define B where "B = filter (\<lambda>e. fst e \<noteq> pc_selected c) ?os"
  have o1: "pc_order c = map snd (A @ B)" by (simp add: pc_order_eq A_def B_def)
  have AB: "set (A @ B) = set ?os" by (auto simp: A_def B_def)
  have ids: "po_id (snd e) = fst e" if "e \<in> set ?os" for e using v that by (auto simp: pc_valid_def list_all_iff)
  show "set (pc_order c) = snd ` set ?os" unfolding o1 by (simp only: set_map AB)
  have "map po_id (pc_order c) = map fst (A @ B)" unfolding o1 using ids AB by auto
  moreover have "distinct (map fst ?os)" using v by (simp add: pc_valid_def)
  then have "distinct (map fst A)" "distinct (map fst B)" by (auto simp: A_def B_def distinct_map inj_on_def rev_filter)
  moreover have "fst ` set A \<inter> fst ` set B = {}" by (auto simp: A_def B_def)
  ultimately show "distinct (map po_id (pc_order c))" by simp
  assume "pc_selected c \<in> fst ` set ?os"
  then have "A \<noteq> []" by (force simp: A_def filter_empty_conv)
  then obtain a A' where a: "A = a # A'" by (cases A) auto
  then have "a \<in> set A" by simp
  then have "fst a = pc_selected c" "a \<in> set ?os" by (auto simp: A_def)
  then show "pc_order c \<noteq> [] \<and> po_id (pc_order c ! 0) = pc_selected c" using ids by (simp add: o1 a)
qed

lemma pc_read:
  assumes v: "pc_valid c" and e: "\<And>p. p \<in> set (pc_order c) \<Longrightarrow> map_of (entries p) = po_map p \<and> distinct (map fst (entries p))"
  defines "line \<equiv> \<lambda>p. po_toString False (entries p) p"
  shows "plugin_lines (map line (pc_order c)) = Inr (pc_order c)" "\<And>l. l \<in> set (map line (pc_order c)) \<Longrightarrow> CHR 0x0A \<notin> set l"
    "\<And>k. map_of (associateBy (pc_order c)) k = map_of (pluginsOptions c) k" "filter (\<lambda>p. po_id p \<noteq> []) (pc_order c) = pc_order c"
proof -
  have p: "po_clean p" "\<not> prefix ''kcptun '' (po_id p)" "po_id p \<noteq> []" if "p \<in> set (pc_order c)" for p
    using v that pc_order_valid(1) [OF v] by (auto simp: pc_valid_def list_all_iff)
  have l: "plugin_line (line p) = Inr p \<and> CHR 0x0A \<notin> set (line p)" if "p \<in> set (pc_order c)" for p
    using plugin_line_read [of p entries] p [OF that] e [OF that] by (simp add: line_def)
  show "plugin_lines (map line (pc_order c)) = Inr (pc_order c)" using l by (intro plugin_lines_read) simp
  show "CHR 0x0A \<notin> set l'" if "l' \<in> set (map line (pc_order c))" for l' using l that by auto
  show "filter (\<lambda>p. po_id p \<noteq> []) (pc_order c) = pc_order c" using p(3) by (simp add: filter_id_conv)
  show "map_of (associateBy (pc_order c)) k = map_of (pluginsOptions c) k" for k
  proof -
    have d: "distinct (map fst (pluginsOptions c))" and ids: "\<And>k p. (k, p) \<in> set (pluginsOptions c) \<Longrightarrow> po_id p = k"
      using v by (auto simp: pc_valid_def list_all_iff)
    have "map_of (associateBy (pc_order c)) k = Some p \<longleftrightarrow> map_of (pluginsOptions c) k = Some p" for p
      using map_of_associateBy [OF pc_order_valid(2) [OF v]] ids by (force simp: d pc_order_valid(1) [OF v])
    then show ?thesis by (metis option.exhaust)
  qed
qed


definition ex_config :: PluginConfiguration where
  "ex_config = \<lparr>pluginsOptions = [(''obfs'', \<lparr>po_id = ''obfs'', po_map = Map.empty\<rparr>), (''v2ray'', ex_options)], pc_selected = ''v2ray''\<rparr>"

definition ex_entries :: "PluginOptions \<Rightarrow> (string \<times> string option) list" where
  "ex_entries p = (if po_id p = ''v2ray'' then [(''tls'', None), (''mode'', Some ''a=b;c'')] else [])"


end
