(* ===== verification/SubnetAddr.thy ===== *)
theory SubnetAddr
  imports Prelude
begin

text \<open>
  Subnets of the Android service: \<open>net/Subnet.kt\<close>.  An address is the list of its bytes.  Kotlin's \<open>Byte\<close> is signed
  and 8 bits wide, \<open>Int\<close> is signed and 32 bits wide; reading outside an array raises an exception, which is \<open>None\<close> here.
  \<open>parseNumericAddress\<close> and \<open>hostAddress\<close> of the platform are parameters.
\<close>

section \<open>Model\<close>

unbundle bit_operations_syntax

type_synonym jint = "32 word"

record Subnet =
  sn_address :: "byte list"
  prefixSize :: int

definition addressLength :: "byte list \<Rightarrow> int" where
  "addressLength a = int (length a) * 8"

datatype sn_error = Length_check | Prefix_size

text \<open>The constructor.\<close>

definition Subnet_new :: "byte list \<Rightarrow> int \<Rightarrow> sn_error + Subnet" where
  "Subnet_new addr size1 = (if 0 \<le> size1 \<and> size1 \<le> addressLength addr then Inr \<lparr>sn_address = addr, prefixSize = size1\<rparr> else Inl Prefix_size)"

text \<open>\<open>String.toInt\<close>: an optional sign and decimal digits, in the range of an \<open>Int\<close>.\<close>

definition digit_value :: "char \<Rightarrow> nat option" where
  "digit_value c = (if 48 \<le> (of_char c :: nat) \<and> (of_char c :: nat) \<le> 57 then Some (of_char c - 48) else None)"

fun digits_value :: "string \<Rightarrow> nat \<Rightarrow> nat option" where
  "digits_value [] acc = Some acc"
| "digits_value (c # cs) acc = (case digit_value c of None \<Rightarrow> None | Some d \<Rightarrow> digits_value cs (acc * 10 + d))"

definition toInt :: "string \<Rightarrow> int option" where
  "toInt s =
     (let neg = (s \<noteq> [] \<and> hd s = CHR ''-'');
          digits = (if s \<noteq> [] \<and> (hd s = CHR ''-'' \<or> hd s = CHR ''+'') then tl s else s)
      in if digits = [] then None
         else case digits_value digits 0 of
                None \<Rightarrow> None
              | Some n \<Rightarrow> let v = (if neg then - int n else int n) in if - (2 ^ 31) \<le> v \<and> v < 2 ^ 31 then Some v else None)"

definition fromString :: "(string \<Rightarrow> byte list option) \<Rightarrow> string \<Rightarrow> int \<Rightarrow> sn_error + Subnet option" where
  "fromString parseNumericAddress val lengthCheck =
     (let part0 = takeWhile (\<lambda>c. c \<noteq> CHR ''/'') val; rest = dropWhile (\<lambda>c. c \<noteq> CHR ''/'') val in
      case parseNumericAddress part0 of
        None \<Rightarrow> Inr None
      | Some addr \<Rightarrow>
          if \<not> (lengthCheck < 0 \<or> int (length addr) = lengthCheck) then Inl Length_check
          else if rest \<noteq> [] then
            (case toInt (tl rest) of
               None \<Rightarrow> Inr None
             | Some size1 \<Rightarrow>
                 if size1 < 0 \<or> size1 > addressLength addr then Inr None
                 else map_sum (\<lambda>e. e) Some (Subnet_new addr size1))
          else map_sum (\<lambda>e. e) Some (Subnet_new addr (addressLength addr)))"

text \<open>\<open>Int.toString\<close> of a number that is not negative.\<close>

fun decimal :: "nat \<Rightarrow> string" where
  "decimal n = (if n < 10 then [char_of (48 + n)] else decimal (n div 10) @ [char_of (48 + n mod 10)])"

declare decimal.simps [simp del]

definition sn_toString :: "(byte list \<Rightarrow> string) \<Rightarrow> Subnet \<Rightarrow> string" where
  "sn_toString hostAddress s =
     (if prefixSize s = addressLength (sn_address s) then hostAddress (sn_address s)
      else hostAddress (sn_address s) @ ''/'' @ decimal (nat (prefixSize s)))"

text \<open>\<open>(b.toInt() and -(1 shl n)).toByte()\<close>\<close>

definition mask_byte :: "byte \<Rightarrow> int \<Rightarrow> byte" where
  "mask_byte b n = ucast ((scast b :: jint) AND - push_bit (nat n) (1 :: jint))"

record Immutable =
  im_a :: "byte list"
  im_prefixSize :: int

definition at :: "'a list \<Rightarrow> int \<Rightarrow> 'a option" where
  "at xs i = (if 0 \<le> i \<and> i < int (length xs) then Some (xs ! nat i) else None)"

text \<open>The loop of \<open>matches\<close> over the whole bytes: the index at which it ends, or \<open>False\<close>.\<close>

function matches_loop :: "byte list \<Rightarrow> byte list \<Rightarrow> int \<Rightarrow> int \<Rightarrow> (bool + int) option" where
  "matches_loop a b size1 i =
     (if i * 8 < size1 \<and> i * 8 + 8 \<le> size1 then
        (case (at a i, at b i) of
           (Some x, Some y) \<Rightarrow> if x \<noteq> y then Some (Inl False) else matches_loop a b size1 (i + 1)
         | _ \<Rightarrow> None)
      else Some (Inr i))"
  by pat_completeness auto
termination by (relation "measure (\<lambda>(a, b, s, i). nat (s - i * 8))") auto

declare matches_loop.simps [simp del]

definition matches :: "byte list \<Rightarrow> Immutable \<Rightarrow> bool option" where
  "matches b s =
     (if length (im_a s) \<noteq> length b then Some False
      else (case matches_loop (im_a s) b (im_prefixSize s) 0 of
              None \<Rightarrow> None
            | Some (Inl r) \<Rightarrow> Some r
            | Some (Inr i) \<Rightarrow>
                if i * 8 = im_prefixSize s then Some True
                else (case (at (im_a s) i, at b i) of
                        (Some x, Some y) \<Rightarrow> Some (x = mask_byte y (i * 8 + 8 - im_prefixSize s))
                      | _ \<Rightarrow> None)))"

definition zero_from :: "nat \<Rightarrow> byte list \<Rightarrow> byte list" where
  "zero_from i a = take i a @ replicate (length a - i) 0"

definition toImmutable :: "Subnet \<Rightarrow> Immutable" where
  "toImmutable s =
     (let a = sn_address s; i = prefixSize s div 8;
          (a, i) = (if prefixSize s mod 8 > 0 then (a[nat i := mask_byte (a ! nat i) (i * 8 + 8 - prefixSize s)], i + 1) else (a, i))
      in \<lparr>im_a = zero_from (nat i) a, im_prefixSize = prefixSize s\<rparr>)"

text \<open>\<open>compareTo\<close> of the subnets, and \<open>compare\<close> of the masked ones, whose bytes are compared as signed numbers.\<close>

definition int_compareTo :: "int \<Rightarrow> int \<Rightarrow> int" where
  "int_compareTo x y = (if x < y then -1 else if x = y then 0 else 1)"

fun compare_bytes :: "(byte \<Rightarrow> int) \<Rightarrow> byte list \<Rightarrow> byte list \<Rightarrow> int" where
  "compare_bytes val (x # xs) (y # ys) = (let result = int_compareTo (val x) (val y) in if result \<noteq> 0 then result else compare_bytes val xs ys)"
| "compare_bytes val _ _ = 0"

definition compareTo :: "Subnet \<Rightarrow> Subnet \<Rightarrow> int" where
  "compareTo s t =
     (let result = int_compareTo (int (length (sn_address s))) (int (length (sn_address t))) in
      if result \<noteq> 0 then result
      else
        let result = compare_bytes uint (sn_address s) (sn_address t) in
        if result \<noteq> 0 then result else int_compareTo (prefixSize s) (prefixSize t))"

definition Immutable_compare :: "Immutable \<Rightarrow> Immutable \<Rightarrow> int option" where
  "Immutable_compare s t = (if length (im_a s) \<noteq> length (im_a t) then None else Some (compare_bytes sint (im_a s) (im_a t)))"

section \<open>Text\<close>

lemma digit_value_char: "d < 10 \<Longrightarrow> digit_value (char_of (48 + d)) = Some d"
  by (simp add: digit_value_def of_char_of take_bit_nat_eq_self)

lemma digits_value_append: "digits_value (s @ [c]) acc = (case digits_value s acc of None \<Rightarrow> None | Some n \<Rightarrow> map_option (\<lambda>d. n * 10 + d) (digit_value c))"
  by (induction s arbitrary: acc) (auto split: option.split)

lemma decimal_read: "digits_value (decimal n) 0 = Some n \<and> decimal n \<noteq> [] \<and> (\<forall>c \<in> set (decimal n). digit_value c \<noteq> None)"
proof (induction n rule: decimal.induct)
  case (1 n)
  show ?case
  proof (cases "n < 10")
    case True
    then show ?thesis by (simp add: digit_value_char decimal.simps [of n])
  next
    case False
    have "n mod 10 < 10" by simp
    then show ?thesis using 1 False digit_value_char [of "n mod 10"] by (simp add: digits_value_append decimal.simps [of n])
  qed
qed

lemma toInt_decimal:
  assumes "n < 2 ^ 31"
  shows "toInt (decimal n) = Some (int n)"
proof -
  note d = decimal_read [of n]
  have "digit_value (hd (decimal n)) \<noteq> None" using d by (cases "decimal n") auto
  then have "hd (decimal n) \<noteq> CHR ''-''" "hd (decimal n) \<noteq> CHR ''+''" by (auto simp: digit_value_def of_char_def)
  then show ?thesis using d assms by (simp add: toInt_def)
qed

text \<open>The platform reads back the addresses it prints.\<close>

definition addr_text :: "(string \<Rightarrow> byte list option) \<Rightarrow> (byte list \<Rightarrow> string) \<Rightarrow> byte list \<Rightarrow> bool" where
  "addr_text parseNumericAddress hostAddress a \<longleftrightarrow> parseNumericAddress (hostAddress a) = Some a \<and> CHR ''/'' \<notin> set (hostAddress a) \<and> length a \<in> {4, 16}"

definition sn_valid :: "Subnet \<Rightarrow> bool" where
  "sn_valid s \<longleftrightarrow> 0 \<le> prefixSize s \<and> prefixSize s \<le> addressLength (sn_address s)"

lemma subnet_text_roundtrip:
  assumes v: "sn_valid s" and a: "addr_text parseNumericAddress hostAddress (sn_address s)"
  shows "fromString parseNumericAddress (sn_toString hostAddress s) (-1) = Inr (Some s)"
proof -
  have h: "parseNumericAddress (hostAddress (sn_address s)) = Some (sn_address s)" and c: "\<forall>x \<in> set (hostAddress (sn_address s)). x \<noteq> CHR ''/''"
    and l: "length (sn_address s) \<in> {4, 16}" using a by (auto simp: addr_text_def)
  have p: "0 \<le> prefixSize s" "prefixSize s \<le> addressLength (sn_address s)" using v by (simp_all add: sn_valid_def)
  then have "nat (prefixSize s) < 2 ^ 31" using l by (auto simp: addressLength_def)
  then have t: "toInt (decimal (nat (prefixSize s))) = Some (prefixSize s)" using toInt_decimal p by simp
  show ?thesis
  proof (cases "prefixSize s = addressLength (sn_address s)")
    case True
    then show ?thesis using h c p by (simp add: fromString_def sn_toString_def Subnet_new_def takeWhile_eq_all_conv [THEN iffD2] dropWhile_eq_Nil_conv [THEN iffD2])
  next
    case False
    have "takeWhile (\<lambda>c. c \<noteq> CHR ''/'') (hostAddress (sn_address s) @ ''/'' @ d) = hostAddress (sn_address s)"
      "dropWhile (\<lambda>c. c \<noteq> CHR ''/'') (hostAddress (sn_address s) @ ''/'' @ d) = ''/'' @ d" for d
      using c by (simp_all add: takeWhile_append2 dropWhile_append2)
    then show ?thesis using False h p t by (simp add: fromString_def sn_toString_def Subnet_new_def)
  qed
qed

section \<open>Matching\<close>

text \<open>Bit \<open>j\<close> of an address, from the most significant bit of its first byte.\<close>

definition addr_bit :: "byte list \<Rightarrow> nat \<Rightarrow> bool" where
  "addr_bit a j = bit (a ! (j div 8)) (7 - j mod 8)"

lemma bit_mask_byte: "bit (mask_byte b n) i \<longleftrightarrow> i < 8 \<and> nat n \<le> i \<and> bit b i"
proof -
  have "- push_bit (nat n) (1 :: jint) = NOT (mask (nat n))" by (simp add: push_bit_eq_mult minus_exp_eq_not_mask)
  then show ?thesis by (auto simp: mask_byte_def bit_simps)
qed

lemma byte_eq_iff: "x = y \<longleftrightarrow> (\<forall>i < 8. bit x i = bit y i)" for x y :: byte
  by (auto intro: bit_word_eqI)

lemma matches_loop_eq:
  assumes "0 \<le> i" "size1 \<le> int (length a) * 8" "length b = length a"
  shows "matches_loop a b size1 i =
    (if \<forall>k. nat i \<le> k \<longrightarrow> int k * 8 + 8 \<le> size1 \<longrightarrow> a ! k = b ! k then Some (Inr (max i (size1 div 8))) else Some (Inl False))"
  using assms
proof (induction a b size1 i rule: matches_loop.induct)
  case (1 a b size1 i)
  show ?case
  proof (cases "i * 8 < size1 \<and> i * 8 + 8 \<le> size1")
    case True
    then have at: "at a i = Some (a ! nat i)" "at b i = Some (b ! nat i)" using 1 by (auto simp: at_def)
    show ?thesis
    proof (cases "a ! nat i = b ! nat i")
      case eq: True
      have "(\<forall>k. nat (i + 1) \<le> k \<longrightarrow> int k * 8 + 8 \<le> size1 \<longrightarrow> a ! k = b ! k) \<longleftrightarrow> (\<forall>k. nat i \<le> k \<longrightarrow> int k * 8 + 8 \<le> size1 \<longrightarrow> a ! k = b ! k)"
      proof (intro iffI allI impI)
        fix k
        have c: "nat i \<le> k \<longleftrightarrow> k = nat i \<or> nat (i + 1) \<le> k" using 1(2) by linarith
        show "a ! k = b ! k" if "\<forall>k. nat (i + 1) \<le> k \<longrightarrow> int k * 8 + 8 \<le> size1 \<longrightarrow> a ! k = b ! k" "nat i \<le> k" "int k * 8 + 8 \<le> size1"
          using that c eq by auto
        show "a ! k = b ! k" if "\<forall>k. nat i \<le> k \<longrightarrow> int k * 8 + 8 \<le> size1 \<longrightarrow> a ! k = b ! k" "nat (i + 1) \<le> k" "int k * 8 + 8 \<le> size1"
          using that c by blast
      qed
      moreover have "max (i + 1) (size1 div 8) = max i (size1 div 8)" using True by linarith
      moreover have "matches_loop a b size1 i = matches_loop a b size1 (i + 1)" using True at eq by (simp add: matches_loop.simps [of a b size1 i])
      ultimately show ?thesis using 1(1) [OF True] 1(2-) at eq by simp
    next
      case False
      have "int (nat i) * 8 + 8 \<le> size1" using True 1(2) by simp
      then show ?thesis using True at False by (subst matches_loop.simps) auto
    qed
  next
    case False
    then have "size1 div 8 \<le> i" "\<not> (nat i \<le> k \<and> int k * 8 + 8 \<le> size1)" for k using 1(2) by linarith+
    then show ?thesis using False by (subst matches_loop.simps) (auto simp: max_def)
  qed
qed

lemma toImmutable_eq:
  assumes v: "sn_valid s"
  defines "q \<equiv> nat (prefixSize s) div 8"
  shows "im_prefixSize (toImmutable s) = prefixSize s" "length (im_a (toImmutable s)) = length (sn_address s)"
    "k < q \<Longrightarrow> im_a (toImmutable s) ! k = sn_address s ! k"
    "nat (prefixSize s) mod 8 > 0 \<Longrightarrow> im_a (toImmutable s) ! q = mask_byte (sn_address s ! q) (8 - prefixSize s mod 8)"
proof -
  have p: "0 \<le> prefixSize s" "prefixSize s \<le> int (length (sn_address s)) * 8" using v by (simp_all add: sn_valid_def addressLength_def)
  have q: "nat (prefixSize s div 8) = q" using p by (simp add: q_def nat_div_distrib)
  have m: "prefixSize s div 8 * 8 + 8 - prefixSize s = 8 - prefixSize s mod 8" by (simp add: minus_mod_eq_div_mult [symmetric])
  have ql: "q \<le> length (sn_address s)" using p by (simp add: q_def nat_le_iff less_mult_imp_div_less div_le_mono)
  have qs: "nat (prefixSize s div 8 + 1) = Suc q" using p q by simp
  show "im_prefixSize (toImmutable s) = prefixSize s" by (simp add: toImmutable_def Let_def split: prod.splits)
  show "length (im_a (toImmutable s)) = length (sn_address s)"
    using p ql by (auto simp: toImmutable_def Let_def zero_from_def q qs q_def)
  show "im_a (toImmutable s) ! k = sn_address s ! k" if "k < q"
    using that ql by (auto simp: toImmutable_def Let_def zero_from_def q qs nth_append)
  show "im_a (toImmutable s) ! q = mask_byte (sn_address s ! q) (8 - prefixSize s mod 8)" if "nat (prefixSize s) mod 8 > 0"
  proof -
    have "prefixSize s mod 8 > 0" using that p by (metis nat_mod_distrib nat_numeral zero_less_nat_eq zero_le_numeral)
    moreover have "q < length (sn_address s)"
    proof -
      have "nat (prefixSize s) \<le> length (sn_address s) * 8" using p by linarith
      moreover have "nat (prefixSize s) \<noteq> length (sn_address s) * 8" using that by auto
      ultimately show ?thesis unfolding q_def by (intro less_mult_imp_div_less) simp
    qed
    ultimately show ?thesis by (simp add: toImmutable_def Let_def zero_from_def q qs m nth_append)
  qed
qed

lemma addr_bit_at:
  assumes "i < 8"
  shows "addr_bit a (8 * k + (7 - i)) = bit (a ! k) i"
proof -
  define r where "r = 7 - i"
  have r: "r < 8" "7 - r = i" using assms by (simp_all add: r_def)
  have "(8 * k + r) div 8 = k" "(8 * k + r) mod 8 = r" using r(1) by simp_all
  then show ?thesis using r(2) by (simp add: addr_bit_def r_def [symmetric])
qed

lemma addr_bits_eq:
  "(\<forall>j < n. addr_bit x j = addr_bit y j) \<longleftrightarrow> (\<forall>k < n div 8. x ! k = y ! k) \<and> (\<forall>i < 8. 8 - n mod 8 \<le> i \<longrightarrow> bit (x ! (n div 8)) i = bit (y ! (n div 8)) i)"
proof
  assume b: "\<forall>j < n. addr_bit x j = addr_bit y j"
  have "bit (x ! k) i = bit (y ! k) i" if "k < n div 8" "i < 8" for k i
  proof -
    have "8 * k + (7 - i) < n" using that by linarith
    then show ?thesis using b addr_bit_at [OF that(2)] by metis
  qed
  moreover have "bit (x ! (n div 8)) i = bit (y ! (n div 8)) i" if "i < 8" "8 - n mod 8 \<le> i" for i
  proof -
    have "8 * (n div 8) + (7 - i) < n" using that div_mult_mod_eq [of n 8] by linarith
    then show ?thesis using b addr_bit_at [OF that(1)] by metis
  qed
  ultimately show "(\<forall>k < n div 8. x ! k = y ! k) \<and> (\<forall>i < 8. 8 - n mod 8 \<le> i \<longrightarrow> bit (x ! (n div 8)) i = bit (y ! (n div 8)) i)"
    by (simp add: byte_eq_iff)
next
  assume e: "(\<forall>k < n div 8. x ! k = y ! k) \<and> (\<forall>i < 8. 8 - n mod 8 \<le> i \<longrightarrow> bit (x ! (n div 8)) i = bit (y ! (n div 8)) i)"
  show "\<forall>j < n. addr_bit x j = addr_bit y j"
  proof (intro allI impI)
  fix j assume j: "j < n"
  show "addr_bit x j = addr_bit y j"
  proof (cases "j div 8 < n div 8")
    case False
    then have "j div 8 = n div 8" using j by (simp add: div_le_mono le_antisym not_less)
    moreover have "j mod 8 < n mod 8" using calculation j div_mult_mod_eq [of n 8] div_mult_mod_eq [of j 8] by linarith
    then have "8 - n mod 8 \<le> 7 - j mod 8" by simp
    ultimately show ?thesis using e by (simp add: addr_bit_def)
  qed (use e in \<open>simp add: addr_bit_def\<close>)
  qed
qed

text \<open>C32. \<open>Subnet.Immutable.matches\<close> decides membership in a subnet: for a subnet with a prefix size in range,
  an address matches the masked subnet exactly when it has the same length and agrees with the address of the subnet in the first
  \<open>prefixSize\<close> bits; no array is read out of bounds.\<close>

theorem subnet_matches_iff:
  assumes "sn_valid s"
  shows "matches b (toImmutable s) = Some (length b = length (sn_address s) \<and> (\<forall>j < nat (prefixSize s). addr_bit b j = addr_bit (sn_address s) j))"
proof (cases "length b = length (sn_address s)")
  case True
  let ?a = "im_a (toImmutable s)" and ?p = "prefixSize s" and ?q = "nat (prefixSize s) div 8"
  note e = toImmutable_eq [OF assms]
  have p: "0 \<le> ?p" "?p \<le> int (length ?a) * 8" using assms e(2) by (simp_all add: sn_valid_def addressLength_def)
  have q: "?p div 8 = int ?q" "?p mod 8 = int (nat ?p mod 8)" using p(1) by (simp_all add: zdiv_int zmod_int)
  have "int ?q * 8 + int (nat ?p mod 8) = int (?q * 8 + nat ?p mod 8)" by (simp only: of_nat_add of_nat_mult of_nat_numeral)
  also have "\<dots> = ?p" unfolding div_mult_mod_eq using p(1) by simp
  finally have dm: "int ?q * 8 + int (nat ?p mod 8) = ?p" "nat ?p mod 8 < 8" by simp_all
  have k: "0 \<le> k \<longrightarrow> int k * 8 + 8 \<le> ?p \<longleftrightarrow> k < ?q" for k :: nat using p(1) by linarith
  have loop: "matches_loop ?a b ?p 0 = (if \<forall>k < ?q. b ! k = sn_address s ! k then Some (Inr (int ?q)) else Some (Inl False))"
  proof -
    have "(\<forall>k. nat 0 \<le> k \<longrightarrow> int k * 8 + 8 \<le> ?p \<longrightarrow> ?a ! k = b ! k) \<longleftrightarrow> (\<forall>k < ?q. b ! k = sn_address s ! k)" using e(3) k by auto
    then show ?thesis using matches_loop_eq [of 0 ?p ?a b] p True e(2) q(1) by (simp add: max_def)
  qed
  show ?thesis
  proof (cases "nat ?p mod 8 = 0")
    case z: True
    then have "int ?q * 8 = ?p" using dm by simp
    then show ?thesis using loop e(1,2) True addr_bits_eq [of "nat ?p" b "sn_address s"] z by (auto simp: matches_def)
  next
    case nz: False
    then have r: "int ?q * 8 \<noteq> ?p" "int ?q * 8 + 8 - ?p = 8 - ?p mod 8" "int ?q < int (length ?a)" using p(2) q dm by linarith+
    have at: "at ?a (int ?q) = Some (mask_byte (sn_address s ! ?q) (8 - ?p mod 8))" "at b (int ?q) = Some (b ! ?q)"
      using e(4) nz r(3) True e(2) by (simp_all add: at_def)
    have "mask_byte (sn_address s ! ?q) (8 - ?p mod 8) = mask_byte (b ! ?q) (8 - ?p mod 8) \<longleftrightarrow>
        (\<forall>i < 8. 8 - nat ?p mod 8 \<le> i \<longrightarrow> bit (b ! ?q) i = bit (sn_address s ! ?q) i)"
      unfolding byte_eq_iff bit_mask_byte q(2) by auto
    moreover have "matches b (toImmutable s) =
        Some ((\<forall>k < ?q. b ! k = sn_address s ! k) \<and> mask_byte (sn_address s ! ?q) (8 - ?p mod 8) = mask_byte (b ! ?q) (8 - ?p mod 8))"
      using loop e(1,2) True r(1,3) at by (simp add: matches_def r(2))
    ultimately show ?thesis using True by (simp only: addr_bits_eq simp_thms)
  qed
qed (use toImmutable_eq(2) [OF assms] in \<open>auto simp: matches_def\<close>)

theorem subnet_matches_iff_witness:
  "matches [10, 1, 200, 7] (toImmutable \<lparr>sn_address = [10, 1, 194, 3], prefixSize = 20\<rparr>) = Some True"
proof -
  have "sn_valid \<lparr>sn_address = [10, 1, 194, 3], prefixSize = 20\<rparr>" by (simp add: sn_valid_def addressLength_def)
  moreover have "\<forall>j < nat 20. addr_bit [10, 1, 200, 7] j = addr_bit [10, 1, 194, 3] j" by code_simp
  ultimately show ?thesis using subnet_matches_iff [of "\<lparr>sn_address = [10, 1, 194, 3], prefixSize = 20\<rparr>" "[10, 1, 200, 7]"] by simp
qed

end
