(* ===== verification/Spec2Isabelle.thy ===== *)
theory Spec2Isabelle
  imports IpProto PacketBuffer PacketProto SocksClient FairQueueRuns PluginText SubnetAddr
begin

text \<open>
  \<^bold>\<open>A verification library for FoxMod293, an Android VPN client.\<close>

  The program has two parts.  An Android service in Kotlin (\<open>src/core/src/main/java\<close>) keeps profiles,
  plugins and routing rules and starts native processes.  The native process \<open>tun2socks\<close>
  (\<open>src/core/src/main/jni/badvpn\<close>) takes IP packets from the tun device, runs a TCP/IP stack on them and
  forwards each TCP connection through a SOCKS5 client to the local proxy; UDP packets go over a gateway
  connection shared by many flows.  It is written in C, with one thread, and asynchronous: objects pass data over
  four kinds of interfaces, whose callbacks are jobs in one queue, which the reactor runs between
  reports of descriptor events.  Paths below are relative to \<open>badvpn\<close> unless they are Kotlin files.

  \<^bold>\<open>Conventions of the model.\<close>  A byte is an 8 bit word, \<open>uint16_t\<close>, \<open>uint32_t\<close>, \<open>uint64_t\<close> and \<open>size_t\<close> are
  words of their width, so that they wrap; a C \<open>int\<close> is an integer, and the code's bounds are
  preconditions.  Memory is a list of bytes in the little-endian layout of the targets.  An object is a
  record, passed to an operation and returned by it; a callback into an object is the definition of that handler;
  the job queue is the list of pending jobs and is passed along.  A job is a value of a type
  parameter, so that objects are told apart by their jobs.  The assertions of the code are compiled out of the release
  build; they appear as conditions of steps where they bind the caller, and in conclusions where they bind the callee.
  System calls, \<open>malloc\<close>, \<open>realloc\<close>, \<open>getaddrinfo\<close> and the Android platform are parameters; what the code relies on of
  them is a named hypothesis of the theorems (\<open>kernel_io\<close>, \<open>error_complete\<close>, \<open>realloc_ok\<close>).

  \<^bold>\<open>Theories, from the bottom.\<close>

  \<^item> \<open>Prelude\<close>: types, named collections and shared lemmas on lists, words and memory.
  \<^item> \<open>Bytes\<close>: \<open>misc/byteorder.h\<close>, \<open>misc/read_write_int.h\<close>.  The locale \<open>int_codec\<close> states the contract
    of a reader and a writer and is interpreted for all sizes and byte orders.
  \<^item> \<open>IpProto\<close>: \<open>misc/ipv4_proto.h\<close>, \<open>misc/ipv6_proto.h\<close>, \<open>misc/udp_proto.h\<close>.  The checksum routines compute
    the checksums of the RFCs, and \<open>ipv4_check\<close> hands out exactly the payload of a well formed packet.
  \<^item> \<open>Lists\<close>: \<open>structure/SLinkedList_impl.h\<close> and \<open>structure/LinkedList1.h\<close> on nodes; the locale \<open>intrusive_list\<close> is
    interpreted for both.
  \<^item> \<open>BPending\<close>: \<open>base/BPending.c\<close> on linked nodes, and its refinement to a list of jobs, which is what the
    other theories use.
  \<^item> \<open>FlowInterfaces\<close>: the four interfaces of \<open>flow/\<close>.  The locale \<open>flow_interface\<close> has the contract they
    share and is interpreted for each.  For packets with cancellation, the runs of any caller and provider are
    studied: every packet is reported once, none is forgotten, and packets and cancellations reach the provider.
  \<^item> \<open>BSize\<close>: \<open>misc/bsize.h\<close>, \<open>misc/balign.h\<close>, \<open>misc/overflow.h\<close>, \<open>misc/balloc.h\<close>: sizes with an overflow mark are
    exact natural numbers (locale \<open>checked_arith\<close>).
  \<^item> \<open>ChunkBuffer\<close> and \<open>PacketBuffer\<close>: \<open>structure/ChunkBuffer2.h\<close>, a circular buffer of packets on raw memory,
    implements a queue of packets (locale \<open>packet_fifo\<close>); \<open>flow/PacketBuffer.c\<close> built on it loses, reorders and duplicates
    nothing in any interleaving.
  \<^item> \<open>PacketProto\<close>: \<open>protocol/packetproto.h\<close>, \<open>flow/PacketProtoEncoder.c\<close>, \<open>flow/PacketProtoDecoder.c\<close>: framing on a
    stream, its inverse, and the decoder on arbitrary input.
  \<^item> \<open>StreamSender\<close>: \<open>flow/PacketStreamSender.c\<close> writes the concatenation of its packets.
  \<^item> \<open>ParseNumber\<close>, \<open>IpAddr\<close>, \<open>Addr\<close>: \<open>misc/memref.h\<close>, \<open>misc/parse_number.h\<close>, \<open>misc/ipaddr.h\<close>, \<open>system/BAddr.h\<close>: parsers accept
    exactly the texts they should and invert the printers; masks, prefixes and orders.
  \<^item> \<open>Connection\<close>: \<open>system/BConnection_unix.c\<close> with \<open>BConnection.h\<close>, \<open>BConnectionGeneric.h\<close>, \<open>BConnection_common.c\<close>, and
    of \<open>system/BReactor_badvpn.c\<close> the descriptors and limits.  A step relation has the user's calls, the
    jobs, the descriptor events a kernel may report, and the reset of the limits.  Shown are that no wakeup is lost, the contract
    of both streams, who closes a descriptor and how often, and what happens when a kernel reports an
    error alone.
  \<^item> \<open>SocksClient\<close>: \<open>socksclient/BSocksClient.c\<close>, \<open>misc/socks_proto.h\<close>: the client is up exactly after a
    complete dialogue, makes progress, and leaks neither descriptor nor buffer.
  \<^item> \<open>AvlTree\<close>, \<open>CAvlOps\<close>: \<open>structure/CAvl_impl.h\<close> and \<open>structure/SAvl_impl.h\<close>, nodes with parent pointers, against
    sorted lists, and the depth of the trees.  The locale \<open>entry_order\<close> is what the tree needs of the comparison.
  \<^item> \<open>FairQueue\<close>, \<open>FairQueueRuns\<close>: \<open>flow/PacketPassFairQueue.c\<close> on that tree (\<open>entry_order\<close> is interpreted for
    \<open>compare_flows\<close>): the memory of the queue stays well formed, the flow that is most behind is served, and two busy flows
    get the same service up to a constant, in spite of 64 bit times that overflow and are rebased.
  \<^item> \<open>CommandLine\<close>, \<open>PluginText\<close>, \<open>SubnetAddr\<close>: \<open>utils/Commandline.kt\<close>, \<open>plugin/PluginOptions.kt\<close>,
    \<open>plugin/PluginConfiguration.kt\<close>, \<open>net/Subnet.kt\<close> of the service: texts are read back, and matching a subnet is
    agreement on the prefix.

  \<^bold>\<open>Runs.\<close>  Asynchronous components have an inductive step relation on the record and the pending
  jobs (\<open>ppi_step\<close>, \<open>pb_step\<close>, \<open>ppd_step\<close>, \<open>pss_step\<close>, \<open>con_step\<close>, \<open>socks_step\<close>, \<open>fq_step\<close>), with any activity of the peers and
  of other objects as steps, and the theorems hold in every reachable state.  The runs of a connection
  have both directions initialised and end at the first error; those of the SOCKS client end at the event
  it reports; those of the fair queue cover a queue in use, not the sequence that begins with
  \<open>PacketPassFairQueue_PrepareFree\<close> and frees it.  Steps of the SOCKS client replace the connection below
  it by the contract of its two stream interfaces.

  \<^bold>\<open>Loops.\<close>  There is no fuel.  Loops are structural, or have a termination proof; the loops of the
  AVL tree follow pointers and may not end on a damaged tree, so they are partial functions into options,
  and the theorems show a result for every tree that the operations build.

  \<^bold>\<open>Not modelled.\<close>  The main program \<open>tun2socks/tun2socks.c\<close> with lwIP and the UDP gateway clients; \<open>BDatagram\<close>, \<open>BTap\<close>,
  signals and clocks, which wrap system calls; the reactor's event loop and timers; the flow components only
  those use; logging and debugging objects; programs of badvpn that are not built; the third-party
  libraries libevent, redsocks, libancillary, lwIP and shadowsocks-rust; and the rest of the Android
  application, which is written against the platform.
\<close>

end
